(* ===== verification/Chirps_Prelude.thy ===== *)
theory Chirps_Prelude
  imports Complex_Main "HOL-Library.Word"
begin

text \<open>
  Shared vocabulary of the development: the machine types of the Rust code, the
  standard-library integer operations the code calls (\<^verbatim>\<open>checked_add\<close>,
  \<^verbatim>\<open>saturating_add\<close>, \<^verbatim>\<open>saturating_sub\<close>, \<^verbatim>\<open>to_be_bytes\<close>, \<^verbatim>\<open>from_be_bytes\<close>, ...),
  results as values of a sum type, and generic facts about them.  The facts are collected
  in the named theorem lists below, so that a component proof says
  \<^verbatim>\<open>simp add: u_arith\<close> or \<^verbatim>\<open>auto simp: byte_simps\<close> instead of listing lemmas.
\<close>

named_theorems u_arith
  \<open>machine integers read as natural numbers: one equation per library operation\<close>
named_theorems byte_simps
  \<open>fixed-width byte encodings and their inverses\<close>
named_theorems res_simps
  \<open>sequencing of fallible operations\<close>

type_synonym u8 = "8 word"
type_synonym u16 = "16 word"
type_synonym u32 = "32 word"
type_synonym u64 = "64 word"
type_synonym bytes = "u8 list"

subsection \<open>Results\<close>

text \<open>A Rust \<^verbatim>\<open>Result<T, E>\<close> is \<^typ>\<open>'e + 'a\<close>, the error on the left.\<close>

abbreviation Ok :: "'a \<Rightarrow> 'e + 'a" where "Ok \<equiv> Inr"
abbreviation Err :: "'e \<Rightarrow> 'e + 'a" where "Err \<equiv> Inl"

definition and_then :: "'e + 'a \<Rightarrow> ('a \<Rightarrow> 'e + 'b) \<Rightarrow> 'e + 'b" where
  "and_then r f = (case r of Inl e \<Rightarrow> Inl e | Inr x \<Rightarrow> f x)"

definition ok_or :: "'a option \<Rightarrow> 'e \<Rightarrow> 'e + 'a" where
  "ok_or x e = (case x of None \<Rightarrow> Inl e | Some y \<Rightarrow> Inr y)"

lemma and_then_simps [simp, res_simps]:
  "and_then (Inl e) f = Inl e"
  "and_then (Inr x) f = f x"
  by (simp_all add: and_then_def)

lemma and_then_eq_Ok [res_simps]:
  "and_then r f = Inr y \<longleftrightarrow> (\<exists>x. r = Inr x \<and> f x = Inr y)"
  by (cases r) auto

lemma ok_or_simps [simp, res_simps]:
  "ok_or None e = Inl e"
  "ok_or (Some x) e = Inr x"
  by (simp_all add: ok_or_def)

lemma ok_or_eq_Ok [res_simps]: "ok_or x e = Inr y \<longleftrightarrow> x = Some y"
  by (cases x) auto

subsection \<open>Checked and saturating arithmetic\<close>

definition checked_add :: "'w::len word \<Rightarrow> 'w word \<Rightarrow> 'w word option" where
  "checked_add a b = (if unat a + unat b < 2 ^ LENGTH('w) then Some (a + b) else None)"

definition saturating_add :: "'w::len word \<Rightarrow> 'w word \<Rightarrow> 'w word" where
  "saturating_add a b = (if unat a + unat b < 2 ^ LENGTH('w) then a + b else - 1)"

definition saturating_sub :: "'w::len word \<Rightarrow> 'w word \<Rightarrow> 'w word" where
  "saturating_sub a b = (if b \<le> a then a - b else 0)"

lemma unat_bound: "unat (x :: 'w::len word) < 2 ^ LENGTH('w)"
  by (rule unsigned_less)

lemma unat_max_word [u_arith]: "unat (- 1 :: 'w::len word) = 2 ^ LENGTH('w) - 1"
  by (simp add: unsigned_minus_1_eq_mask mask_eq_exp_minus_1)

lemma checked_add_eq_Some [u_arith]:
  "checked_add a b = Some c \<longleftrightarrow> unat c = unat a + unat (b :: 'w::len word)"
proof (cases "unat a + unat b < 2 ^ LENGTH('w)")
  case True
  then have "unat (a + b) = unat a + unat b"
    by (simp add: unat_word_ariths)
  then show ?thesis
    using True by (auto simp: checked_add_def word_unat_eq_iff)
next
  case False
  then have "unat c \<noteq> unat a + unat b"
    using unat_bound[of c] by linarith
  with False show ?thesis
    by (simp add: checked_add_def)
qed

lemma checked_add_eq_None [u_arith]:
  "checked_add a b = None \<longleftrightarrow> 2 ^ LENGTH('w) \<le> unat a + unat (b :: 'w::len word)"
  by (auto simp: checked_add_def)

lemma unat_saturating_add [u_arith]:
  "unat (saturating_add a b) = min (2 ^ LENGTH('w) - 1) (unat a + unat (b :: 'w::len word))"
  by (auto simp: saturating_add_def unat_word_ariths unat_max_word)

lemma unat_saturating_sub [u_arith]:
  "unat (saturating_sub a b) = unat a - unat (b :: 'w::len word)"
  by (auto simp: saturating_sub_def word_le_nat_alt unat_sub)

lemma saturating_add_le [simp]: "a \<le> saturating_add a (b :: 'w::len word)"
proof -
  have "unat a \<le> unat (saturating_add a b)"
    using unat_bound[of a] unfolding unat_saturating_add by linarith
  then show ?thesis
    by (simp add: word_le_nat_alt)
qed

subsection \<open>Fixed-width byte encodings\<close>

text \<open>Least significant byte first; the big-endian forms reverse the list.\<close>

primrec le_of_nat :: "nat \<Rightarrow> nat \<Rightarrow> bytes" where
  "le_of_nat 0 x = []"
| "le_of_nat (Suc n) x = of_nat (x mod 256) # le_of_nat n (x div 256)"

primrec nat_of_le :: "bytes \<Rightarrow> nat" where
  "nat_of_le [] = 0"
| "nat_of_le (b # bs) = unat b + 256 * nat_of_le bs"

definition to_le_bytes :: "'w::len word \<Rightarrow> bytes" where
  "to_le_bytes (w :: 'w word) = le_of_nat (LENGTH('w) div 8) (unat w)"

definition from_le_bytes :: "bytes \<Rightarrow> 'w::len word" where
  "from_le_bytes bs = of_nat (nat_of_le bs)"

definition to_be_bytes :: "'w::len word \<Rightarrow> bytes" where
  "to_be_bytes w = rev (to_le_bytes w)"

definition from_be_bytes :: "bytes \<Rightarrow> 'w::len word" where
  "from_be_bytes bs = from_le_bytes (rev bs)"

lemma length_le_of_nat [simp, byte_simps]: "length (le_of_nat n x) = n"
  by (induction n arbitrary: x) auto

lemma nat_of_le_of_nat: "nat_of_le (le_of_nat n x) = x mod 256 ^ n"
proof (induction n arbitrary: x)
  case (Suc n)
  have "unat (of_nat (x mod 256) :: u8) = x mod 256"
    by (simp add: unat_of_nat)
  with Suc show ?case
    by (simp add: mod_mult2_eq)
qed simp

lemma le_of_nat_of_le: "le_of_nat (length bs) (nat_of_le bs) = bs"
proof (induction bs)
  case (Cons b bs)
  have "unat b < 256"
    using unat_bound[of b] by simp
  with Cons show ?case
    by simp
qed simp

lemma nat_of_le_bound: "nat_of_le bs < 256 ^ length bs"
proof (induction bs)
  case (Cons b bs)
  have "unat b < 256"
    using unat_bound[of b] by simp
  with Cons show ?case
    by simp
qed simp

lemma length_to_bytes [simp, byte_simps]:
  "length (to_le_bytes (w :: 'w::len word)) = LENGTH('w) div 8"
  "length (to_be_bytes w) = LENGTH('w) div 8"
  by (simp_all add: to_le_bytes_def to_be_bytes_def)

lemma from_to_le_bytes:
  assumes "8 dvd LENGTH('w::len)"
  shows "from_le_bytes (to_le_bytes w) = (w :: 'w word)"
proof -
  have "(256 :: nat) ^ (LENGTH('w) div 8) = (2 ^ 8) ^ (LENGTH('w) div 8)"
    by simp
  also have "\<dots> = 2 ^ LENGTH('w)"
    using assms by (simp only: power_mult [symmetric] dvd_mult_div_cancel)
  finally show ?thesis
    using unat_bound[of w] by (simp add: from_le_bytes_def to_le_bytes_def nat_of_le_of_nat)
qed

lemma from_to_be_bytes:
  assumes "8 dvd LENGTH('w::len)"
  shows "from_be_bytes (to_be_bytes w) = (w :: 'w word)"
  using from_to_le_bytes[OF assms] by (simp add: from_be_bytes_def to_be_bytes_def)

lemma from_to_bytes_u64 [simp, byte_simps]:
  "from_le_bytes (to_le_bytes w) = (w :: u64)"
  "from_be_bytes (to_be_bytes w) = (w :: u64)"
  by (simp_all add: from_to_le_bytes from_to_be_bytes)

lemma from_to_bytes_u32 [simp, byte_simps]:
  "from_le_bytes (to_le_bytes w) = (w :: u32)"
  "from_be_bytes (to_be_bytes w) = (w :: u32)"
  by (simp_all add: from_to_le_bytes from_to_be_bytes)

lemma to_from_be_bytes_u64:
  assumes "length bs = 8"
  shows "to_be_bytes (from_be_bytes bs :: u64) = bs"
proof -
  have "nat_of_le (rev bs) < 2 ^ 64"
    using nat_of_le_bound[of "rev bs"] assms by simp
  then have "unat (of_nat (nat_of_le (rev bs)) :: u64) = nat_of_le (rev bs)"
    by (simp add: unat_of_nat)
  then have "to_be_bytes (from_be_bytes bs :: u64) = rev (le_of_nat 8 (nat_of_le (rev bs)))"
    by (simp add: to_be_bytes_def from_be_bytes_def to_le_bytes_def from_le_bytes_def)
  also have "\<dots> = bs"
    using le_of_nat_of_le[of "rev bs"] assms by simp
  finally show ?thesis .
qed

subsection \<open>Decimal rendering\<close>

fun decimal :: "nat \<Rightarrow> string" where
  "decimal n =
     (if n < 10 then [char_of (48 + n)] else decimal (n div 10) @ [char_of (48 + n mod 10)])"

declare decimal.simps [simp del]

subsection \<open>Slices\<close>

text \<open>\<^verbatim>\<open>&v[a..b]\<close> for \<open>a \<le> b \<le> v.len()\<close>.\<close>

definition slice_range :: "'a list \<Rightarrow> nat \<Rightarrow> nat \<Rightarrow> 'a list" where
  "slice_range xs a b = take (b - a) (drop a xs)"

lemma slice_range_append_left [simp, byte_simps]:
  "b \<le> length xs \<Longrightarrow> slice_range (xs @ ys) a b = slice_range xs a b"
  by (simp add: slice_range_def)

lemma slice_range_append_right [simp, byte_simps]:
  "length xs \<le> a \<Longrightarrow> slice_range (xs @ ys) a b = slice_range ys (a - length xs) (b - length xs)"
  by (simp add: slice_range_def)

lemma slice_range_all [simp, byte_simps]: "length xs \<le> b \<Longrightarrow> slice_range xs 0 b = xs"
  by (simp add: slice_range_def)

lemma length_slice_range [simp]:
  "b \<le> length xs \<Longrightarrow> length (slice_range xs a b) = b - a"
  by (simp add: slice_range_def)

end
