(* ===== verification/Wire.thy ===== *)
theory Wire
  imports Chirps_Prelude
begin

text \<open>
  The wire crate (\<^verbatim>\<open>chirps-wire/src\<close>) and the timestamp type of the core crate
  (\<^verbatim>\<open>chirps-core/src/time.rs\<close>): node identities, hybrid timestamps and their order,
  contiguous timestamp ranges, the frames nodes exchange, and the 29-byte envelope header
  every reliable frame travels under.  The serialiser of frame bodies (\<^verbatim>\<open>bincode\<close>) is not
  part of the repository: it is a pair of parameters \<open>ser\<close>, \<open>de\<close>, and the lemmas that need it
  assume only that decoding an encoded frame returns that frame.
\<close>

section \<open>Node identities\<close>

datatype node_id = NodeId bytes

fun node_id_from_bytes :: "bytes \<Rightarrow> string + node_id" where
  "node_id_from_bytes bs =
     (if length bs \<noteq> 16 then Err ''NodeId must be 16 bytes long'' else Ok (NodeId bs))"

fun node_id_as_bytes :: "node_id \<Rightarrow> bytes" where
  "node_id_as_bytes (NodeId bs) = bs"

datatype socket_addr = SocketAddr bytes u16

section \<open>Hybrid timestamps\<close>

text \<open>
  The wire crate and the core crate declare the same structure; both derive \<^verbatim>\<open>Ord\<close>, which
  compares the fields in declaration order.
\<close>

datatype hybrid_timestamp = HybridTimestamp (physical: u64) (logical: u32)

instantiation hybrid_timestamp :: linorder
begin

definition less_eq_hybrid_timestamp :: "hybrid_timestamp \<Rightarrow> hybrid_timestamp \<Rightarrow> bool" where
  "less_eq_hybrid_timestamp a b \<longleftrightarrow>
     physical a < physical b \<or> physical a = physical b \<and> logical a \<le> logical b"

definition less_hybrid_timestamp :: "hybrid_timestamp \<Rightarrow> hybrid_timestamp \<Rightarrow> bool" where
  "less_hybrid_timestamp a b \<longleftrightarrow>
     physical a < physical b \<or> physical a = physical b \<and> logical a < logical b"

instance
  by standard
    (auto simp: less_eq_hybrid_timestamp_def less_hybrid_timestamp_def hybrid_timestamp.expand)

end

definition hlc_next :: "hybrid_timestamp \<Rightarrow> hybrid_timestamp" where
  "hlc_next t =
     (case checked_add (logical t) 1 of
        Some l \<Rightarrow> HybridTimestamp (physical t) l
      | None \<Rightarrow> HybridTimestamp (saturating_add (physical t) 1) 0)"

datatype timestamp_error = EmptyRange | Overflow

definition LOGICAL_CARDINALITY :: u64 where
  "LOGICAL_CARDINALITY = 4294967296"

definition ts_checked_add :: "hybrid_timestamp \<Rightarrow> u64 \<Rightarrow> timestamp_error + hybrid_timestamp" where
  "ts_checked_add t delta =
     (let l = ucast (logical t) + delta;
          physical_delta = l div LOGICAL_CARDINALITY
      in and_then (ok_or (checked_add (physical t) physical_delta) Overflow) (\<lambda>p.
           Ok (HybridTimestamp p (ucast (l mod LOGICAL_CARDINALITY)))))"

definition ts_checked_next :: "hybrid_timestamp \<Rightarrow> timestamp_error + hybrid_timestamp" where
  "ts_checked_next t = ts_checked_add t 1"

record timestamp_range =
  tr_start :: hybrid_timestamp
  tr_end :: hybrid_timestamp
  tr_count :: u32

definition range_from_start :: "hybrid_timestamp \<Rightarrow> u32 \<Rightarrow> timestamp_error + timestamp_range" where
  "range_from_start start count =
     (if count = 0 then Err EmptyRange
      else and_then (ts_checked_add start (ucast (count - 1))) (\<lambda>e.
             Ok \<lparr>tr_start = start, tr_end = e, tr_count = count\<rparr>))"

definition range_at :: "timestamp_range \<Rightarrow> u32 \<Rightarrow> hybrid_timestamp option" where
  "range_at r offset =
     (if offset \<ge> tr_count r then None
      else case ts_checked_add (tr_start r) (ucast offset) of Inr t \<Rightarrow> Some t | Inl _ \<Rightarrow> None)"

text \<open>The position of a timestamp on the line of all representable timestamps.\<close>

definition ts_index :: "hybrid_timestamp \<Rightarrow> nat" where
  "ts_index t = unat (physical t) * 2 ^ 32 + unat (logical t)"

subsection \<open>Order and arithmetic\<close>

lemma ts_index_bound: "ts_index t < 2 ^ 96"
proof -
  have "unat (physical t) \<le> 2 ^ 64 - 1" "unat (logical t) < 2 ^ 32"
    using unat_bound[of "physical t"] unat_bound[of "logical t"] by simp_all
  then show ?thesis
    by (simp add: ts_index_def)
qed

lemma less_iff_ts_index: "a < b \<longleftrightarrow> ts_index a < ts_index b"
proof -
  have "unat (logical a) < 2 ^ 32" "unat (logical b) < 2 ^ 32"
    using unat_bound[of "logical a"] unat_bound[of "logical b"] by simp_all
  then show ?thesis
    unfolding less_hybrid_timestamp_def ts_index_def word_less_nat_alt word_unat_eq_iff
    by auto
qed

lemma ts_index_inject: "ts_index a = ts_index b \<longleftrightarrow> a = b"
  using less_iff_ts_index[of a b] less_iff_ts_index[of b a] by auto

lemma le_iff_ts_index: "a \<le> b \<longleftrightarrow> ts_index a \<le> ts_index b"
  by (simp add: less_iff_ts_index linorder_not_less [symmetric])

lemmas ts_order = less_iff_ts_index le_iff_ts_index ts_index_inject [symmetric]

definition max_timestamp :: hybrid_timestamp where
  "max_timestamp = HybridTimestamp (- 1) (- 1)"

lemma ts_index_max: "ts_index max_timestamp = 2 ^ 96 - 1"
  by (simp add: ts_index_def max_timestamp_def u_arith)

lemma le_max_timestamp [simp]: "t \<le> max_timestamp"
  using ts_index_bound[of t] by (simp add: le_iff_ts_index ts_index_max)

lemma ts_index_hlc_next:
  assumes "t \<noteq> max_timestamp"
  shows "ts_index (hlc_next t) = ts_index t + 1"
proof (cases "checked_add (logical t) 1")
  case None
  then have "unat (logical t) = 2 ^ 32 - 1"
    using unat_bound[of "logical t"] by (simp add: u_arith)
  moreover from this have "unat (physical t) \<noteq> 2 ^ 64 - 1"
    using assms ts_index_inject[of t max_timestamp] unfolding ts_index_max
    by (auto simp: ts_index_def)
  then have "unat (physical t) < 2 ^ 64 - 1"
    using unat_bound[of "physical t"] by simp
  moreover have "hlc_next t = HybridTimestamp (saturating_add (physical t) 1) 0"
    using None by (simp add: hlc_next_def)
  ultimately show ?thesis
    by (simp add: ts_index_def u_arith)
next
  case (Some l)
  then have "hlc_next t = HybridTimestamp (physical t) l"
    by (simp add: hlc_next_def)
  with Some show ?thesis
    by (simp add: ts_index_def u_arith)
qed

lemma hlc_next_greater: "t \<noteq> max_timestamp \<Longrightarrow> t < hlc_next t"
  by (simp add: less_iff_ts_index ts_index_hlc_next)

text \<open>At the largest timestamp the saturating step goes backwards.\<close>

lemma hlc_next_decreases_at_max:
  "hlc_next max_timestamp = HybridTimestamp (- 1) 0 \<and> hlc_next max_timestamp < max_timestamp"
  by (simp add: hlc_next_def max_timestamp_def checked_add_def saturating_add_def u_arith
      less_hybrid_timestamp_def word_less_nat_alt)

text \<open>Below \<open>2 ^ 32\<close> the sum with the logical part cannot leave 64 bits.\<close>

lemma ts_checked_add_parts:
  fixes t :: hybrid_timestamp and d :: u64
  assumes "unat d < 2 ^ 32"
  defines "l \<equiv> ucast (logical t) + d :: u64"
  shows "unat (l div LOGICAL_CARDINALITY) = (unat (logical t) + unat d) div 2 ^ 32"
    and "unat (ucast (l mod LOGICAL_CARDINALITY) :: u32) = (unat (logical t) + unat d) mod 2 ^ 32"
proof -
  have lt: "unat (logical t) < 2 ^ 32"
    using unat_bound[of "logical t"] by simp
  then have l: "unat l = unat (logical t) + unat d"
    using assms(1) by (simp add: l_def unat_word_ariths unsigned_ucast_eq take_bit_eq_mod)
  have c: "unat LOGICAL_CARDINALITY = 2 ^ 32"
    by (simp add: LOGICAL_CARDINALITY_def)
  show "unat (l div LOGICAL_CARDINALITY) = (unat (logical t) + unat d) div 2 ^ 32"
    by (simp add: unat_div l c)
  show "unat (ucast (l mod LOGICAL_CARDINALITY) :: u32) = (unat (logical t) + unat d) mod 2 ^ 32"
    by (simp add: unat_mod l c unsigned_ucast_eq take_bit_eq_mod)
qed

lemma ts_checked_add_Ok_iff:
  assumes "unat d < 2 ^ 32"
  shows "ts_checked_add t d = Ok u \<longleftrightarrow> ts_index u = ts_index t + unat d"
proof -
  let ?s = "unat (logical t) + unat d"
  let ?l = "ucast (logical t) + d :: u64"
  note parts = ts_checked_add_parts[OF assms, of t]
  have lu: "unat (logical u) < 2 ^ 32"
    using unat_bound[of "logical u"] by simp
  have "ts_checked_add t d = Ok u \<longleftrightarrow>
      unat (physical u) = unat (physical t) + ?s div 2 ^ 32 \<and> unat (logical u) = ?s mod 2 ^ 32"
    by (cases u)
      (auto simp: ts_checked_add_def Let_def and_then_eq_Ok ok_or_eq_Ok checked_add_eq_Some
        parts word_unat_eq_iff)
  also have "\<dots> \<longleftrightarrow> ts_index u = ts_index t + unat d"
  proof
    assume "unat (physical u) = unat (physical t) + ?s div 2 ^ 32 \<and> unat (logical u) = ?s mod 2 ^ 32"
    then show "ts_index u = ts_index t + unat d"
      using div_mult_mod_eq[of ?s "2 ^ 32"] by (simp add: ts_index_def algebra_simps)
  next
    assume eq: "ts_index u = ts_index t + unat d"
    have "ts_index u div 2 ^ 32 = unat (physical u)" "ts_index u mod 2 ^ 32 = unat (logical u)"
      using lu by (simp_all add: ts_index_def)
    with eq show "unat (physical u) = unat (physical t) + ?s div 2 ^ 32 \<and> unat (logical u) = ?s mod 2 ^ 32"
      by (simp add: ts_index_def add.assoc)
  qed
  finally show ?thesis .
qed

lemma ts_of_index:
  assumes "n < 2 ^ 96"
  obtains t where "ts_index t = n"
proof
  show "ts_index (HybridTimestamp (of_nat (n div 2 ^ 32)) (of_nat (n mod 2 ^ 32))) = n"
    using assms by (simp add: ts_index_def unat_of_nat)
qed

lemma ts_checked_add_Err_iff:
  assumes "unat d < 2 ^ 32"
  shows "ts_checked_add t d = Err e \<longleftrightarrow> e = Overflow \<and> 2 ^ 96 \<le> ts_index t + unat d"
proof (cases "ts_checked_add t d")
  case (Inl e')
  then have "e' = Overflow"
    by (auto simp: ts_checked_add_def Let_def ok_or_def split: option.splits)
  moreover have "\<not> ts_index t + unat d < 2 ^ 96"
    using Inl ts_of_index[of "ts_index t + unat d"] ts_checked_add_Ok_iff[OF assms, of t]
    by (metis Inl_Inr_False)
  ultimately show ?thesis
    using Inl by auto
next
  case (Inr u)
  then show ?thesis
    using ts_index_bound[of u] ts_checked_add_Ok_iff[OF assms, of t u] by auto
qed

lemma unat_ucast_u32 [simp]: "unat (ucast (x :: u32) :: u64) = unat x"
  using unat_bound[of x] by (simp add: unsigned_ucast_eq take_bit_eq_mod)

lemma range_from_start_Ok_iff:
  "range_from_start s n = Ok r \<longleftrightarrow>
     tr_start r = s \<and> tr_count r = n \<and> n \<noteq> 0 \<and> ts_index (tr_end r) + 1 = ts_index s + unat n"
proof (cases "n = 0")
  case False
  then have "unat (n - 1) + 1 = unat n"
    by (metis unat_minus_one Suc_eq_plus1 Suc_pred' unat_gt_0)
  moreover have "unat (ucast (n - 1) :: u64) < 2 ^ 32"
    using unat_bound[of "n - 1"] by simp
  ultimately show ?thesis
    using False by (cases r)
      (auto simp: range_from_start_def and_then_eq_Ok ts_checked_add_Ok_iff)
qed (simp add: range_from_start_def)

lemma range_at_eq_Some:
  assumes "range_from_start s n = Ok r"
  shows "range_at r i = Some t \<longleftrightarrow> i < n \<and> ts_index t = ts_index s + unat i"
proof -
  have "unat (ucast i :: u64) < 2 ^ 32"
    using unat_bound[of i] by simp
  then have "ts_checked_add s (ucast i) = Ok t \<longleftrightarrow> ts_index t = ts_index s + unat i"
    by (simp add: ts_checked_add_Ok_iff)
  then show ?thesis
    using assms by (auto simp: range_at_def range_from_start_Ok_iff split: sum.splits)
qed

section \<open>Frames\<close>

datatype member_status = MAlive | MSuspect | MDead

record membership_update =
  mu_node_id :: node_id
  mu_incarnation :: u64
  mu_addr :: socket_addr
  mu_status :: member_status

record hlc_event_id =
  ev_source :: node_id
  ev_sequence :: u64

record stamped_membership_update =
  su_event_id :: hlc_event_id
  su_timestamp :: hybrid_timestamp
  su_update :: membership_update

record hlc_gossip_message =
  hg_event_id :: hlc_event_id
  hg_timestamp :: hybrid_timestamp
  hg_updates :: "stamped_membership_update list"

record raft_frame =
  rf_group_id :: u64
  rf_payload :: bytes

subsection \<open>File transfer messages\<close>

type_synonym chunk_index = u32
type_synonym chunk_checksum = u64

datatype transfer_session_id = TransferSessionId bytes

fun transfer_session_id_from_bytes :: "bytes \<Rightarrow> string + transfer_session_id" where
  "transfer_session_id_from_bytes bs =
     (if length bs \<noteq> 16 then Err ''TransferSessionId must be 16 bytes long''
      else Ok (TransferSessionId bs))"

datatype compression_algorithm = CompressionNone | Zstd | ZstdLevel int
datatype hash_algorithm = Sha256 | Blake3 | XxHash64
datatype transfer_mode = Copy | Move
datatype wire_transfer_state =
  WInitializing | WInProgress | WPaused | WVerifying | WCompleted | WFailed | WCancelled
datatype file_type = File | Directory | Symlink

text \<open>Durations are nanoseconds; the floating-point multiplier is the rational it denotes.\<close>

record retry_policy =
  rp_max_retries :: u8
  rp_initial_delay :: nat
  rp_max_delay :: nat
  rp_backoff_multiplier :: rat
  rp_jitter :: bool

record transfer_options =
  to_chunk_size :: nat
  to_concurrency :: nat
  to_compression :: compression_algorithm
  to_bandwidth_limit :: "u64 option"
  to_retry_policy :: retry_policy
  to_verify_on_complete :: bool
  to_hash_algorithm :: hash_algorithm
  to_resumable :: bool
  to_overwrite :: bool
  to_mode :: transfer_mode
  to_preserve_metadata :: bool
  to_follow_symlinks :: bool

definition DEFAULT_CHUNK_SIZE :: nat where
  "DEFAULT_CHUNK_SIZE = 1024 * 1024"

definition retry_policy_default :: retry_policy where
  "retry_policy_default =
     \<lparr>rp_max_retries = 3, rp_initial_delay = 100 * 10 ^ 6, rp_max_delay = 10 * 10 ^ 9,
      rp_backoff_multiplier = 2, rp_jitter = True\<rparr>"

definition transfer_options_default :: transfer_options where
  "transfer_options_default =
     \<lparr>to_chunk_size = DEFAULT_CHUNK_SIZE, to_concurrency = 4, to_compression = CompressionNone,
      to_bandwidth_limit = None, to_retry_policy = retry_policy_default,
      to_verify_on_complete = True, to_hash_algorithm = Sha256, to_resumable = True,
      to_overwrite = False, to_mode = Copy, to_preserve_metadata = True,
      to_follow_symlinks = False\<rparr>"

record chunk_meta =
  cm_index :: chunk_index
  cm_offset :: u64
  cm_size :: u32
  cm_checksum :: chunk_checksum

record file_metadata =
  fm_created_at :: "u64 option"
  fm_modified_at :: "u64 option"
  fm_permissions :: "u32 option"
  fm_file_type :: file_type
  fm_size :: "u64 option"

record transfer_manifest =
  tm_version :: u16
  tm_session_id :: transfer_session_id
  tm_source_path :: string
  tm_dest_path :: string
  tm_file_size :: u64
  tm_file_hash :: bytes
  tm_hash_algorithm :: hash_algorithm
  tm_chunk_size :: u32
  tm_chunk_count :: u32
  tm_chunks :: "chunk_meta list"
  tm_metadata :: "file_metadata option"
  tm_options :: transfer_options
  tm_created_at :: u64

record transfer_request =
  tq_source_path :: string
  tq_dest_path :: string
  tq_file_size :: u64
  tq_chunk_count :: u32
  tq_chunk_size :: u32
  tq_mode :: transfer_mode
  tq_options :: transfer_options
  tq_metadata :: "file_metadata option"

record transfer_complete =
  tc_bytes_transferred :: u64
  tc_duration_ms :: u64
  tc_file_hash :: bytes
  tc_hash_algorithm :: hash_algorithm

record file_info =
  fi_path :: string
  fi_size :: u64
  fi_modified_at :: u64
  fi_file_type :: file_type

text \<open>
  The message structures whose fields no modelled operation reads are constructors with the
  fields in the order of the structure.
\<close>

datatype file_transfer_message =
    TransferRequest transfer_request
  | TransferResponse bool "string option" "chunk_index list"
  | Manifest transfer_manifest
  | ManifestAck bool "chunk_index list" "string option"
  | ChunkAck chunk_index bool "string option"
  | ChunkRequest "chunk_index list"
  | Progress u32 u64 wire_transfer_state
  | Cancel string
  | Complete transfer_complete
  | ErrorMessage u32 string bool
  | ExistsRequest string
  | ExistsResponse bool bool bool
  | RemoveRequest string bool bool
  | RemoveResponse bool "string option"
  | MetadataRequest string
  | MetadataResponse bool "file_metadata option" "u64 option" "string option"
  | ListRequest string bool bool
  | ListResponse "file_info list" "string option"
  | SyncRequest string string transfer_options
  | FinalizeRequest transfer_complete

datatype frame =
    Ping u64 node_id
  | Ack u64 node_id
  | PingReq u64 node_id node_id
  | Gossip "membership_update list"
  | User bytes
  | Raft raft_frame
  | RaftSnapshot raft_frame
  | FileTransfer transfer_session_id file_transfer_message
  | HlcGossip hlc_gossip_message

section \<open>The frame envelope\<close>

definition FRAME_ENVELOPE_V2_HEADER_SIZE :: nat where
  "FRAME_ENVELOPE_V2_HEADER_SIZE = 29"

record frame_envelope_v2 =
  env_kind :: u8
  env_seq :: u64
  env_ack_seq :: u64
  env_timestamp :: u64
  env_payload_len :: u32
  env_frame :: frame

definition encode_with_payload :: "frame_envelope_v2 \<Rightarrow> bytes \<Rightarrow> bytes" where
  "encode_with_payload env body =
     (let payload_len = of_nat (length body) :: u32
      in [env_kind env] @ to_be_bytes (env_seq env) @ to_be_bytes (env_ack_seq env)
         @ to_be_bytes (env_timestamp env) @ to_be_bytes payload_len @ body)"

definition envelope_encode :: "(frame \<Rightarrow> bytes) \<Rightarrow> frame_envelope_v2 \<Rightarrow> bytes" where
  "envelope_encode ser env = encode_with_payload env (ser (env_frame env))"

datatype envelope_error = NotEnoughBytes | PayloadLengthMismatch | BodyError string

definition envelope_decode ::
  "(bytes \<Rightarrow> string + frame) \<Rightarrow> bytes \<Rightarrow> envelope_error + frame_envelope_v2" where
  "envelope_decode de bs =
     (if length bs < FRAME_ENVELOPE_V2_HEADER_SIZE then Err NotEnoughBytes
      else
        let kind = bs ! 0;
            seq_buf = slice_range bs 1 9;
            ack_buf = slice_range bs 9 17;
            ts_buf = slice_range bs 17 25;
            payload_len = from_be_bytes (slice_range bs 25 29) :: u32;
            body_offset = FRAME_ENVELOPE_V2_HEADER_SIZE
        in if length bs < body_offset + unat payload_len then Err PayloadLengthMismatch
           else case de (slice_range bs body_offset (body_offset + unat payload_len)) of
                  Inl e \<Rightarrow> Err (BodyError e)
                | Inr f \<Rightarrow> Ok \<lparr>env_kind = kind, env_seq = from_be_bytes seq_buf,
                               env_ack_seq = from_be_bytes ack_buf,
                               env_timestamp = from_be_bytes ts_buf,
                               env_payload_len = payload_len, env_frame = f\<rparr>)"

lemma length_encode_with_payload [simp]:
  "length (encode_with_payload env body) = FRAME_ENVELOPE_V2_HEADER_SIZE + length body"
  by (simp add: encode_with_payload_def Let_def FRAME_ENVELOPE_V2_HEADER_SIZE_def)

lemma encode_fields:
  fixes env body
  defines "bs \<equiv> encode_with_payload env body"
  shows "bs ! 0 = env_kind env"
    and "slice_range bs 1 9 = to_be_bytes (env_seq env)"
    and "slice_range bs 9 17 = to_be_bytes (env_ack_seq env)"
    and "slice_range bs 17 25 = to_be_bytes (env_timestamp env)"
    and "slice_range bs 25 29 = to_be_bytes (of_nat (length body) :: u32)"
    and "slice_range bs FRAME_ENVELOPE_V2_HEADER_SIZE
           (FRAME_ENVELOPE_V2_HEADER_SIZE + length body) = body"
  by (simp_all add: bs_def encode_with_payload_def Let_def FRAME_ENVELOPE_V2_HEADER_SIZE_def
      slice_range_def)

text \<open>Decoding an encoded envelope, with arbitrary bytes behind it.\<close>

lemma envelope_decode_encode:
  assumes "length body < 2 ^ 32"
  shows "envelope_decode de (encode_with_payload env body @ rest) =
    (case de body of Inl e \<Rightarrow> Err (BodyError e)
     | Inr f \<Rightarrow> Ok (env\<lparr>env_payload_len := of_nat (length body), env_frame := f\<rparr>))"
proof -
  have len: "unat (of_nat (length body) :: u32) = length body"
    using assms by (simp add: unat_of_nat)
  have bytes: "n \<le> 29 + length body \<Longrightarrow>
      slice_range (encode_with_payload env body @ rest) m n =
      slice_range (encode_with_payload env body) m n" for m n
    by (simp add: FRAME_ENVELOPE_V2_HEADER_SIZE_def)
  have kind: "(encode_with_payload env body @ rest) ! 0 = env_kind env"
    using encode_fields(1)[of env body] by (simp add: nth_append FRAME_ENVELOPE_V2_HEADER_SIZE_def)
  show ?thesis
    using encode_fields(2-6)[of env body] kind
    by (simp add: envelope_decode_def Let_def bytes len FRAME_ENVELOPE_V2_HEADER_SIZE_def
        split: sum.splits)
qed

end
