(* ===== verification/Hlc.thy ===== *)
theory Hlc
  imports Wire
begin

text \<open>
  The per-node hybrid logical clock of \<^verbatim>\<open>chirps-gossip-swim/src/hlc.rs\<close>.  The injected
  physical clock is the sequence of its readings: \<open>hlc_clock n\<close> is what the \<open>n\<close>-th call of
  \<^verbatim>\<open>now_millis\<close> returns and \<open>hlc_reads\<close> counts the calls, so readings may go backwards.
  The optional metrics sink only observes operations and is left out; the classification it
  receives is \<open>classify_advance\<close>.
\<close>

record local_hlc =
  hlc_current :: hybrid_timestamp
  hlc_max_clock_skew :: nat
  hlc_clock :: "nat \<Rightarrow> u64"
  hlc_reads :: nat

datatype hlc_advance = Physical | Logical

datatype hlc_error = ClockSkewTooLarge u64 u64 u64

definition hlc_now_millis :: "local_hlc \<Rightarrow> u64 \<times> local_hlc" where
  "hlc_now_millis h = (hlc_clock h (hlc_reads h), h\<lparr>hlc_reads := Suc (hlc_reads h)\<rparr>)"

definition hlc_with_clock :: "nat \<Rightarrow> (nat \<Rightarrow> u64) \<Rightarrow> local_hlc" where
  "hlc_with_clock skew clock =
     \<lparr>hlc_current = HybridTimestamp (clock 0) 0, hlc_max_clock_skew = skew,
      hlc_clock = clock, hlc_reads = 1\<rparr>"

definition hlc_tick :: "local_hlc \<Rightarrow> hybrid_timestamp \<times> local_hlc" where
  "hlc_tick h =
     (let (wall, h1) = hlc_now_millis h;
          c = (if wall > physical (hlc_current h1) then HybridTimestamp wall 0
               else hlc_next (hlc_current h1))
      in (c, h1\<lparr>hlc_current := c\<rparr>))"

definition hlc_receive ::
  "local_hlc \<Rightarrow> hybrid_timestamp \<Rightarrow> (hlc_error + hybrid_timestamp) \<times> local_hlc" where
  "hlc_receive h remote =
     (let (wall, h1) = hlc_now_millis h;
          max_skew_millis = of_nat (min (hlc_max_clock_skew h1) (2 ^ 64 - 1)) :: u64
      in if physical remote > saturating_add wall max_skew_millis
         then (Err (ClockSkewTooLarge (physical remote) wall max_skew_millis), h1)
         else
           let l = hlc_current h1;
               merged_physical = max (max (physical l) wall) (physical remote);
               c = (if merged_physical = physical l \<and> merged_physical = physical remote
                    then hlc_next (HybridTimestamp merged_physical (max (logical l) (logical remote)))
                    else if merged_physical = physical l then hlc_next l
                    else if merged_physical = physical remote then hlc_next remote
                    else HybridTimestamp merged_physical 0)
           in (Ok c, h1\<lparr>hlc_current := c\<rparr>))"

definition classify_advance :: "hybrid_timestamp \<Rightarrow> hybrid_timestamp \<Rightarrow> hlc_advance" where
  "classify_advance before after =
     (if physical after > physical before then Physical else Logical)"

text \<open>An execution: local events and receipts of remote stamps, in any order.\<close>

datatype hlc_event = Tick | Receive hybrid_timestamp

primrec hlc_step :: "local_hlc \<Rightarrow> hlc_event \<Rightarrow> local_hlc" where
  "hlc_step h Tick = snd (hlc_tick h)"
| "hlc_step h (Receive r) = snd (hlc_receive h r)"

primrec hlc_stamps :: "local_hlc \<Rightarrow> hlc_event list \<Rightarrow> hybrid_timestamp list" where
  "hlc_stamps h [] = []"
| "hlc_stamps h (e # es) =
     (case e of
        Tick \<Rightarrow> [fst (hlc_tick h)]
      | Receive r \<Rightarrow> (case fst (hlc_receive h r) of Inl _ \<Rightarrow> [] | Inr t \<Rightarrow> [t]))
     @ hlc_stamps (hlc_step h e) es"

section \<open>Single operations\<close>

lemma hlc_tick_greater:
  assumes "hlc_current h \<noteq> max_timestamp"
  shows "hlc_current h < fst (hlc_tick h)"
  using hlc_next_greater[OF assms]
  by (auto simp: hlc_tick_def hlc_now_millis_def Let_def less_hybrid_timestamp_def)

lemma hlc_tick_current [simp]: "hlc_current (snd (hlc_tick h)) = fst (hlc_tick h)"
  by (simp add: hlc_tick_def hlc_now_millis_def Let_def)

lemma hlc_receive_Ok:
  assumes "fst (hlc_receive h r) = Ok t"
  shows "hlc_current (snd (hlc_receive h r)) = t"
  using assms by (auto simp: hlc_receive_def hlc_now_millis_def Let_def split: if_splits)

lemma hlc_receive_Err:
  assumes "fst (hlc_receive h r) = Err e"
  shows "snd (hlc_receive h r) = h\<lparr>hlc_reads := Suc (hlc_reads h)\<rparr>"
  using assms by (auto simp: hlc_receive_def hlc_now_millis_def Let_def split: if_splits)

lemma hlc_next_max_merge:
  assumes "physical l = physical r" "l \<noteq> max_timestamp" "r \<noteq> max_timestamp"
  shows "max l r < hlc_next (HybridTimestamp (physical l) (max (logical l) (logical r)))"
proof -
  have "HybridTimestamp (physical l) (max (logical l) (logical r)) = max l r"
    using assms(1) by (cases l; cases r)
      (auto simp: max_def less_eq_hybrid_timestamp_def)
  moreover have "max l r \<noteq> max_timestamp"
    using assms(2,3) by (simp add: max_def)
  ultimately show ?thesis
    using hlc_next_greater by metis
qed

lemma hlc_receive_greater:
  assumes ok: "fst (hlc_receive h r) = Ok t"
    and max: "hlc_current h \<noteq> max_timestamp" "r \<noteq> max_timestamp"
  shows "hlc_current h < t \<and> r < t"
proof -
  let ?l = "hlc_current h"
  let ?w = "hlc_clock h (hlc_reads h)"
  let ?m = "max (max (physical ?l) ?w) (physical r)"
  from ok have t: "t =
      (if ?m = physical ?l \<and> ?m = physical r
       then hlc_next (HybridTimestamp ?m (max (logical ?l) (logical r)))
       else if ?m = physical ?l then hlc_next ?l
       else if ?m = physical r then hlc_next r
       else HybridTimestamp ?m 0)"
    by (auto simp: hlc_receive_def hlc_now_millis_def Let_def split: if_splits)
  consider (both) "?m = physical ?l" "?m = physical r"
    | (loc) "?m = physical ?l" "?m \<noteq> physical r"
    | (rem) "?m \<noteq> physical ?l" "?m = physical r"
    | (wall) "?m \<noteq> physical ?l" "?m \<noteq> physical r"
    by blast
  then show ?thesis
  proof cases
    case both
    then have eq: "physical ?l = physical r" by simp
    have "t = hlc_next (HybridTimestamp (physical ?l) (max (logical ?l) (logical r)))"
      using both t by simp
    with hlc_next_max_merge[OF eq max] have "max ?l r < t" by simp
    then show ?thesis by simp
  next
    case loc
    then have "r < ?l" by (simp add: less_hybrid_timestamp_def max_def split: if_splits)
    moreover have "t = hlc_next ?l" using loc t by simp
    ultimately show ?thesis using hlc_next_greater[OF max(1)] by auto
  next
    case rem
    then have "?l < r" by (auto simp: less_hybrid_timestamp_def max_def split: if_splits)
    moreover have "t = hlc_next r" using rem t by simp
    ultimately show ?thesis using hlc_next_greater[OF max(2)] by auto
  next
    case wall
    have "physical ?l < ?m" "physical r < ?m"
      using wall by (auto simp: max_def split: if_splits)
    moreover have "t = HybridTimestamp ?m 0" using wall t by simp
    ultimately show ?thesis by (simp add: less_hybrid_timestamp_def)
  qed
qed

text \<open>No operation lets the clock run further ahead than one step past what it has seen.\<close>

lemma ts_index_hlc_next_le: "ts_index (hlc_next t) \<le> ts_index t + 1"
  by (cases "t = max_timestamp")
    (simp_all add: ts_index_hlc_next, use ts_index_bound[of "hlc_next max_timestamp"] in
      \<open>simp add: ts_index_max\<close>)

lemma hlc_tick_bound:
  assumes "ts_index (hlc_current h) \<le> B" "unat (hlc_clock h (hlc_reads h)) * 2 ^ 32 \<le> B"
  shows "ts_index (fst (hlc_tick h)) \<le> B + 1"
  using assms ts_index_hlc_next_le[of "hlc_current h"]
  by (auto simp: hlc_tick_def hlc_now_millis_def Let_def ts_index_def)

lemma hlc_receive_bound:
  assumes ok: "fst (hlc_receive h r) = Ok t"
    and B: "ts_index (hlc_current h) \<le> B" "unat (hlc_clock h (hlc_reads h)) * 2 ^ 32 \<le> B"
      "ts_index r \<le> B"
  shows "ts_index t \<le> B + 1"
proof -
  let ?l = "hlc_current h"
  let ?m = "max (max (physical ?l) (hlc_clock h (hlc_reads h))) (physical r)"
  have merge: "m = physical ?l \<Longrightarrow> m = physical r \<Longrightarrow>
      ts_index (HybridTimestamp m (max (logical ?l) (logical r))) \<le> B" for m
    using B by (cases "logical ?l \<le> logical r") (simp_all add: ts_index_def max_def)
  have wall: "?m \<noteq> physical ?l \<Longrightarrow> ?m \<noteq> physical r \<Longrightarrow> ts_index (HybridTimestamp ?m 0) \<le> B"
    using B(2) by (auto simp: ts_index_def max_def split: if_splits)
  have "t = hlc_next (HybridTimestamp ?m (max (logical ?l) (logical r)))
      \<and> ?m = physical ?l \<and> ?m = physical r
    \<or> t = hlc_next ?l \<or> t = hlc_next r
    \<or> t = HybridTimestamp ?m 0 \<and> ?m \<noteq> physical ?l \<and> ?m \<noteq> physical r"
    using ok by (auto simp: hlc_receive_def hlc_now_millis_def Let_def split: if_splits)
  then show ?thesis
    using B ts_index_hlc_next_le[of ?l] ts_index_hlc_next_le[of r]
      order.trans[OF ts_index_hlc_next_le add_right_mono[OF merge[of ?m]]] wall
    by (elim disjE conjE) simp_all
qed

section \<open>Executions\<close>

definition hlc_inputs_below :: "local_hlc \<Rightarrow> hlc_event list \<Rightarrow> nat \<Rightarrow> bool" where
  "hlc_inputs_below h es B \<longleftrightarrow>
     ts_index (hlc_current h) \<le> B \<and> (\<forall>n. unat (hlc_clock h n) * 2 ^ 32 \<le> B) \<and>
     (\<forall>e\<in>set es. case e of Tick \<Rightarrow> True | Receive r \<Rightarrow> ts_index r \<le> B)"

lemma hlc_step_clock [simp]: "hlc_clock (hlc_step h e) = hlc_clock h"
  by (cases e) (auto simp: hlc_tick_def hlc_receive_def hlc_now_millis_def Let_def)

lemma hlc_step_inputs_below:
  assumes "hlc_inputs_below h (e # es) B"
  shows "hlc_inputs_below (hlc_step h e) es (B + 1)"
proof -
  have "ts_index (hlc_current (hlc_step h e)) \<le> B + 1"
  proof (cases e)
    case Tick
    then show ?thesis
      using assms hlc_tick_bound[of h B] by (simp add: hlc_inputs_below_def)
  next
    case (Receive r)
    then show ?thesis
      using assms hlc_receive_bound[of h r _ B] hlc_receive_Ok[of h r] hlc_receive_Err[of h r]
      by (cases "fst (hlc_receive h r)") (auto simp: hlc_inputs_below_def)
  qed
  then show ?thesis
    using assms by (auto simp: hlc_inputs_below_def le_SucI split: hlc_event.splits)
qed

lemma hlc_stamps_sorted:
  assumes "hlc_inputs_below h es B" "B + length es < 2 ^ 96 - 1"
  shows "sorted_wrt (<) (hlc_current h # hlc_stamps h es)
    \<and> (\<forall>t\<in>set (hlc_stamps h es). ts_index t \<le> B + length es)"
  using assms
proof (induction es arbitrary: h B)
  case (Cons e es)
  let ?h = "hlc_step h e"
  have IH: "sorted_wrt (<) (hlc_current ?h # hlc_stamps ?h es)"
    "\<forall>t\<in>set (hlc_stamps ?h es). ts_index t \<le> B + length (e # es)"
    using Cons.IH[OF hlc_step_inputs_below[OF Cons.prems(1)]] Cons.prems(2) by auto
  have nmax: "ts_index x \<le> B \<Longrightarrow> x \<noteq> max_timestamp" for x
    using Cons.prems(2) by (auto simp: ts_index_max)
  have cur: "hlc_current h \<noteq> max_timestamp"
    using Cons.prems(1) nmax by (simp add: hlc_inputs_below_def)
  have bound: "ts_index (hlc_current ?h) \<le> B + 1"
    using hlc_step_inputs_below[OF Cons.prems(1)] by (simp add: hlc_inputs_below_def)
  show ?case
  proof (cases e)
    case Tick
    with IH bound hlc_tick_greater[OF cur] show ?thesis
      by (auto simp del: sorted_wrt.simps(2) simp add: sorted_wrt_append)
         (auto intro: less_trans)
  next
    case (Receive r)
    have r: "r \<noteq> max_timestamp"
      using Cons.prems(1) nmax Receive by (auto simp: hlc_inputs_below_def)
    show ?thesis
    proof (cases "fst (hlc_receive h r)")
      case (Inl er)
      with IH hlc_receive_Err[OF Inl] Receive show ?thesis
        by auto
    next
      case (Inr t)
      with IH bound Receive hlc_receive_Ok[OF Inr] hlc_receive_greater[OF Inr cur r] show ?thesis
        by (auto intro: less_trans)
    qed
  qed
qed (simp add: hlc_inputs_below_def)

section \<open>Properties\<close>

text \<open>
  (C10) However local events and receipts interleave, and even if the wall clock runs backwards,
  every timestamp a node issues is strictly greater than all it issued before, as long as what it
  reads and receives stays clear of the largest representable timestamp; and after \<open>k\<close> events the
  clock is at most \<open>k\<close> steps ahead of the largest input it has seen.
\<close>

theorem hlc_issued_stamps_strictly_increase:
  assumes "hlc_inputs_below h es B" "B + length es < 2 ^ 96 - 1"
  shows "sorted_wrt (<) (hlc_current h # hlc_stamps h es)
    \<and> list_all (\<lambda>t. ts_index t \<le> B + length es) (hlc_stamps h es)"
  using hlc_stamps_sorted[OF assms] by (simp add: list_all_iff)

definition example_hlc :: local_hlc where
  "example_hlc = hlc_with_clock 1000 (\<lambda>n. if n = 0 then 50 else 40)"

theorem hlc_issued_stamps_strictly_increase_witness:
  "hlc_stamps example_hlc [Tick, Receive (HybridTimestamp 70 4), Tick] =
     [HybridTimestamp 50 1, HybridTimestamp 70 5, HybridTimestamp 70 6] \<and>
   sorted_wrt (<) (hlc_current example_hlc
     # hlc_stamps example_hlc [Tick, Receive (HybridTimestamp 70 4), Tick])"
proof -
  have "hlc_inputs_below example_hlc [Tick, Receive (HybridTimestamp 70 4), Tick] (2 ^ 40)"
    by (simp add: hlc_inputs_below_def example_hlc_def hlc_with_clock_def ts_index_def)
  then have "sorted_wrt (<) (hlc_current example_hlc
     # hlc_stamps example_hlc [Tick, Receive (HybridTimestamp 70 4), Tick])"
    using hlc_issued_stamps_strictly_increase
      [of example_hlc "[Tick, Receive (HybridTimestamp 70 4), Tick]" "2 ^ 40"] by simp
  moreover have "hlc_stamps example_hlc [Tick, Receive (HybridTimestamp 70 4), Tick] =
     [HybridTimestamp 50 1, HybridTimestamp 70 5, HybridTimestamp 70 6]"
    by (simp add: example_hlc_def hlc_with_clock_def hlc_tick_def hlc_receive_def hlc_now_millis_def
        hlc_next_def checked_add_def saturating_add_def max_def Let_def)
  ultimately show ?thesis by blast
qed

text \<open>
  A receipt either accepts the remote stamp, and then the new local time exceeds both the old
  local time and the remote stamp, or refuses it exactly when the remote physical time is more
  than the configured skew ahead of the wall clock, and then the local time is unchanged.
\<close>

theorem hlc_receive_contract:
  assumes "hlc_current h \<noteq> max_timestamp" "r \<noteq> max_timestamp"
  shows "case fst (hlc_receive h r) of
      Inr t \<Rightarrow> hlc_current h < t \<and> r < t \<and> hlc_current (snd (hlc_receive h r)) = t
    | Inl e \<Rightarrow> hlc_current (snd (hlc_receive h r)) = hlc_current h \<and>
        unat (physical r) > unat (hlc_clock h (hlc_reads h)) + hlc_max_clock_skew h"
proof (cases "fst (hlc_receive h r)")
  case (Inl e)
  let ?w = "hlc_clock h (hlc_reads h)"
  let ?s = "of_nat (min (hlc_max_clock_skew h) (2 ^ 64 - 1)) :: u64"
  have "physical r > saturating_add ?w ?s"
    using Inl by (auto simp: hlc_receive_def hlc_now_millis_def Let_def split: if_splits)
  then have "unat (physical r) > min (2 ^ 64 - 1) (unat ?w + min (hlc_max_clock_skew h) (2 ^ 64 - 1))"
    by (simp add: word_less_nat_alt unat_saturating_add unat_of_nat)
  moreover have "unat (physical r) \<le> 2 ^ 64 - 1"
    using unat_bound[of "physical r"] by simp
  ultimately have "unat (physical r) > unat ?w + hlc_max_clock_skew h"
    by (auto simp: min_def split: if_splits)
  then show ?thesis
    using Inl hlc_receive_Err[OF Inl] by simp
next
  case (Inr t)
  then show ?thesis
    using hlc_receive_greater[OF Inr assms] hlc_receive_Ok[OF Inr] by simp
qed

theorem hlc_receive_contract_witness:
  "hlc_current example_hlc < HybridTimestamp 70 5 \<and>
   fst (hlc_receive example_hlc (HybridTimestamp 70 4)) = Ok (HybridTimestamp 70 5)"
proof -
  have r: "fst (hlc_receive example_hlc (HybridTimestamp 70 4)) = Ok (HybridTimestamp 70 5)"
    by (simp add: example_hlc_def hlc_with_clock_def hlc_tick_def hlc_receive_def hlc_now_millis_def
        hlc_next_def checked_add_def saturating_add_def max_def Let_def)
  have "hlc_current example_hlc \<noteq> max_timestamp" "HybridTimestamp 70 4 \<noteq> max_timestamp"
    by (simp_all add: example_hlc_def hlc_with_clock_def max_timestamp_def)
  from hlc_receive_contract[OF this] r show ?thesis
    by simp
qed

end
