(* ===== verification/Swim.thy ===== *)
theory Swim
  imports Hlc "HOL-Library.AList" "HOL-Library.Product_Lexorder" "HOL-Library.Multiset"
begin

text \<open>
  The SWIM gossip engine (\<^verbatim>\<open>chirps-gossip-swim/src\<close>: \<^verbatim>\<open>types.rs\<close>, \<^verbatim>\<open>util.rs\<close>, \<^verbatim>\<open>engine.rs\<close>)
  with the \<^verbatim>\<open>hlc\<close> feature.  A \<^verbatim>\<open>HashMap\<close> is an association list in its iteration order, with
  distinct keys (\<open>engine_inv\<close>).  \<^verbatim>\<open>Instant::now()\<close> reads a sequence of instants
  (nanoseconds), as the HLC reads its clock.  The transport is the parameter
  \<open>net n target frame\<close>, whether the \<open>n\<close>-th send succeeds; every attempt is recorded in
  \<open>ge_sent\<close>.  The random choice of targets is the parameter \<open>pick n candidates k\<close>.
\<close>

section \<open>Types\<close>

datatype status = Alive | Suspect | Dead

fun status_of_member :: "member_status \<Rightarrow> status" where
  "status_of_member MAlive = Alive"
| "status_of_member MSuspect = Suspect"
| "status_of_member MDead = Dead"

fun to_member_status :: "status \<Rightarrow> member_status" where
  "to_member_status Alive = MAlive"
| "to_member_status Suspect = MSuspect"
| "to_member_status Dead = MDead"

fun status_rank :: "status \<Rightarrow> nat" where
  "status_rank Alive = 0"
| "status_rank Suspect = 1"
| "status_rank Dead = 2"

record peer_state =
  ps_incarnation :: u64
  ps_status :: status
  ps_last_seen :: nat
  ps_suspect_since :: "nat option"
  ps_event_id :: "hlc_event_id option"
  ps_timestamp :: "hybrid_timestamp option"

record peer =
  p_node_id :: node_id
  p_addr :: socket_addr
  p_state :: peer_state

definition peer_state_new :: "nat \<Rightarrow> u64 \<Rightarrow> status \<Rightarrow> peer_state" where
  "peer_state_new now inc st =
     \<lparr>ps_incarnation = inc, ps_status = st, ps_last_seen = now, ps_suspect_since = None,
      ps_event_id = None, ps_timestamp = None\<rparr>"

record status_change =
  sc_node_id :: node_id
  sc_from :: status
  sc_to :: status
  sc_incarnation :: u64

type_synonym peers = "(node_id \<times> peer) list"

datatype ping_stage = Direct nat | Indirect nat

record pending_ping =
  pp_target :: node_id
  pp_stage :: ping_stage

record gossip_config =
  gc_ping_timeout :: nat
  gc_indirect_ping_timeout :: nat
  gc_suspect_to_dead_timeout :: nat
  gc_fanout :: "nat option"

record gossip_engine =
  ge_node_id :: node_id
  ge_config :: gossip_config
  ge_peers :: peers
  ge_pending :: "(u64 \<times> pending_ping) list"
  ge_seq :: u64
  ge_m_sent :: u64
  ge_m_received :: u64
  ge_m_status_events :: u64
  ge_hlc :: local_hlc
  ge_event_sequence :: u64
  ge_seen_messages :: "hlc_event_id list"
  ge_seen_membership_events :: "hlc_event_id list"
  ge_latest :: "(node_id \<times> hybrid_timestamp) list"
  ge_instants :: "nat \<Rightarrow> nat"
  ge_instant_reads :: nat
  ge_sent :: "(node_id \<times> frame) list"

datatype gossip_error = Hlc hlc_error | InvalidHlcEnvelope string

section \<open>Fan-out and timeouts\<close>

text \<open>
  \<^verbatim>\<open>(n as f64).sqrt().ceil()\<close> is exact below \<open>2 ^ 52\<close> nodes: \<open>ceil_sqrt\<close> is the least number
  whose square is at least \<open>n\<close>.
\<close>

definition ceil_sqrt :: "nat \<Rightarrow> nat" where
  "ceil_sqrt n = hd (filter (\<lambda>k. n \<le> k * k) [0..<Suc n])"

definition calculate_fanout :: "nat \<Rightarrow> nat option \<Rightarrow> nat" where
  "calculate_fanout total_nodes configured =
     (if total_nodes \<le> 1 then 0
      else
        let cap = total_nodes - 1
        in case configured of
             Some fanout \<Rightarrow> min fanout cap
           | None \<Rightarrow> min (max 3 (ceil_sqrt total_nodes)) cap)"

text \<open>\<^verbatim>\<open>saturating_duration_since\<close> is subtraction of natural numbers.\<close>

definition timeout_peer ::
  "nat \<Rightarrow> nat \<Rightarrow> nat \<Rightarrow> node_id \<times> peer \<Rightarrow> (node_id \<times> peer) \<times> status_change list" where
  "timeout_peer now suspect_after dead_after entry =
     (let (nid, peer) = entry; st = p_state peer;
          change = (\<lambda>a b. \<lparr>sc_node_id = nid, sc_from = a, sc_to = b,
                            sc_incarnation = ps_incarnation st\<rparr>)
      in case ps_status st of
           Alive \<Rightarrow>
             if now - ps_last_seen st \<ge> suspect_after
             then ((nid, peer\<lparr>p_state := st\<lparr>ps_status := Suspect, ps_suspect_since := Some now\<rparr>\<rparr>),
                   [change Alive Suspect])
             else ((nid, peer), [])
         | Suspect \<Rightarrow>
             let suspect_started = (case ps_suspect_since st of Some t \<Rightarrow> t | None \<Rightarrow> ps_last_seen st)
             in if now - ps_last_seen st < suspect_after
                then ((nid, peer\<lparr>p_state := st\<lparr>ps_status := Alive, ps_suspect_since := None\<rparr>\<rparr>),
                      [change Suspect Alive])
                else if now - suspect_started \<ge> dead_after
                then ((nid, peer\<lparr>p_state := st\<lparr>ps_status := Dead\<rparr>\<rparr>), [change Suspect Dead])
                else ((nid, peer), [])
         | Dead \<Rightarrow> ((nid, peer), []))"

definition check_timeouts ::
  "peers \<Rightarrow> nat \<Rightarrow> nat \<Rightarrow> nat \<Rightarrow> peers \<times> status_change list" where
  "check_timeouts ps now suspect_after dead_after =
     (map (\<lambda>e. fst (timeout_peer now suspect_after dead_after e)) ps,
      concat (map (\<lambda>e. snd (timeout_peer now suspect_after dead_after e)) ps))"

section \<open>Engine operations\<close>

definition instant_now :: "gossip_engine \<Rightarrow> nat \<times> gossip_engine" where
  "instant_now g = (ge_instants g (ge_instant_reads g), g\<lparr>ge_instant_reads := Suc (ge_instant_reads g)\<rparr>)"

definition engine_send ::
  "(nat \<Rightarrow> node_id \<Rightarrow> frame \<Rightarrow> bool) \<Rightarrow> node_id \<Rightarrow> frame \<Rightarrow> gossip_engine \<Rightarrow> bool \<times> gossip_engine" where
  "engine_send net target f g =
     (net (length (ge_sent g)) target f, g\<lparr>ge_sent := ge_sent g @ [(target, f)]\<rparr>)"

definition next_event_id :: "gossip_engine \<Rightarrow> hlc_event_id \<times> gossip_engine" where
  "next_event_id g =
     (let s = ge_event_sequence g + 1; s' = (if s = 0 then 1 else s)
      in (\<lparr>ev_source = ge_node_id g, ev_sequence = s'\<rparr>, g\<lparr>ge_event_sequence := s'\<rparr>))"

definition stamp_membership_event :: "node_id \<Rightarrow> gossip_engine \<Rightarrow> gossip_engine" where
  "stamp_membership_event nid g0 =
     (let (ts, h) = hlc_tick (ge_hlc g0);
          (eid, g) = next_event_id (g0\<lparr>ge_hlc := h\<rparr>)
      in case map_of (ge_peers g) nid of
           None \<Rightarrow> g
         | Some peer \<Rightarrow>
             g\<lparr>ge_peers := AList.update nid
                   (peer\<lparr>p_state := (p_state peer)\<lparr>ps_timestamp := Some ts, ps_event_id := Some eid\<rparr>\<rparr>)
                   (ge_peers g),
               ge_latest := AList.update nid ts (ge_latest g)\<rparr>)"

definition ensure_membership_stamps :: "gossip_engine \<Rightarrow> gossip_engine" where
  "ensure_membership_stamps g =
     (let unstamped = map fst (filter (\<lambda>(_, peer). ps_timestamp (p_state peer) = None) (ge_peers g))
      in fold stamp_membership_event unstamped g)"

text \<open>
  \<^verbatim>\<open>or_insert_with\<close> creates a peer with its own reading of the clock; the caller then reads
  the clock again for \<^verbatim>\<open>last_seen\<close>.
\<close>

definition touch_peer :: "node_id \<Rightarrow> socket_addr \<Rightarrow> status \<Rightarrow> gossip_engine \<Rightarrow> gossip_engine" where
  "touch_peer nid addr st g =
     (let changed = (case map_of (ge_peers g) nid of
                       None \<Rightarrow> True | Some peer \<Rightarrow> ps_status (p_state peer) \<noteq> st);
          (entry, g1) = (case map_of (ge_peers g) nid of
                           Some peer \<Rightarrow> (peer, g)
                         | None \<Rightarrow>
                             let (now, g') = instant_now g
                             in (\<lparr>p_node_id = nid, p_addr = addr, p_state = peer_state_new now 0 st\<rparr>, g'));
          (now, g2) = instant_now g1;
          entry' = entry\<lparr>p_addr := addr,
                     p_state := (p_state entry)\<lparr>ps_status := st, ps_last_seen := now\<rparr>\<rparr>;
          g3 = g2\<lparr>ge_peers := AList.update nid entry' (ge_peers g2)\<rparr>
      in if changed then stamp_membership_event nid g3 else g3)"

definition handle_ping ::
  "(nat \<Rightarrow> node_id \<Rightarrow> frame \<Rightarrow> bool) \<Rightarrow> node_id \<Rightarrow> u64 \<Rightarrow> socket_addr \<Rightarrow> gossip_engine \<Rightarrow> gossip_engine" where
  "handle_ping net from seq addr g =
     (let g1 = touch_peer from addr Alive (g\<lparr>ge_m_received := ge_m_received g + 1\<rparr>);
          (ok, g2) = engine_send net from (Ack seq (ge_node_id g1)) g1
      in if ok then g2\<lparr>ge_m_sent := ge_m_sent g2 + 1\<rparr> else g2)"

definition handle_ack :: "node_id \<Rightarrow> u64 \<Rightarrow> socket_addr \<Rightarrow> gossip_engine \<Rightarrow> gossip_engine" where
  "handle_ack from seq addr g0 =
     (let g = g0\<lparr>ge_m_received := ge_m_received g0 + 1\<rparr>
      in case map_of (ge_peers g) from of
           Some peer \<Rightarrow>
             if ps_status (p_state peer) = Dead then g
             else
               let changed = (ps_status (p_state peer) \<noteq> Alive);
                   (now, g1) = instant_now g;
                   peer' = peer\<lparr>p_state := (p_state peer)\<lparr>ps_status := Alive, ps_last_seen := now,
                                                        ps_suspect_since := None\<rparr>\<rparr>;
                   g2 = g1\<lparr>ge_peers := AList.update from peer' (ge_peers g1)\<rparr>;
                   g3 = (if changed then stamp_membership_event from g2 else g2)
               in g3\<lparr>ge_pending := AList.delete seq (ge_pending g3)\<rparr>
         | None \<Rightarrow>
             let g1 = touch_peer from addr Alive g
             in g1\<lparr>ge_pending := AList.delete seq (ge_pending g1)\<rparr>)"

definition handle_ping_req ::
  "(nat \<Rightarrow> node_id \<Rightarrow> frame \<Rightarrow> bool) \<Rightarrow> node_id \<Rightarrow> u64 \<Rightarrow> node_id \<Rightarrow> socket_addr
     \<Rightarrow> gossip_engine \<Rightarrow> gossip_engine" where
  "handle_ping_req net from seq target addr g =
     (let g1 = touch_peer from addr Alive (g\<lparr>ge_m_received := ge_m_received g + 1\<rparr>);
          (ok, g2) = engine_send net target (Ping seq from) g1
      in if ok then g2\<lparr>ge_m_sent := ge_m_sent g2 + 1\<rparr> else g2)"

definition apply_one_membership_update ::
  "membership_update \<Rightarrow> gossip_engine \<Rightarrow> bool \<times> gossip_engine" where
  "apply_one_membership_update upd g0 =
     (let st = status_of_member (mu_status upd); (received_at, g) = instant_now g0
      in case map_of (ge_peers g) (mu_node_id upd) of
           None \<Rightarrow>
             let (now, g1) = instant_now g;
                 new_state = peer_state_new now (mu_incarnation upd) st;
                 new_state' = (if st = Suspect
                               then new_state\<lparr>ps_suspect_since := Some received_at\<rparr> else new_state)
             in (True, g1\<lparr>ge_peers := AList.update (mu_node_id upd)
                   \<lparr>p_node_id = mu_node_id upd, p_addr = mu_addr upd, p_state = new_state'\<rparr>
                   (ge_peers g1)\<rparr>)
         | Some entry \<Rightarrow>
             let es = p_state entry;
                 is_newer_incarnation = (mu_incarnation upd > ps_incarnation es);
                 has_stronger_status = (mu_incarnation upd = ps_incarnation es
                                        \<and> status_rank st > status_rank (ps_status es))
             in if \<not> is_newer_incarnation \<and> \<not> has_stronger_status then (False, g)
                else
                  let es1 = (if is_newer_incarnation
                             then es\<lparr>ps_incarnation := mu_incarnation upd, ps_last_seen := received_at\<rparr>
                             else es);
                      es2 = es1\<lparr>ps_status := st,
                                ps_suspect_since := (if st = Suspect then Some received_at else None)\<rparr>;
                      g1 = g\<lparr>ge_peers := AList.update (mu_node_id upd)
                               (entry\<lparr>p_addr := mu_addr upd, p_state := es2\<rparr>) (ge_peers g)\<rparr>
                  in (True, if ps_status es \<noteq> st
                            then g1\<lparr>ge_m_status_events := ge_m_status_events g1 + 1\<rparr> else g1))"

definition apply_membership_update ::
  "membership_update list \<Rightarrow> gossip_engine \<Rightarrow> gossip_engine" where
  "apply_membership_update updates g =
     fold (\<lambda>upd g. let (applied, g1) = apply_one_membership_update upd g
                    in if applied then stamp_membership_event (mu_node_id upd) g1 else g1)
       updates g"

text \<open>One iteration of the loop over the events of an envelope.\<close>

definition apply_stamped_update ::
  "stamped_membership_update \<Rightarrow> nat \<times> gossip_engine \<Rightarrow> nat \<times> gossip_engine" where
  "apply_stamped_update event acc =
     (let (applied, g) = acc; nid = mu_node_id (su_update event)
      in if su_event_id event \<in> set (ge_seen_membership_events g) then (applied, g)
         else
           let g1 = g\<lparr>ge_seen_membership_events :=
                        su_event_id event # ge_seen_membership_events g\<rparr>;
               is_stale = (case map_of (ge_latest g1) nid of
                             None \<Rightarrow> False | Some current \<Rightarrow> su_timestamp event \<le> current)
           in if is_stale then (applied, g1)
              else
                let g2 = g1\<lparr>ge_latest := AList.update nid (su_timestamp event) (ge_latest g1)\<rparr>;
                    (done, g3) = apply_one_membership_update (su_update event) g2
                in if done
                   then (applied + 1,
                         case map_of (ge_peers g3) nid of
                           None \<Rightarrow> g3
                         | Some peer \<Rightarrow>
                             g3\<lparr>ge_peers := AList.update nid
                                  (peer\<lparr>p_state := (p_state peer)\<lparr>ps_event_id := Some (su_event_id event),
                                                  ps_timestamp := Some (su_timestamp event)\<rparr>\<rparr>)
                                  (ge_peers g3)\<rparr>)
                   else (applied, g3))"

definition apply_hlc_gossip ::
  "hlc_gossip_message \<Rightarrow> gossip_engine \<Rightarrow> (gossip_error + nat) \<times> gossip_engine" where
  "apply_hlc_gossip message g =
     (if \<exists>event \<in> set (hg_updates message). su_timestamp event > hg_timestamp message
      then (Err (InvalidHlcEnvelope ''membership timestamp exceeds envelope timestamp''), g)
      else
        let (received, h) = hlc_receive (ge_hlc g) (hg_timestamp message);
            g1 = g\<lparr>ge_hlc := h\<rparr>
        in case received of
             Inl e \<Rightarrow> (Err (Hlc e), g1)
           | Inr _ \<Rightarrow>
               if hg_event_id message \<in> set (ge_seen_messages g1) then (Ok 0, g1)
               else
                 let g2 = g1\<lparr>ge_seen_messages := hg_event_id message # ge_seen_messages g1\<rparr>;
                     (applied, g3) = fold apply_stamped_update (hg_updates message) (0, g2)
                 in (Ok applied, g3))"

definition apply_timeouts :: "nat \<Rightarrow> gossip_engine \<Rightarrow> status_change list \<times> gossip_engine" where
  "apply_timeouts now g =
     (let (ps, changes) = check_timeouts (ge_peers g) now
            (gc_indirect_ping_timeout (ge_config g)) (gc_suspect_to_dead_timeout (ge_config g));
          g1 = g\<lparr>ge_peers := ps,
                 ge_m_status_events := ge_m_status_events g + of_nat (length changes)\<rparr>
      in (changes, fold (\<lambda>c. stamp_membership_event (sc_node_id c)) changes g1))"

definition select_targets ::
  "(nat \<Rightarrow> node_id list \<Rightarrow> nat \<Rightarrow> node_id list) \<Rightarrow> nat \<Rightarrow> gossip_engine \<Rightarrow> node_id list" where
  "select_targets pick n g =
     (let candidate_ids = map fst (filter (\<lambda>(_, peer). ps_status (p_state peer) \<noteq> Dead) (ge_peers g));
          total_nodes = length candidate_ids + 1
      in pick n candidate_ids (calculate_fanout total_nodes (gc_fanout (ge_config g))))"

definition select_indirect_targets ::
  "(nat \<Rightarrow> node_id list \<Rightarrow> nat \<Rightarrow> node_id list) \<Rightarrow> nat \<Rightarrow> node_id \<Rightarrow> gossip_engine \<Rightarrow> node_id list" where
  "select_indirect_targets pick n target g =
     (let candidates = map fst (filter (\<lambda>(nid, peer). nid \<noteq> target \<and> ps_status (p_state peer) \<noteq> Dead)
                                  (ge_peers g));
          total_nodes = length candidates + 1
      in pick n candidates (calculate_fanout total_nodes (gc_fanout (ge_config g))))"

definition gossip_update :: "node_id \<times> peer \<Rightarrow> stamped_membership_update option" where
  "gossip_update entry =
     (let peer = snd entry
      in case (ps_event_id (p_state peer), ps_timestamp (p_state peer)) of
           (Some eid, Some ts) \<Rightarrow>
             Some \<lparr>su_event_id = eid, su_timestamp = ts,
                   su_update = \<lparr>mu_node_id = p_node_id peer, mu_incarnation = ps_incarnation (p_state peer),
                     mu_addr = p_addr peer, mu_status = to_member_status (ps_status (p_state peer))\<rparr>\<rparr>
         | _ \<Rightarrow> None)"

text \<open>
  One iteration of the ping loop.  The two \<^verbatim>\<open>expect\<close>s on unstamped peers are the outcome
  \<^const>\<open>None\<close>.
\<close>

definition ping_target ::
  "(nat \<Rightarrow> node_id \<Rightarrow> frame \<Rightarrow> bool) \<Rightarrow> node_id \<Rightarrow> gossip_engine \<Rightarrow> gossip_engine option" where
  "ping_target net target g =
     (if \<exists>(_, pending) \<in> set (ge_pending g). pp_target pending = target then Some g
      else
        let seq = ge_seq g + 1;
            (sent_at, g1) = instant_now (g\<lparr>ge_seq := seq\<rparr>);
            (ok, g2) = engine_send net target (Ping seq (ge_node_id g1)) g1
        in if \<not> ok then Some g2
           else
             let g3 = g2\<lparr>ge_pending := AList.update seq \<lparr>pp_target = target, pp_stage = Direct sent_at\<rparr>
                           (ge_pending g2)\<rparr>;
                 g4 = ensure_membership_stamps g3;
                 updates = map gossip_update (ge_peers g4)
             in if None \<in> set updates then None
                else if updates = [] then Some g4
                else
                  let (timestamp, h) = hlc_tick (ge_hlc g4);
                      (event_id, g5) = next_event_id (g4\<lparr>ge_hlc := h\<rparr>);
                      (_, g6) = engine_send net target
                        (HlcGossip \<lparr>hg_event_id = event_id, hg_timestamp = timestamp,
                                    hg_updates = map the updates\<rparr>) g5
                  in Some g6)"

fun ping_targets ::
  "(nat \<Rightarrow> node_id \<Rightarrow> frame \<Rightarrow> bool) \<Rightarrow> node_id list \<Rightarrow> gossip_engine \<Rightarrow> gossip_engine option" where
  "ping_targets net [] g = Some g"
| "ping_targets net (t # ts) g =
     (case ping_target net t g of None \<Rightarrow> None | Some g' \<Rightarrow> ping_targets net ts g')"

definition send_pings ::
  "(nat \<Rightarrow> node_id \<Rightarrow> frame \<Rightarrow> bool) \<Rightarrow> (nat \<Rightarrow> node_id list \<Rightarrow> nat \<Rightarrow> node_id list)
     \<Rightarrow> gossip_engine \<Rightarrow> gossip_engine option" where
  "send_pings net pick g = ping_targets net (select_targets pick (length (ge_sent g)) g) g"

definition send_ping_req ::
  "(nat \<Rightarrow> node_id \<Rightarrow> frame \<Rightarrow> bool) \<Rightarrow> (nat \<Rightarrow> node_id list \<Rightarrow> nat \<Rightarrow> node_id list)
     \<Rightarrow> u64 \<times> node_id \<Rightarrow> gossip_engine \<Rightarrow> gossip_engine" where
  "send_ping_req net pick req g =
     (let (seq, target) = req
      in fold (\<lambda>helper g. snd (engine_send net helper (PingReq seq (ge_node_id g) target) g))
           (select_indirect_targets pick (length (ge_sent g)) target g) g)"

definition advance_pending ::
  "gossip_config \<Rightarrow> nat \<Rightarrow> u64 \<times> pending_ping \<Rightarrow> u64 \<times> pending_ping" where
  "advance_pending cfg now entry =
     (case entry of (seq, pending) \<Rightarrow>
        (seq, case pp_stage pending of
                Direct sent_at \<Rightarrow> if now - sent_at \<ge> gc_ping_timeout cfg
                                  then pending\<lparr>pp_stage := Indirect now\<rparr> else pending
              | Indirect _ \<Rightarrow> pending))"

definition needs_request :: "gossip_config \<Rightarrow> nat \<Rightarrow> u64 \<times> pending_ping \<Rightarrow> bool" where
  "needs_request cfg now entry =
     (case pp_stage (snd entry) of
        Direct sent_at \<Rightarrow> now - sent_at \<ge> gc_ping_timeout cfg | Indirect _ \<Rightarrow> False)"

definition needs_suspicion :: "gossip_config \<Rightarrow> nat \<Rightarrow> u64 \<times> pending_ping \<Rightarrow> bool" where
  "needs_suspicion cfg now entry =
     (case pp_stage (snd entry) of
        Direct _ \<Rightarrow> False | Indirect requested_at \<Rightarrow> now - requested_at \<ge> gc_indirect_ping_timeout cfg)"

definition suspect_target ::
  "nat \<Rightarrow> u64 \<times> node_id \<Rightarrow> status_change list \<times> gossip_engine \<Rightarrow> status_change list \<times> gossip_engine" where
  "suspect_target now req acc =
     (let (seq, target) = req; (changes, g) = acc;
          (changes', g1) =
            (case map_of (ge_peers g) target of
               None \<Rightarrow> (changes, g)
             | Some peer \<Rightarrow>
                 if ps_status (p_state peer) = Alive
                 then (changes @ [\<lparr>sc_node_id = target, sc_from = Alive, sc_to = Suspect,
                                   sc_incarnation = ps_incarnation (p_state peer)\<rparr>],
                       stamp_membership_event target
                         (g\<lparr>ge_peers := AList.update target
                              (peer\<lparr>p_state := (p_state peer)\<lparr>ps_status := Suspect,
                                                ps_suspect_since := Some now\<rparr>\<rparr>) (ge_peers g)\<rparr>))
                 else (changes, g))
      in (changes', g1\<lparr>ge_pending := AList.delete seq (ge_pending g1)\<rparr>))"

definition process_pending ::
  "(nat \<Rightarrow> node_id \<Rightarrow> frame \<Rightarrow> bool) \<Rightarrow> (nat \<Rightarrow> node_id list \<Rightarrow> nat \<Rightarrow> node_id list)
     \<Rightarrow> nat \<Rightarrow> gossip_engine \<Rightarrow> status_change list \<times> gossip_engine" where
  "process_pending net pick now g =
     (let cfg = ge_config g; entries = ge_pending g;
          to_request = map (\<lambda>(seq, p). (seq, pp_target p)) (filter (needs_request cfg now) entries);
          to_suspect = map (\<lambda>(seq, p). (seq, pp_target p)) (filter (needs_suspicion cfg now) entries);
          g1 = g\<lparr>ge_pending := map (advance_pending cfg now) entries\<rparr>;
          g2 = fold (send_ping_req net pick) to_request g1
      in fold (suspect_target now) to_suspect ([], g2))"

definition engine_tick ::
  "(nat \<Rightarrow> node_id \<Rightarrow> frame \<Rightarrow> bool) \<Rightarrow> (nat \<Rightarrow> node_id list \<Rightarrow> nat \<Rightarrow> node_id list)
     \<Rightarrow> gossip_engine \<Rightarrow> (status_change list \<times> gossip_engine) option" where
  "engine_tick net pick g0 =
     (let (now, g) = instant_now g0;
          (changes, g1) = process_pending net pick now g;
          (changes', g2) = apply_timeouts now g1
      in map_option (\<lambda>g3. (changes @ changes', g3)) (send_pings net pick g2))"

section \<open>Invariant\<close>

text \<open>
  Keys are distinct, every peer is filed under its own identity, a peer carries a timestamp
  exactly when it carries an event identity, and no peer is awaited by two pings at once.
\<close>

definition peer_ok :: "node_id \<times> peer \<Rightarrow> bool" where
  "peer_ok entry \<longleftrightarrow> p_node_id (snd entry) = fst entry \<and>
     (ps_timestamp (p_state (snd entry)) = None \<longleftrightarrow> ps_event_id (p_state (snd entry)) = None)"

definition peers_ok :: "peers \<Rightarrow> bool" where
  "peers_ok ps \<longleftrightarrow> distinct (map fst ps) \<and> list_all peer_ok ps"

definition pending_ok :: "(u64 \<times> pending_ping) list \<Rightarrow> bool" where
  "pending_ok pd \<longleftrightarrow> distinct (map fst pd) \<and> distinct (map (\<lambda>e. pp_target (snd e)) pd)"

definition engine_inv :: "gossip_engine \<Rightarrow> bool" where
  "engine_inv g \<longleftrightarrow> peers_ok (ge_peers g) \<and> pending_ok (ge_pending g)"

named_theorems engine_ops \<open>definitions of the primitive engine operations\<close>
declare instant_now_def [engine_ops] engine_send_def [engine_ops] next_event_id_def [engine_ops]

lemma set_AList_update_subset: "set (AList.update k v xs) \<subseteq> insert (k, v) (set xs)"
  by (induction xs) auto

lemma peers_ok_update [intro]:
  assumes "peers_ok ps" "peer_ok (k, v)"
  shows "peers_ok (AList.update k v ps)"
  using assms set_AList_update_subset[of k v ps]
  by (auto simp: peers_ok_def list_all_iff distinct_update)

lemma peers_ok_map_of:
  assumes "peers_ok ps" "map_of ps k = Some v"
  shows "peer_ok (k, v)"
  using assms(1) map_of_SomeD[OF assms(2)] unfolding peers_ok_def list_all_iff by blast

lemma pending_ok_delete [intro]: "pending_ok pd \<Longrightarrow> pending_ok (AList.delete s pd)"
  by (simp add: pending_ok_def AList.delete_eq distinct_map_filter)

lemma targets_AList_update_subset:
  "pp_target ` snd ` set (AList.update k v pd) \<subseteq> insert (pp_target v) (pp_target ` snd ` set pd)"
  by (induction pd) auto

lemma pending_ok_update [intro]:
  assumes "pending_ok pd" "pp_target v \<notin> pp_target ` snd ` set pd"
  shows "pending_ok (AList.update k v pd)"
proof -
  have "distinct (map (\<lambda>e. pp_target (snd e)) (AList.update k v pd))"
    using assms unfolding pending_ok_def
  proof (induction pd)
    case (Cons e pd)
    then show ?case
      using targets_AList_update_subset[of k v pd] by (cases e) (auto simp: image_image)
  qed simp
  then show ?thesis
    using assms by (simp add: pending_ok_def distinct_update)
qed

lemma pending_ok_advance [simp]: "pending_ok (map (advance_pending cfg now) pd) = pending_ok pd"
proof -
  have "fst (advance_pending cfg now e) = fst e"
    "pp_target (snd (advance_pending cfg now e)) = pp_target (snd e)" for e
    by (cases e; auto simp: advance_pending_def split: ping_stage.splits)+
  then show ?thesis
    by (simp add: pending_ok_def comp_def)
qed

subsection \<open>Preservation\<close>

lemma stamp_pending [simp]: "ge_pending (stamp_membership_event nid g) = ge_pending g"
  by (auto simp: stamp_membership_event_def engine_ops Let_def split: prod.splits option.splits)

lemma stamp_peers:
  "\<exists>ts eid. ge_peers (stamp_membership_event nid g) =
     (case map_of (ge_peers g) nid of None \<Rightarrow> ge_peers g
      | Some peer \<Rightarrow> AList.update nid
          (peer\<lparr>p_state := (p_state peer)\<lparr>ps_timestamp := Some ts, ps_event_id := Some eid\<rparr>\<rparr>) (ge_peers g))"
  by (auto simp: stamp_membership_event_def engine_ops Let_def split: prod.splits option.splits)

lemma stamp_inv [intro]:
  assumes "engine_inv g"
  shows "engine_inv (stamp_membership_event nid g)"
proof -
  obtain ts eid where "ge_peers (stamp_membership_event nid g) =
     (case map_of (ge_peers g) nid of None \<Rightarrow> ge_peers g
      | Some peer \<Rightarrow> AList.update nid
          (peer\<lparr>p_state := (p_state peer)\<lparr>ps_timestamp := Some ts, ps_event_id := Some eid\<rparr>\<rparr>) (ge_peers g))"
    using stamp_peers by blast
  then show ?thesis
    using assms peers_ok_map_of[of "ge_peers g" nid]
    by (auto simp: engine_inv_def peer_ok_def split: option.splits)
qed

lemma fold_stamp_inv:
  "engine_inv g \<Longrightarrow> engine_inv (fold stamp_membership_event ns g)"
  by (induction ns arbitrary: g) auto

lemma fold_stamp_pending [simp]:
  "ge_pending (fold stamp_membership_event ns g) = ge_pending g"
  by (induction ns arbitrary: g) auto

lemma if_stamp_inv:
  "engine_inv g \<Longrightarrow> engine_inv (if c then stamp_membership_event nid g else g)"
  by auto

lemma touch_peer_inv:
  assumes "engine_inv g"
  shows "engine_inv (touch_peer nid addr st g)"
proof (cases "map_of (ge_peers g) nid")
  case None
  have ok: "peer_ok (nid, \<lparr>p_node_id = nid, p_addr = addr, p_state = (peer_state_new t 0 st)
      \<lparr>ps_status := st, ps_last_seen := t'\<rparr>\<rparr>)" for t t'
    by (simp add: peer_ok_def peer_state_new_def)
  show ?thesis
    unfolding touch_peer_def using None assms ok
    by (simp add: Let_def instant_now_def del: stamp_pending)
      (rule stamp_inv, auto simp: engine_inv_def)
next
  case (Some peer)
  then have ok: "peer_ok (nid, peer\<lparr>p_addr := addr,
      p_state := (p_state peer)\<lparr>ps_status := st, ps_last_seen := t\<rparr>\<rparr>)" for t
    using assms peers_ok_map_of[of "ge_peers g" nid peer] by (simp add: engine_inv_def peer_ok_def)
  show ?thesis
    unfolding touch_peer_def Let_def instant_now_def Some option.case prod.case
    by (rule if_stamp_inv) (use assms ok in \<open>auto simp: engine_inv_def\<close>)
qed

lemma touch_peer_pending [simp]: "ge_pending (touch_peer nid addr st g) = ge_pending g"
  by (simp add: touch_peer_def Let_def engine_ops split: option.splits)

lemma engine_inv_simps [simp]:
  "engine_inv (g\<lparr>ge_m_received := x\<rparr>) = engine_inv g"
  "engine_inv (g\<lparr>ge_m_sent := x\<rparr>) = engine_inv g"
  "engine_inv (g\<lparr>ge_m_status_events := x\<rparr>) = engine_inv g"
  "engine_inv (g\<lparr>ge_hlc := h\<rparr>) = engine_inv g"
  "engine_inv (g\<lparr>ge_event_sequence := x\<rparr>) = engine_inv g"
  "engine_inv (g\<lparr>ge_seq := x\<rparr>) = engine_inv g"
  "engine_inv (g\<lparr>ge_instant_reads := n\<rparr>) = engine_inv g"
  "engine_inv (g\<lparr>ge_sent := s\<rparr>) = engine_inv g"
  "engine_inv (g\<lparr>ge_latest := l\<rparr>) = engine_inv g"
  "engine_inv (g\<lparr>ge_seen_messages := m\<rparr>) = engine_inv g"
  "engine_inv (g\<lparr>ge_seen_membership_events := m\<rparr>) = engine_inv g"
  by (simp_all add: engine_inv_def)

lemma handle_ping_inv:
  "engine_inv g \<Longrightarrow> engine_inv (handle_ping net from seq addr g)"
  by (simp add: handle_ping_def Let_def engine_ops touch_peer_inv)

lemma handle_ping_req_inv:
  "engine_inv g \<Longrightarrow> engine_inv (handle_ping_req net from seq target addr g)"
  by (simp add: handle_ping_req_def Let_def engine_ops touch_peer_inv)

lemma engine_inv_set_peer:
  assumes "engine_inv g" "peer_ok (nid, peer)"
  shows "engine_inv (g\<lparr>ge_peers := AList.update nid peer (ge_peers g)\<rparr>)"
  using assms by (auto simp: engine_inv_def)

lemma engine_inv_delete_pending:
  "engine_inv g \<Longrightarrow> engine_inv (g\<lparr>ge_pending := AList.delete s (ge_pending g)\<rparr>)"
  by (auto simp: engine_inv_def)

lemma engine_inv_peer: "engine_inv g \<Longrightarrow> map_of (ge_peers g) nid = Some p \<Longrightarrow> peer_ok (nid, p)"
  by (auto simp: engine_inv_def peers_ok_map_of)

lemma handle_ack_inv:
  assumes "engine_inv g"
  shows "engine_inv (handle_ack from seq addr g)"
proof (cases "map_of (ge_peers g) from")
  case None
  then show ?thesis
    using touch_peer_inv[of "g\<lparr>ge_m_received := ge_m_received g + 1\<rparr>" "from" addr Alive] assms
      engine_inv_delete_pending
    by (simp add: handle_ack_def Let_def del: touch_peer_pending)
next
  case (Some peer)
  then have ok: "peer_ok (from, peer\<lparr>p_state := (p_state peer)
      \<lparr>ps_status := Alive, ps_last_seen := t, ps_suspect_since := None\<rparr>\<rparr>)" for t
    using assms engine_inv_peer[of g "from" peer] by (simp add: peer_ok_def)
  have some: "map_of (ge_peers (g\<lparr>ge_m_received := ge_m_received g + 1\<rparr>)) from = Some peer"
    using Some by simp
  show ?thesis
  proof (cases "ps_status (p_state peer) = Dead")
    case True
    with some assms show ?thesis
      by (simp add: handle_ack_def)
  next
    case False
    show ?thesis
      unfolding handle_ack_def Let_def instant_now_def some option.case prod.case if_not_P[OF False]
      by (rule engine_inv_delete_pending, rule if_stamp_inv)
        (use assms ok in \<open>auto simp: engine_inv_def\<close>)
  qed
qed

lemma apply_one_inv:
  assumes "engine_inv g"
  shows "engine_inv (snd (apply_one_membership_update upd g))"
proof (cases "map_of (ge_peers g) (mu_node_id upd)")
  case None
  then show ?thesis
    using assms
    by (auto simp: apply_one_membership_update_def Let_def instant_now_def engine_inv_def
        peer_ok_def peer_state_new_def)
next
  case (Some entry)
  then have "p_node_id entry = mu_node_id upd"
    "ps_timestamp (p_state entry) = None \<longleftrightarrow> ps_event_id (p_state entry) = None"
    using assms engine_inv_peer[of g "mu_node_id upd" entry] by (simp_all add: peer_ok_def)
  then show ?thesis
    using assms Some
    by (auto simp: apply_one_membership_update_def Let_def instant_now_def engine_inv_def
        peer_ok_def intro!: peers_ok_update)
qed

lemma apply_membership_update_inv:
  "engine_inv g \<Longrightarrow> engine_inv (apply_membership_update ups g)"
proof (induction ups arbitrary: g)
  case (Cons u ups)
  have "engine_inv (let (applied, g1) = apply_one_membership_update u g
      in if applied then stamp_membership_event (mu_node_id u) g1 else g1)"
    using apply_one_inv[OF Cons.prems, of u] by (auto split: prod.splits)
  then show ?case
    using Cons.IH by (simp add: apply_membership_update_def)
qed (simp add: apply_membership_update_def)

lemma apply_stamped_update_inv:
  assumes "engine_inv g"
  shows "engine_inv (snd (apply_stamped_update ev (n, g)))"
proof -
  let ?nid = "mu_node_id (su_update ev)"
  let ?g2 = "g\<lparr>ge_seen_membership_events := su_event_id ev # ge_seen_membership_events g,
               ge_latest := AList.update ?nid (su_timestamp ev) (ge_latest g)\<rparr>"
  obtain b g3 where r: "apply_one_membership_update (su_update ev) ?g2 = (b, g3)"
    by fastforce
  have "engine_inv ?g2"
    using assms by (simp add: engine_inv_def)
  with r have g3: "engine_inv g3"
    using apply_one_inv[of ?g2 "su_update ev"] by simp
  have "engine_inv (case map_of (ge_peers g3) ?nid of None \<Rightarrow> g3
      | Some peer \<Rightarrow> g3\<lparr>ge_peers := AList.update ?nid
          (peer\<lparr>p_state := (p_state peer)\<lparr>ps_event_id := Some (su_event_id ev),
              ps_timestamp := Some (su_timestamp ev)\<rparr>\<rparr>) (ge_peers g3)\<rparr>)"
    using g3 engine_inv_peer[of g3 ?nid]
    by (auto simp: peer_ok_def intro!: engine_inv_set_peer split: option.split)
  with g3 r assms show ?thesis
    by (simp add: apply_stamped_update_def Let_def)
qed

lemma fold_stamped_inv:
  "engine_inv (snd acc) \<Longrightarrow> engine_inv (snd (fold apply_stamped_update evs acc))"
  by (rule fold_invariant[where Q = "\<lambda>_. True" and P = "\<lambda>acc. engine_inv (snd acc)"])
    (simp_all, metis apply_stamped_update_inv prod.collapse)

lemma apply_hlc_gossip_inv:
  assumes "engine_inv g"
  shows "engine_inv (snd (apply_hlc_gossip m g))"
proof -
  obtain r h where rh: "hlc_receive (ge_hlc g) (hg_timestamp m) = (r, h)"
    by fastforce
  have "engine_inv (snd (fold apply_stamped_update (hg_updates m)
     (0, g\<lparr>ge_hlc := h, ge_seen_messages := hg_event_id m # ge_seen_messages g\<rparr>)))"
    by (rule fold_stamped_inv) (use assms in \<open>simp add: engine_inv_def\<close>)
  then show ?thesis
    using assms by (simp add: apply_hlc_gossip_def rh Let_def case_prod_unfold split: sum.split)
qed

lemma timeout_peer_parts:
  "fst (fst (timeout_peer now sa da e)) = fst e"
  "peer_ok (fst (timeout_peer now sa da e)) = peer_ok e"
  by (cases e; auto simp: timeout_peer_def Let_def peer_ok_def split: status.splits)+

lemma peers_ok_check_timeouts [simp]:
  "peers_ok (fst (check_timeouts ps now sa da)) = peers_ok ps"
  by (simp add: peers_ok_def check_timeouts_def comp_def timeout_peer_parts list_all_iff)

lemma fold_stamp_changes:
  "fold (\<lambda>c. stamp_membership_event (sc_node_id c)) cs g = fold stamp_membership_event (map sc_node_id cs) g"
  by (simp add: fold_map comp_def)

lemma apply_timeouts_inv:
  assumes "engine_inv g"
  shows "engine_inv (snd (apply_timeouts now g))"
proof -
  let ?t = "check_timeouts (ge_peers g) now (gc_indirect_ping_timeout (ge_config g))
    (gc_suspect_to_dead_timeout (ge_config g))"
  have "engine_inv (g\<lparr>ge_peers := fst ?t, ge_m_status_events := x\<rparr>)" for x
    using assms by (simp add: engine_inv_def)
  then show ?thesis
    unfolding apply_timeouts_def Let_def fold_stamp_changes
    by (simp add: case_prod_unfold fold_stamp_inv)
qed

lemma engine_send_inv [simp]: "engine_inv (snd (engine_send net t f g)) = engine_inv g"
  by (simp add: engine_send_def)

lemma send_ping_req_inv:
  assumes "engine_inv g"
  shows "engine_inv (send_ping_req net pick req g)"
proof -
  have "engine_inv (fold (\<lambda>h g. snd (engine_send net h (PingReq s (ge_node_id g) t) g)) hs g)"
    if "engine_inv g" for hs s t g
    using that by (induction hs arbitrary: g) auto
  then show ?thesis
    using assms by (simp add: send_ping_req_def split: prod.split)
qed

lemma fold_send_ping_req_inv:
  "engine_inv g \<Longrightarrow> engine_inv (fold (send_ping_req net pick) reqs g)"
  by (induction reqs arbitrary: g) (auto simp: send_ping_req_inv)

lemma suspect_target_inv:
  assumes "engine_inv g"
  shows "engine_inv (snd (suspect_target now req (cs, g)))"
proof (cases "map_of (ge_peers g) (snd req)")
  case None
  then show ?thesis
    using assms by (simp add: suspect_target_def Let_def engine_inv_delete_pending case_prod_unfold)
next
  case (Some peer)
  let ?g = "g\<lparr>ge_peers := AList.update (snd req) (peer\<lparr>p_state := (p_state peer)\<lparr>ps_status := Suspect,
      ps_suspect_since := Some now\<rparr>\<rparr>) (ge_peers g)\<rparr>"
  have "engine_inv ?g"
    using assms Some engine_inv_peer[of g "snd req" peer]
    by (auto intro!: engine_inv_set_peer simp: peer_ok_def)
  then have "engine_inv (stamp_membership_event (snd req) ?g)"
    by (rule stamp_inv)
  then show ?thesis
    using assms Some engine_inv_delete_pending[of _ "fst req"]
    by (auto simp: suspect_target_def Let_def case_prod_unfold simp del: stamp_pending)
qed

lemma fold_suspect_target_inv:
  "engine_inv (snd acc) \<Longrightarrow> engine_inv (snd (fold (suspect_target now) reqs acc))"
  by (rule fold_invariant[where Q = "\<lambda>_. True" and P = "\<lambda>acc. engine_inv (snd acc)"])
    (simp_all, metis suspect_target_inv prod.collapse)

lemma process_pending_inv:
  assumes "engine_inv g"
  shows "engine_inv (snd (process_pending net pick now g))"
proof -
  have "engine_inv (g\<lparr>ge_pending := map (advance_pending (ge_config g) now) (ge_pending g)\<rparr>)"
    using assms by (simp add: engine_inv_def)
  then show ?thesis
    unfolding process_pending_def Let_def
    by (intro fold_suspect_target_inv) (simp add: fold_send_ping_req_inv)
qed

subsection \<open>Outgoing gossip is always stamped\<close>

definition unstamped :: "gossip_engine \<Rightarrow> node_id set" where
  "unstamped g = {k. \<exists>p. map_of (ge_peers g) k = Some p \<and> ps_timestamp (p_state p) = None}"

lemma unstamped_stamp: "unstamped (stamp_membership_event nid g) = unstamped g - {nid}"
proof -
  obtain ts eid where st: "ge_peers (stamp_membership_event nid g) =
     (case map_of (ge_peers g) nid of None \<Rightarrow> ge_peers g
      | Some peer \<Rightarrow> AList.update nid
          (peer\<lparr>p_state := (p_state peer)\<lparr>ps_timestamp := Some ts, ps_event_id := Some eid\<rparr>\<rparr>) (ge_peers g))"
    using stamp_peers by blast
  show ?thesis
    unfolding unstamped_def st
    by (cases "map_of (ge_peers g) nid") (auto simp: update_conv')
qed

lemma unstamped_fold_stamp: "unstamped (fold stamp_membership_event ns g) = unstamped g - set ns"
  by (induction ns arbitrary: g) (auto simp: unstamped_stamp)

lemma unstamped_ensure:
  assumes "engine_inv g"
  shows "unstamped (ensure_membership_stamps g) = {}"
proof -
  have "unstamped g \<subseteq> set (map fst (filter (\<lambda>(_, peer). ps_timestamp (p_state peer) = None) (ge_peers g)))"
    unfolding unstamped_def using map_of_SomeD by force
  then show ?thesis
    by (simp add: ensure_membership_stamps_def unstamped_fold_stamp)
qed

lemma gossip_update_stamped:
  assumes "engine_inv g" "unstamped g = {}"
  shows "None \<notin> set (map gossip_update (ge_peers g))"
proof
  assume "None \<in> set (map gossip_update (ge_peers g))"
  then obtain nid p where p: "(nid, p) \<in> set (ge_peers g)" "gossip_update (nid, p) = None"
    by auto
  then have m: "map_of (ge_peers g) nid = Some p"
    using assms(1) by (simp add: engine_inv_def peers_ok_def)
  then have "peer_ok (nid, p)"
    by (rule engine_inv_peer[OF assms(1)])
  moreover have "nid \<notin> unstamped g"
    using assms(2) by simp
  then have "ps_timestamp (p_state p) \<noteq> None"
    using m by (simp add: unstamped_def)
  ultimately show False
    using p(2) by (auto simp: gossip_update_def peer_ok_def split: option.splits)
qed

lemma ensure_inv: "engine_inv g \<Longrightarrow> engine_inv (ensure_membership_stamps g)"
  by (simp add: ensure_membership_stamps_def fold_stamp_inv)

lemma next_event_id_inv [simp]: "engine_inv (snd (next_event_id g)) = engine_inv g"
  by (simp add: next_event_id_def Let_def)

lemma ping_target_inv:
  assumes "engine_inv g"
  obtains g' where "ping_target net target g = Some g'" "engine_inv g'"
proof (cases "\<exists>(_, pending) \<in> set (ge_pending g). pp_target pending = target")
  case True
  then show ?thesis
    using assms that[of g] by (simp add: ping_target_def)
next
  case False
  define g2 where "g2 = snd (engine_send net target (Ping (ge_seq g + 1) (ge_node_id g))
    (snd (instant_now (g\<lparr>ge_seq := ge_seq g + 1\<rparr>))))"
  define g3 where "g3 = g2\<lparr>ge_pending := AList.update (ge_seq g + 1)
    \<lparr>pp_target = target, pp_stage = Direct (fst (instant_now (g\<lparr>ge_seq := ge_seq g + 1\<rparr>)))\<rparr> (ge_pending g2)\<rparr>"
  let ?g4 = "ensure_membership_stamps g3"
  have g2: "engine_inv g2" "ge_pending g2 = ge_pending g"
    using assms by (simp_all add: g2_def engine_ops)
  have "target \<notin> pp_target ` snd ` set (ge_pending g)"
    using False by force
  then have "engine_inv g3"
    using g2 pending_ok_update[of "ge_pending g"] by (simp add: g3_def engine_inv_def)
  then have g4: "engine_inv ?g4" "None \<notin> set (map gossip_update (ge_peers ?g4))"
    using ensure_inv gossip_update_stamped unstamped_ensure by blast+
  have "\<exists>g'. ping_target net target g = Some g' \<and> engine_inv g'"
    using False g2 g4
    unfolding ping_target_def Let_def g2_def g3_def
    by (simp add: instant_now_def engine_send_def case_prod_unfold)
  then show ?thesis
    using that by blast
qed

lemma ping_targets_inv:
  "engine_inv g \<Longrightarrow> \<exists>g'. ping_targets net ts g = Some g' \<and> engine_inv g'"
proof (induction ts arbitrary: g)
  case (Cons t ts)
  obtain g1 where "ping_target net t g = Some g1" "engine_inv g1"
    using ping_target_inv[OF Cons.prems] by blast
  then show ?case
    using Cons.IH by simp
qed simp

lemma engine_tick_inv:
  assumes "engine_inv g"
  shows "\<exists>cs g'. engine_tick net pick g = Some (cs, g') \<and> engine_inv g'"
proof -
  let ?now = "fst (instant_now g)"
  let ?g1 = "snd (process_pending net pick ?now (snd (instant_now g)))"
  let ?g2 = "snd (apply_timeouts ?now ?g1)"
  have "engine_inv (snd (instant_now g))"
    using assms by (simp add: engine_ops)
  then have "engine_inv ?g2"
    using process_pending_inv apply_timeouts_inv by blast
  then show ?thesis
    using ping_targets_inv[of ?g2]
    by (auto simp: engine_tick_def Let_def case_prod_unfold send_pings_def)
qed

section \<open>Convergence of membership gossip\<close>

text \<open>
  What gossip orders: the incarnation first, then the strength of the status.  An update is
  merged by taking the larger of the two keys, and nothing else.
\<close>

type_synonym member_key = "nat \<times> nat"

definition peer_key :: "peer \<Rightarrow> member_key" where
  "peer_key p = (unat (ps_incarnation (p_state p)), status_rank (ps_status (p_state p)))"

definition update_key :: "membership_update \<Rightarrow> member_key" where
  "update_key u = (unat (mu_incarnation u), status_rank (status_of_member (mu_status u)))"

definition view_key :: "gossip_engine \<Rightarrow> node_id \<Rightarrow> member_key option" where
  "view_key g nid = map_option peer_key (map_of (ge_peers g) nid)"

definition merge_key :: "member_key option \<Rightarrow> member_key \<Rightarrow> member_key option" where
  "merge_key acc k = Some (case acc of None \<Rightarrow> k | Some k' \<Rightarrow> max k' k)"

definition merge_update :: "node_id \<Rightarrow> membership_update \<Rightarrow> member_key option \<Rightarrow> member_key option" where
  "merge_update nid u acc = (if mu_node_id u = nid then merge_key acc (update_key u) else acc)"

lemma merge_update_commute: "merge_update n u \<circ> merge_update n v = merge_update n v \<circ> merge_update n u"
  by (rule ext) (auto simp: merge_update_def merge_key_def max.assoc max.commute max.left_commute
      split: option.splits)

lemma view_key_stamp [simp]: "view_key (stamp_membership_event nid g) = view_key g"
proof -
  obtain ts eid where st: "ge_peers (stamp_membership_event nid g) =
     (case map_of (ge_peers g) nid of None \<Rightarrow> ge_peers g
      | Some peer \<Rightarrow> AList.update nid
          (peer\<lparr>p_state := (p_state peer)\<lparr>ps_timestamp := Some ts, ps_event_id := Some eid\<rparr>\<rparr>) (ge_peers g))"
    using stamp_peers by blast
  show ?thesis
    unfolding view_key_def st
    by (rule ext) (auto simp: update_conv' peer_key_def split: option.split)
qed

lemma view_key_apply_one:
  "view_key (snd (apply_one_membership_update u g)) nid = merge_update nid u (view_key g nid)"
proof (cases "map_of (ge_peers g) (mu_node_id u)")
  case None
  then show ?thesis
    by (auto simp: apply_one_membership_update_def Let_def instant_now_def view_key_def merge_update_def
        merge_key_def update_conv' peer_key_def update_key_def peer_state_new_def)
next
  case (Some e)
  let ?newer = "mu_incarnation u > ps_incarnation (p_state e) \<or>
    mu_incarnation u = ps_incarnation (p_state e) \<and>
    status_rank (status_of_member (mu_status u)) > status_rank (ps_status (p_state e))"
  have max: "max (peer_key e) (update_key u) = (if ?newer then update_key u else peer_key e)"
    by (auto simp: max_def peer_key_def update_key_def word_less_nat_alt word_unat_eq_iff
        word_le_nat_alt less_eq_prod_def)
  show ?thesis
    using Some max
    by (auto simp: apply_one_membership_update_def Let_def instant_now_def view_key_def merge_update_def
        merge_key_def update_conv' peer_key_def update_key_def)
qed

lemma view_key_apply_membership_update:
  "view_key (apply_membership_update ups g) nid = fold (merge_update nid) ups (view_key g nid)"
proof (induction ups arbitrary: g)
  case (Cons u ups)
  have "view_key (let (applied, g1) = apply_one_membership_update u g
      in if applied then stamp_membership_event (mu_node_id u) g1 else g1) nid =
      merge_update nid u (view_key g nid)"
    using view_key_apply_one[of u g nid] by (simp add: case_prod_unfold Let_def)
  then show ?case
    using Cons.IH by (simp add: apply_membership_update_def)
qed (simp add: apply_membership_update_def)

lemma merge_update_perm:
  assumes "mset us = mset vs"
  shows "fold (merge_update nid) us = fold (merge_update nid) vs"
  by (rule fold_multiset_equiv[OF _ assms]) (rule merge_update_commute)

lemma status_of_key: "status_rank a = status_rank b \<longleftrightarrow> a = b"
  by (cases a; cases b) auto

section \<open>Duplicate envelopes\<close>

lemma apply_one_seen [simp]:
  "ge_seen_messages (snd (apply_one_membership_update u g)) = ge_seen_messages g"
  by (auto simp: apply_one_membership_update_def Let_def instant_now_def split: option.splits)

lemma apply_stamped_seen:
  "ge_seen_messages (snd (apply_stamped_update ev acc)) = ge_seen_messages (snd acc)"
proof -
  have "ge_seen_messages (snd (apply_stamped_update ev (n, g))) = ge_seen_messages g" for n g
    using apply_one_seen[of "su_update ev"
        "g\<lparr>ge_seen_membership_events := su_event_id ev # ge_seen_membership_events g,
           ge_latest := AList.update (mu_node_id (su_update ev)) (su_timestamp ev) (ge_latest g)\<rparr>"]
    by (auto simp: apply_stamped_update_def Let_def case_prod_unfold split: option.splits)
  then show ?thesis
    by (cases acc) simp
qed

lemma fold_stamped_seen:
  "ge_seen_messages (snd (fold apply_stamped_update evs acc)) = ge_seen_messages (snd acc)"
  by (induction evs arbitrary: acc) (simp_all add: apply_stamped_seen)

lemma apply_hlc_gossip_seen:
  assumes "fst (apply_hlc_gossip m g) = Ok n"
  shows "hg_event_id m \<in> set (ge_seen_messages (snd (apply_hlc_gossip m g)))"
  using assms by (auto simp: apply_hlc_gossip_def Let_def case_prod_unfold fold_stamped_seen
      split: if_splits sum.splits)

section \<open>Timeouts\<close>

text \<open>The only status changes a timeout makes.\<close>

fun legal_transition :: "status \<Rightarrow> status \<Rightarrow> bool" where
  "legal_transition Alive Suspect = True"
| "legal_transition Suspect Alive = True"
| "legal_transition Suspect Dead = True"
| "legal_transition a b = False"

definition observed_change :: "node_id \<times> peer \<Rightarrow> node_id \<times> peer \<Rightarrow> status_change list" where
  "observed_change e e' =
     (if ps_status (p_state (snd e)) = ps_status (p_state (snd e')) then []
      else [\<lparr>sc_node_id = fst e, sc_from = ps_status (p_state (snd e)),
             sc_to = ps_status (p_state (snd e')), sc_incarnation = ps_incarnation (p_state (snd e))\<rparr>])"

lemma timeout_peer_report:
  "snd (timeout_peer now sa da e) = observed_change e (fst (timeout_peer now sa da e))"
  by (cases e) (auto simp: timeout_peer_def observed_change_def Let_def split: status.splits)

lemma timeout_peer_legal:
  assumes "c \<in> set (snd (timeout_peer now sa da e))"
  shows "legal_transition (sc_from c) (sc_to c)"
  using assms by (cases e) (auto simp: timeout_peer_def Let_def split: status.splits if_splits)

lemma timeout_peer_silent:
  assumes "ps_status (p_state p) = Alive" "ps_last_seen (p_state p) + sa \<le> t"
    and "t + da \<le> t'" "0 < sa"
  shows "ps_status (p_state (snd (fst (timeout_peer t' sa da (fst (timeout_peer t sa da (nid, p))))))) = Dead"
  using assms by (auto simp: timeout_peer_def Let_def)

section \<open>Executions\<close>

text \<open>Everything the mesh does with an engine: the handlers of incoming frames and the periodic tick.\<close>

datatype swim_input =
    InPing node_id u64 socket_addr
  | InAck node_id u64 socket_addr
  | InPingReq node_id u64 node_id socket_addr
  | InGossip "membership_update list"
  | InHlcGossip hlc_gossip_message

fun engine_handle ::
  "(nat \<Rightarrow> node_id \<Rightarrow> frame \<Rightarrow> bool) \<Rightarrow> swim_input \<Rightarrow> gossip_engine \<Rightarrow> gossip_engine" where
  "engine_handle net (InPing from seq addr) g = handle_ping net from seq addr g"
| "engine_handle net (InAck from seq addr) g = handle_ack from seq addr g"
| "engine_handle net (InPingReq from seq target addr) g = handle_ping_req net from seq target addr g"
| "engine_handle net (InGossip ups) g = apply_membership_update ups g"
| "engine_handle net (InHlcGossip m) g = snd (apply_hlc_gossip m g)"

inductive swim_reach ::
  "(nat \<Rightarrow> node_id \<Rightarrow> frame \<Rightarrow> bool) \<Rightarrow> (nat \<Rightarrow> node_id list \<Rightarrow> nat \<Rightarrow> node_id list)
     \<Rightarrow> gossip_engine \<Rightarrow> gossip_engine \<Rightarrow> bool"
  for net pick g0 where
  start: "swim_reach net pick g0 g0"
| handle: "swim_reach net pick g0 g \<Longrightarrow> swim_reach net pick g0 (engine_handle net i g)"
| tick: "swim_reach net pick g0 g \<Longrightarrow> engine_tick net pick g = Some (cs, g')
    \<Longrightarrow> swim_reach net pick g0 g'"

inductive_cases swim_reachE: "swim_reach net pick g0 g"

lemma engine_handle_inv: "engine_inv g \<Longrightarrow> engine_inv (engine_handle net i g)"
  by (cases i) (simp_all add: handle_ping_inv handle_ack_inv handle_ping_req_inv
      apply_membership_update_inv apply_hlc_gossip_inv)

lemma swim_reach_inv:
  assumes "swim_reach net pick g0 g" "engine_inv g0"
  shows "engine_inv g"
  using assms
proof (induction rule: swim_reach.induct)
  case (tick g cs g')
  then show ?case
    using engine_tick_inv[of g net pick] by auto
qed (auto intro: engine_handle_inv)

definition engine_new :: "node_id \<Rightarrow> gossip_config \<Rightarrow> (nat \<Rightarrow> nat) \<Rightarrow> (nat \<Rightarrow> u64) \<Rightarrow> gossip_engine" where
  "engine_new nid cfg instants clock =
     \<lparr>ge_node_id = nid, ge_config = cfg, ge_peers = [], ge_pending = [], ge_seq = 0,
      ge_m_sent = 0, ge_m_received = 0, ge_m_status_events = 0,
      ge_hlc = hlc_with_clock 1000 clock, ge_event_sequence = 0, ge_seen_messages = [],
      ge_seen_membership_events = [], ge_latest = [], ge_instants = instants,
      ge_instant_reads = 0, ge_sent = []\<rparr>"

lemma engine_new_inv: "engine_inv (engine_new nid cfg instants clock)"
  by (simp add: engine_new_def engine_inv_def peers_ok_def pending_ok_def)

section \<open>Properties\<close>

text \<open>
  (C4) Gossip converges: two engines with the same view of who is in which incarnation and
  status, fed the same updates in any two orders, end with the same view, and that view is for
  every node the largest (incarnation, status strength) among what it knew and was told.
\<close>

theorem membership_gossip_converges:
  assumes "mset us = mset vs" "view_key g = view_key g'"
  shows "view_key (apply_membership_update us g) = view_key (apply_membership_update vs g')
    \<and> view_key (apply_membership_update us g) nid = fold (merge_update nid) us (view_key g nid)"
  using assms merge_update_perm[OF assms(1)]
  by (auto simp: view_key_apply_membership_update fun_eq_iff)

definition example_engine :: gossip_engine where
  "example_engine = engine_new (NodeId [1])
     \<lparr>gc_ping_timeout = 10, gc_indirect_ping_timeout = 20, gc_suspect_to_dead_timeout = 30,
      gc_fanout = Some 2\<rparr> (\<lambda>n. n) (\<lambda>n. 5)"

definition example_update :: "u64 \<Rightarrow> member_status \<Rightarrow> membership_update" where
  "example_update inc st =
     \<lparr>mu_node_id = NodeId [2], mu_incarnation = inc, mu_addr = SocketAddr [] 1, mu_status = st\<rparr>"

theorem membership_gossip_converges_witness:
  "view_key (apply_membership_update [example_update 1 MDead, example_update 2 MAlive] example_engine)
     = view_key (apply_membership_update [example_update 2 MAlive, example_update 1 MDead] example_engine)
   \<and> view_key (apply_membership_update [example_update 1 MDead, example_update 2 MAlive] example_engine)
       (NodeId [2]) = Some (2, 0)"
proof -
  have "mset [example_update 1 MDead, example_update 2 MAlive]
      = mset [example_update 2 MAlive, example_update 1 MDead]"
    by simp
  note conv = membership_gossip_converges[OF this, of example_engine example_engine "NodeId [2]", OF refl]
  have "view_key example_engine (NodeId [2]) = None"
    by (simp add: view_key_def example_engine_def engine_new_def)
  then have v: "fold (merge_update (NodeId [2])) [example_update 1 MDead, example_update 2 MAlive]
      (view_key example_engine (NodeId [2])) = Some (2, 0)"
    by (simp add: merge_update_def merge_key_def example_update_def update_key_def max_def)
  show ?thesis
    using conv unfolding v .
qed



text \<open>
  An envelope delivered twice is applied once: after it has been accepted, delivering it
  again leaves every peer entry untouched, whatever the physical clock does in between.
\<close>

theorem duplicate_envelope_is_ignored:
  assumes "fst (apply_hlc_gossip m g) = Ok n"
  defines "g' \<equiv> snd (apply_hlc_gossip m g)"
  shows "ge_peers (snd (apply_hlc_gossip m g')) = ge_peers g'
    \<and> ge_latest (snd (apply_hlc_gossip m g')) = ge_latest g'
    \<and> (case fst (apply_hlc_gossip m g') of Inr k \<Rightarrow> k = 0 | Inl e \<Rightarrow> \<exists>s. e = Hlc s)"
  using apply_hlc_gossip_seen[OF assms(1)] assms(1) unfolding g'_def
  by (auto simp: apply_hlc_gossip_def[of m "snd (apply_hlc_gossip m g)"] Let_def case_prod_unfold
      split: sum.splits) (auto simp: apply_hlc_gossip_def split: if_splits)

definition example_envelope :: hlc_gossip_message where
  "example_envelope =
     \<lparr>hg_event_id = \<lparr>ev_source = NodeId [3], ev_sequence = 1\<rparr>, hg_timestamp = HybridTimestamp 6 0,
      hg_updates = [\<lparr>su_event_id = \<lparr>ev_source = NodeId [3], ev_sequence = 2\<rparr>,
        su_timestamp = HybridTimestamp 5 0, su_update = example_update 1 MSuspect\<rparr>]\<rparr>"

lemmas swim_eval = example_engine_def engine_new_def example_envelope_def example_update_def
  apply_hlc_gossip_def apply_stamped_update_def apply_one_membership_update_def hlc_receive_def
  hlc_now_millis_def hlc_with_clock_def instant_now_def peer_state_new_def saturating_add_def
  less_hybrid_timestamp_def Let_def

theorem duplicate_envelope_is_ignored_witness:
  "fst (apply_hlc_gossip example_envelope example_engine) = Ok 1 \<and>
   (let g = snd (apply_hlc_gossip example_envelope example_engine)
    in ge_peers (snd (apply_hlc_gossip example_envelope g)) = ge_peers g)"
proof -
  have "fst (apply_hlc_gossip example_envelope example_engine) = Ok 1"
    by (simp add: swim_eval)
  with duplicate_envelope_is_ignored[OF this] show ?thesis
    by simp
qed

text \<open>
  The timeout sweep reports exactly the peers whose status it changed, in order, with the
  statuses before and after and the incarnation, and every change is Alive to Suspect, Suspect to
  Alive or Suspect to Dead; keys are untouched.
\<close>

theorem check_timeouts_reports_changes:
  "case check_timeouts ps now sa da of (ps', changes) \<Rightarrow>
     map fst ps' = map fst ps \<and>
     changes = concat (map2 observed_change ps ps') \<and>
     list_all (\<lambda>c. legal_transition (sc_from c) (sc_to c)) changes"
proof -
  have "concat (map (\<lambda>e. snd (timeout_peer now sa da e)) ps) =
      concat (map2 observed_change ps (map (\<lambda>e. fst (timeout_peer now sa da e)) ps))"
    by (induction ps) (simp_all add: timeout_peer_report)
  moreover have "list_all (\<lambda>c. legal_transition (sc_from c) (sc_to c))
      (concat (map (\<lambda>e. snd (timeout_peer now sa da e)) ps))"
    using timeout_peer_legal by (auto simp: list_all_iff)
  ultimately show ?thesis
    by (simp add: check_timeouts_def comp_def timeout_peer_parts)
qed

text \<open>
  (C22) Failure detection completes: a peer that stays silent is declared dead by two sweeps, the
  first at least the suspicion timeout after it was last seen, the second at least the death
  timeout later.
\<close>

theorem silent_peer_is_declared_dead:
  assumes "map_of ps nid = Some p" "distinct (map fst ps)"
    and "ps_status (p_state p) = Alive" "ps_last_seen (p_state p) + sa \<le> t" "t + da \<le> t'" "0 < sa"
  shows "\<exists>p'. map_of (fst (check_timeouts (fst (check_timeouts ps t sa da)) t' sa da)) nid = Some p'
    \<and> ps_status (p_state p') = Dead"
proof -
  let ?f = "\<lambda>e. fst (timeout_peer t' sa da (fst (timeout_peer t sa da e)))"
  have "?f (nid, p) \<in> set (map ?f ps)"
    using map_of_SomeD[OF assms(1)] by auto
  moreover have "fst (?f (nid, p)) = nid"
    by (simp add: timeout_peer_parts)
  moreover have "distinct (map fst (map ?f ps))"
    using assms(2) by (simp add: comp_def timeout_peer_parts)
  ultimately have "map_of (map ?f ps) nid = Some (snd (?f (nid, p)))"
    by (metis map_of_is_SomeI prod.collapse)
  then show ?thesis
    using timeout_peer_silent[OF assms(3-6), of nid] by (simp add: check_timeouts_def comp_def)
qed

definition example_peers :: peers where
  "example_peers = [(NodeId [2], \<lparr>p_node_id = NodeId [2], p_addr = SocketAddr [] 1,
     p_state = peer_state_new 100 0 Alive\<rparr>)]"

theorem silent_peer_is_declared_dead_witness:
  "\<exists>p'. map_of (fst (check_timeouts (fst (check_timeouts example_peers 150 20 30)) 180 20 30)) (NodeId [2])
     = Some p' \<and> ps_status (p_state p') = Dead"
  by (rule silent_peer_is_declared_dead[where p = "\<lparr>p_node_id = NodeId [2], p_addr = SocketAddr [] 1,
     p_state = peer_state_new 100 0 Alive\<rparr>"]) (simp_all add: example_peers_def peer_state_new_def)

end
