(* ===== verification/Wal_Durability.thy ===== *)
theory Wal_Durability
  imports Chirps_Prelude
begin

text \<open>
  The durability coordinator of \<^verbatim>\<open>chirps-raft-storage/src/wal_storage.rs\<close>, shared by the WAL
  files of all groups of a node, as a step relation over the threads that append and sync.
  A participant counts the records appended to its buffer and those known to be on disk.  One step
  is one critical section of the code: an append under the writer's lock, the store to the dirty
  flag, the entry into \<^verbatim>\<open>sync\<close> under the gate, the collection of dirty participants, the sync of one
  writer, the release of the gate, and the wake-up of one waiter.
\<close>

section \<open>State\<close>

record participant =
  pt_alive :: bool
  pt_dirty :: bool
  pt_appended :: nat
  pt_durable :: nat

text \<open>
  A thread works for the record number \<open>n\<close> of participant \<open>p\<close>.  \<open>Leads\<close>, \<open>Syncing\<close> and
  \<open>Finishing\<close> are the phases of the caller that found no sync in progress, \<open>Waits\<close> is any
  other caller; \<open>Returned\<close> records whether the caller led.
\<close>

datatype thread =
    Idle
  | Appended nat nat
  | Marked nat nat
  | Waits nat nat nat
  | Leads nat nat nat
  | Syncing nat "nat list" nat nat
  | Finishing nat "string + unit" nat nat
  | Returned bool "string + unit" nat nat

record coordinator =
  co_participants :: "nat list"
  co_part :: "nat \<Rightarrow> participant"
  co_syncing :: bool
  co_generation :: nat
  co_last_error :: "string option"
  co_thread :: "nat \<Rightarrow> thread"

definition coordinator_new :: coordinator where
  "coordinator_new =
     \<lparr>co_participants = [],
      co_part = (\<lambda>_. \<lparr>pt_alive = False, pt_dirty = False, pt_appended = 0, pt_durable = 0\<rparr>),
      co_syncing = False, co_generation = 0, co_last_error = None, co_thread = (\<lambda>_. Idle)\<rparr>"

section \<open>Operations\<close>

definition upd_part :: "nat \<Rightarrow> (participant \<Rightarrow> participant) \<Rightarrow> coordinator \<Rightarrow> coordinator" where
  "upd_part p f c = c\<lparr>co_part := (co_part c)(p := f (co_part c p))\<rparr>"

definition set_thread :: "nat \<Rightarrow> thread \<Rightarrow> coordinator \<Rightarrow> coordinator" where
  "set_thread t st c = c\<lparr>co_thread := (co_thread c)(t := st)\<rparr>"

text \<open>\<^verbatim>\<open>register\<close>: drop the dead entries, add the new writer.\<close>

definition register :: "nat \<Rightarrow> coordinator \<Rightarrow> coordinator" where
  "register p c =
     upd_part p (\<lambda>_. \<lparr>pt_alive = True, pt_dirty = False, pt_appended = 0, pt_durable = 0\<rparr>)
       (c\<lparr>co_participants := filter (\<lambda>q. pt_alive (co_part c q)) (co_participants c) @ [p]\<rparr>)"

definition append_buffered :: "nat \<Rightarrow> coordinator \<Rightarrow> coordinator" where
  "append_buffered p c = upd_part p (\<lambda>w. w\<lparr>pt_appended := pt_appended w + 1\<rparr>) c"

definition mark_dirty :: "nat \<Rightarrow> coordinator \<Rightarrow> coordinator" where
  "mark_dirty p c = upd_part p (\<lambda>w. w\<lparr>pt_dirty := True\<rparr>) c"

text \<open>The first half of \<^verbatim>\<open>sync_participants\<close>: swap out the dirty flags, keep the live entries.\<close>

definition dirty_writers :: "coordinator \<Rightarrow> nat list" where
  "dirty_writers c = filter (\<lambda>q. pt_alive (co_part c q) \<and> pt_dirty (co_part c q)) (co_participants c)"

definition collect_dirty :: "coordinator \<Rightarrow> coordinator" where
  "collect_dirty c =
     c\<lparr>co_participants := filter (\<lambda>q. pt_alive (co_part c q)) (co_participants c),
       co_part := (\<lambda>q. if q \<in> set (dirty_writers c) then (co_part c q)\<lparr>pt_dirty := False\<rparr> else co_part c q)\<rparr>"

text \<open>One turn of its loop: flush and sync a writer.\<close>

definition sync_one :: "nat \<Rightarrow> coordinator \<Rightarrow> coordinator" where
  "sync_one q c = upd_part q (\<lambda>w. w\<lparr>pt_durable := pt_appended w\<rparr>) c"

definition gate_close :: "coordinator \<Rightarrow> coordinator" where
  "gate_close c = c\<lparr>co_syncing := True\<rparr>"

definition gate_release :: "nat \<Rightarrow> string + unit \<Rightarrow> coordinator \<Rightarrow> coordinator" where
  "gate_release g r c =
     c\<lparr>co_last_error := (case r of Inl e \<Rightarrow> Some e | Inr _ \<Rightarrow> None), co_generation := g, co_syncing := False\<rparr>"

definition waiter_result :: "coordinator \<Rightarrow> string + unit" where
  "waiter_result c = (case co_last_error c of Some e \<Rightarrow> Err e | None \<Rightarrow> Ok ())"

fun works_for :: "nat \<Rightarrow> thread \<Rightarrow> bool" where
  "works_for p Idle = False"
| "works_for p (Appended q n) = (p = q)"
| "works_for p (Marked q n) = (p = q)"
| "works_for p (Waits g q n) = (p = q)"
| "works_for p (Leads g q n) = (p = q)"
| "works_for p (Syncing g qs q n) = (p = q \<or> p \<in> set qs)"
| "works_for p (Finishing g r q n) = (p = q)"
| "works_for p (Returned b r q n) = False"

section \<open>Steps\<close>

text \<open>The flag says whether file operations may fail.\<close>

inductive coord_step :: "bool \<Rightarrow> coordinator \<Rightarrow> coordinator \<Rightarrow> bool" for faulty where
  step_register:
    "\<not> pt_alive (co_part c p) \<Longrightarrow> p \<notin> set (co_participants c) \<Longrightarrow> \<forall>t. \<not> works_for p (co_thread c t) \<Longrightarrow>
     pt_appended (co_part c p) = 0 \<Longrightarrow> coord_step faulty c (register p c)"
| step_drop:
    "\<forall>t. \<not> works_for p (co_thread c t) \<Longrightarrow>
     coord_step faulty c (upd_part p (\<lambda>w. w\<lparr>pt_alive := False\<rparr>) c)"
| step_append:
    "co_thread c t = Idle \<Longrightarrow> pt_alive (co_part c p) \<Longrightarrow>
     coord_step faulty c (set_thread t (Appended p (pt_appended (co_part c p) + 1)) (append_buffered p c))"
| step_mark:
    "co_thread c t = Appended p n \<Longrightarrow> coord_step faulty c (set_thread t (Marked p n) (mark_dirty p c))"
| step_done_unsynced:
    "co_thread c t = Marked p n \<Longrightarrow> coord_step faulty c (set_thread t Idle c)"
| step_wait:
    "co_thread c t = Marked p n \<Longrightarrow> co_syncing c \<Longrightarrow>
     coord_step faulty c (set_thread t (Waits (co_generation c) p n) c)"
| step_lead:
    "co_thread c t = Marked p n \<Longrightarrow> \<not> co_syncing c \<Longrightarrow>
     coord_step faulty c (set_thread t (Leads (co_generation c + 1) p n) (gate_close c))"
| step_collect:
    "co_thread c t = Leads g p n \<Longrightarrow>
     coord_step faulty c (set_thread t (Syncing g (dirty_writers c) p n) (collect_dirty c))"
| step_sync_one:
    "co_thread c t = Syncing g (q # qs) p n \<Longrightarrow>
     coord_step faulty c (set_thread t (Syncing g qs p n) (sync_one q c))"
| step_sync_fails:
    "co_thread c t = Syncing g (q # qs) p n \<Longrightarrow> faulty \<Longrightarrow>
     coord_step faulty c (set_thread t (Finishing g (Err e) p n) (mark_dirty q c))"
| step_sync_all:
    "co_thread c t = Syncing g [] p n \<Longrightarrow>
     coord_step faulty c (set_thread t (Finishing g (Ok ()) p n) c)"
| step_release:
    "co_thread c t = Finishing g r p n \<Longrightarrow>
     coord_step faulty c (set_thread t (Returned True r p n) (gate_release g r c))"
| step_wake:
    "co_thread c t = Waits g p n \<Longrightarrow> \<not> co_syncing c \<Longrightarrow> co_generation c \<noteq> g \<Longrightarrow>
     coord_step faulty c (set_thread t (Returned False (waiter_result c) p n) c)"
| step_next:
    "co_thread c t = Returned b r p n \<Longrightarrow> coord_step faulty c (set_thread t Idle c)"

abbreviation coord_reachable :: "bool \<Rightarrow> coordinator \<Rightarrow> bool" where
  "coord_reachable faulty c \<equiv> (coord_step faulty)\<^sup>*\<^sup>* coordinator_new c"

section \<open>Invariants\<close>

lemmas coord_defs = upd_part_def set_thread_def register_def append_buffered_def mark_dirty_def
  dirty_writers_def collect_dirty_def sync_one_def gate_close_def gate_release_def

fun leading :: "thread \<Rightarrow> bool" where
  "leading (Leads _ _ _) = True"
| "leading (Syncing _ _ _ _) = True"
| "leading (Finishing _ _ _ _) = True"
| "leading _ = False"

text \<open>At most one thread leads, and only while the gate is closed.\<close>

definition gate_inv :: "coordinator \<Rightarrow> bool" where
  "gate_inv c \<longleftrightarrow> (\<forall>t. leading (co_thread c t) \<longrightarrow> co_syncing c) \<and>
     (\<forall>t t'. leading (co_thread c t) \<longrightarrow> leading (co_thread c t') \<longrightarrow> t = t')"

lemma gate_inv_step: "coord_step faulty c c' \<Longrightarrow> gate_inv c \<Longrightarrow> gate_inv c'"
proof (induction rule: coord_step.induct)
  case (step_lead c t p n)
  then have "\<not> leading (co_thread c t')" for t'
    by (auto simp: gate_inv_def)
  then show ?case
    by (auto simp: gate_inv_def set_thread_def gate_close_def)
next
  case (step_release c t g r p n)
  then have "\<not> leading (co_thread c t')" if "t' \<noteq> t" for t'
    using that by (force simp: gate_inv_def)
  then show ?case
    by (auto simp: gate_inv_def set_thread_def gate_release_def)
qed (auto simp: gate_inv_def coord_defs split: if_splits, (metis leading.simps)+)

text \<open>A thread works for live writers only, and live writers are registered.\<close>

definition alive_inv :: "coordinator \<Rightarrow> bool" where
  "alive_inv c \<longleftrightarrow> (\<forall>t p. works_for p (co_thread c t) \<longrightarrow> pt_alive (co_part c p)) \<and>
     (\<forall>p. pt_alive (co_part c p) \<longrightarrow> p \<in> set (co_participants c))"

lemma alive_inv_set_thread:
  "alive_inv c \<Longrightarrow> (\<And>p. works_for p st \<Longrightarrow> pt_alive (co_part c p)) \<Longrightarrow> alive_inv (set_thread t st c)"
  by (auto simp: alive_inv_def set_thread_def)

lemma alive_inv_upd_part:
  "alive_inv c \<Longrightarrow> (\<And>w. pt_alive (f w) = pt_alive w) \<Longrightarrow> alive_inv (upd_part p f c)"
  by (auto simp: alive_inv_def upd_part_def)

lemma alive_inv_collect: "alive_inv c \<Longrightarrow> alive_inv (collect_dirty c)"
  by (auto simp: alive_inv_def collect_dirty_def)

lemma alive_inv_gate: "alive_inv c \<Longrightarrow> alive_inv (gate_close c)" "alive_inv c \<Longrightarrow> alive_inv (gate_release g r c)"
  by (simp_all add: alive_inv_def gate_close_def gate_release_def)

lemma alive_inv_thread: "alive_inv c \<Longrightarrow> co_thread c t = st \<Longrightarrow> works_for p st \<Longrightarrow> pt_alive (co_part c p)"
  by (auto simp: alive_inv_def)

lemmas alive_inv_intros = alive_inv_set_thread alive_inv_upd_part alive_inv_collect alive_inv_gate

lemma co_part_simps [simp]:
  "co_part (set_thread t st c) = co_part c" "co_part (gate_close c) = co_part c"
  "co_part (gate_release g r c) = co_part c"
  "co_part (upd_part p f c) = (co_part c)(p := f (co_part c p))"
  "co_thread (upd_part p f c) = co_thread c" "co_thread (collect_dirty c) = co_thread c"
  "co_thread (gate_close c) = co_thread c" "co_thread (gate_release g r c) = co_thread c"
  "co_thread (set_thread t st c) = (co_thread c)(t := st)"
  by (simp_all add: coord_defs)

lemma collect_part [simp]:
  "pt_alive (co_part (collect_dirty c) p) = pt_alive (co_part c p)"
  "pt_appended (co_part (collect_dirty c) p) = pt_appended (co_part c p)"
  "pt_durable (co_part (collect_dirty c) p) = pt_durable (co_part c p)"
  "pt_dirty (co_part (collect_dirty c) p) = (pt_dirty (co_part c p) \<and> p \<notin> set (dirty_writers c))"
  by (simp_all add: collect_dirty_def)

lemma alive_inv_step: "coord_step faulty c c' \<Longrightarrow> alive_inv c \<Longrightarrow> alive_inv c'"
proof (induction rule: coord_step.induct)
  case (step_register c p)
  then show ?case
    by (auto simp: alive_inv_def register_def upd_part_def)
next
  case (step_drop p c)
  then show ?case
    by (auto simp: alive_inv_def upd_part_def)
qed (auto intro!: alive_inv_intros simp: append_buffered_def mark_dirty_def sync_one_def dirty_writers_def
      dest: alive_inv_thread)

text \<open>
  What is known of the record a thread works for: until it is durable, its writer is dirty or in
  the list of the leader.
\<close>

definition being_synced :: "coordinator \<Rightarrow> nat \<Rightarrow> bool" where
  "being_synced c p \<longleftrightarrow> (\<exists>t g qs q m. co_thread c t = Syncing g qs q m \<and> p \<in> set qs)"

abbreviation appended :: "coordinator \<Rightarrow> nat \<Rightarrow> nat" where
  "appended c p \<equiv> pt_appended (co_part c p)"

abbreviation durable :: "coordinator \<Rightarrow> nat \<Rightarrow> nat" where
  "durable c p \<equiv> pt_durable (co_part c p)"

fun thread_ok :: "coordinator \<Rightarrow> thread \<Rightarrow> bool" where
  "thread_ok c Idle = True"
| "thread_ok c (Appended p n) = (n \<le> appended c p)"
| "thread_ok c (Marked p n) =
     (n \<le> appended c p \<and> (n \<le> durable c p \<or> pt_dirty (co_part c p) \<or> being_synced c p))"
| "thread_ok c (Waits g p n) = True"
| "thread_ok c (Leads g p n) = (n \<le> appended c p \<and> (n \<le> durable c p \<or> pt_dirty (co_part c p)))"
| "thread_ok c (Syncing g qs p n) = (n \<le> appended c p \<and> (n \<le> durable c p \<or> p \<in> set qs))"
| "thread_ok c (Finishing g r p n) = (r = Ok () \<longrightarrow> n \<le> durable c p)"
| "thread_ok c (Returned b r p n) = (b \<longrightarrow> r = Ok () \<longrightarrow> n \<le> durable c p)"

definition dur_inv :: "coordinator \<Rightarrow> bool" where
  "dur_inv c \<longleftrightarrow> (\<forall>p. durable c p \<le> appended c p) \<and> (\<forall>t. thread_ok c (co_thread c t))"

lemma thread_ok_mono:
  assumes "thread_ok c st" "\<And>p. appended c p \<le> appended c' p" "\<And>p. durable c p \<le> durable c' p"
    and "\<And>p. pt_dirty (co_part c p) \<Longrightarrow>
      pt_dirty (co_part c' p) \<or> durable c' p = appended c' p \<or> being_synced c' p \<and> \<not> leading st"
    and "\<And>p. being_synced c p \<Longrightarrow> being_synced c' p \<or> durable c' p = appended c' p"
  shows "thread_ok c' st"
proof -
  have le: "n \<le> appended c p \<Longrightarrow> n \<le> appended c' p" "n \<le> durable c p \<Longrightarrow> n \<le> durable c' p" for n p
    using assms(2,3)[of p] by linarith+
  show ?thesis
  proof (cases st)
    case (Marked p n)
    then show ?thesis
      using assms(1) le[of n p] assms(4,5)[of p] by auto
  next
    case (Leads g p n)
    then show ?thesis
      using assms(1) le[of n p] assms(4)[of p] by auto
  next
    case (Syncing g qs p n)
    then show ?thesis
      using assms(1) le[of n p] by auto
  qed (use assms(1) le in \<open>simp_all\<close>)
qed

lemma being_synced_set_thread:
  "being_synced (set_thread t st c) p \<longleftrightarrow>
     (\<exists>g qs q m. st = Syncing g qs q m \<and> p \<in> set qs) \<or>
     (\<exists>t' g qs q m. t' \<noteq> t \<and> co_thread c t' = Syncing g qs q m \<and> p \<in> set qs)"
  by (auto simp: being_synced_def)

lemma being_synced_part [simp]:
  "being_synced (upd_part p f c) = being_synced c" "being_synced (collect_dirty c) = being_synced c"
  "being_synced (gate_close c) = being_synced c" "being_synced (gate_release g r c) = being_synced c"
  by (simp_all add: being_synced_def fun_eq_iff)

text \<open>A thread that is not syncing may change its state freely without affecting the others.\<close>

lemma being_synced_keep:
  "being_synced c p \<Longrightarrow> \<not> (\<exists>g qs q m. co_thread c t = Syncing g qs q m \<and> p \<in> set qs) \<Longrightarrow>
   being_synced (set_thread t st c) p"
  unfolding being_synced_set_thread by (simp add: being_synced_def) metis

lemma dur_inv_set_thread:
  assumes "dur_inv c" "thread_ok (set_thread t st c) st"
    and "\<And>p. \<exists>g qs q m. co_thread c t = Syncing g qs q m \<and> p \<in> set qs \<Longrightarrow>
      being_synced (set_thread t st c) p \<or> durable c p = appended c p"
  shows "dur_inv (set_thread t st c)"
proof -
  have "thread_ok (set_thread t st c) (co_thread c t')" for t'
  proof (rule thread_ok_mono[of c])
    show "thread_ok c (co_thread c t')"
      using assms(1) by (simp add: dur_inv_def)
    show "being_synced c p \<Longrightarrow> being_synced (set_thread t st c) p \<or>
        durable (set_thread t st c) p = appended (set_thread t st c) p" for p
      using assms(3)[of p] being_synced_keep[of c p t st] by auto
  qed simp_all
  then show ?thesis
    using assms(1,2) by (simp add: dur_inv_def)
qed

lemma dur_inv_upd_part:
  assumes "dur_inv c" "\<And>w. pt_appended w \<le> pt_appended (f w)" "\<And>w. pt_durable w \<le> pt_durable (f w)"
    and "\<And>w. pt_durable w \<le> pt_appended w \<Longrightarrow> pt_durable (f w) \<le> pt_appended (f w)"
    and "\<And>w. pt_dirty w \<Longrightarrow> pt_dirty (f w)"
  shows "dur_inv (upd_part p f c)"
proof -
  have "thread_ok (upd_part p f c) (co_thread c t)" for t
    by (rule thread_ok_mono[of c]) (use assms in \<open>auto simp: dur_inv_def\<close>)
  then show ?thesis
    using assms(1,4) by (simp add: dur_inv_def)
qed

lemma dur_inv_gate: "dur_inv c \<Longrightarrow> dur_inv (gate_close c)" "dur_inv c \<Longrightarrow> dur_inv (gate_release g r c)"
  by (auto simp: dur_inv_def intro: thread_ok_mono[of c])

lemma dur_inv_thread: "dur_inv c \<Longrightarrow> co_thread c t = st \<Longrightarrow> thread_ok c st"
  by (auto simp: dur_inv_def)

lemma dur_inv_register:
  assumes "dur_inv c" "appended c p = 0"
  shows "dur_inv (register p c)"
proof -
  have d: "durable c p = 0"
    using assms unfolding dur_inv_def by (metis le_zero_eq)
  have s: "being_synced (register p c) = being_synced c" "co_thread (register p c) = co_thread c"
    by (simp_all add: register_def being_synced_def fun_eq_iff)
  have "thread_ok (register p c) (co_thread c t)" for t
    by (rule thread_ok_mono[of c], unfold s) (use assms d in \<open>auto simp: dur_inv_def register_def\<close>)
  then show ?thesis
    using assms(1) unfolding dur_inv_def s by (simp add: register_def)
qed

lemma dur_inv_collect:
  assumes "dur_inv c" "gate_inv c" "alive_inv c" "co_thread c t = Leads g p n"
  shows "dur_inv (set_thread t (Syncing g (dirty_writers c) p n) (collect_dirty c))" (is "dur_inv ?c")
proof -
  have bs: "being_synced ?c q" if "q \<in> set (dirty_writers c)" for q
    using that by (auto simp: being_synced_set_thread)
  have nl: "\<not> leading (co_thread c t')" if "t' \<noteq> t" for t'
    using assms(2,4) that unfolding gate_inv_def by (metis leading.simps(1))
  have ns: "\<not> being_synced c q" for q
  proof
    assume "being_synced c q"
    then obtain t' g' qs r m where t': "co_thread c t' = Syncing g' qs r m"
      unfolding being_synced_def by blast
    then show False
      using nl[of t'] assms(4) by (cases "t' = t") simp_all
  qed
  have "thread_ok ?c (co_thread c t')" if "t' \<noteq> t" for t'
    by (rule thread_ok_mono[of c]) (use assms(1) ns nl[OF that] bs in \<open>auto simp: dur_inv_def\<close>)
  moreover have "pt_dirty (co_part c p) \<Longrightarrow> p \<in> set (dirty_writers c)"
    using alive_inv_thread[OF assms(3,4), of p] assms(3) by (auto simp: dirty_writers_def alive_inv_def)
  then have "thread_ok ?c (Syncing g (dirty_writers c) p n)"
    using dur_inv_thread[OF assms(1,4)] by auto
  ultimately show ?thesis
    using assms(1) by (simp add: dur_inv_def)
qed

lemma dur_inv_sync_one:
  assumes "dur_inv c" "co_thread c t = Syncing g (q # qs) p n"
  shows "dur_inv (set_thread t (Syncing g qs p n) (sync_one q c))" (is "dur_inv ?c")
proof -
  have d: "durable c r \<le> appended c r" for r
    using assms(1) by (simp add: dur_inv_def)
  have bs: "being_synced ?c r \<or> durable ?c r = appended ?c r" if h: "being_synced c r" for r
  proof -
    obtain t' g' ps r' m where t': "co_thread c t' = Syncing g' ps r' m" "r \<in> set ps"
      using h unfolding being_synced_def by blast
    show ?thesis
      using t' assms(2) unfolding being_synced_set_thread
      by (cases "t' = t"; cases "r = q") (auto simp: sync_one_def)
  qed
  have "thread_ok ?c (co_thread c t')" for t'
    by (rule thread_ok_mono[of c]) (use assms(1) d bs in \<open>auto simp: dur_inv_def sync_one_def\<close>)
  moreover have "thread_ok ?c (Syncing g qs p n)"
    using dur_inv_thread[OF assms] d by (auto simp: sync_one_def)
  ultimately show ?thesis
    using d by (simp add: dur_inv_def sync_one_def)
qed

lemma dur_inv_step:
  assumes "coord_step False c c'" "gate_inv c" "alive_inv c" "dur_inv c"
  shows "dur_inv c'"
  using assms
proof (induction rule: coord_step.induct)
  case (step_append c t p)
  then have "dur_inv (append_buffered p c)"
    unfolding append_buffered_def by (intro dur_inv_upd_part) simp_all
  then show ?case
    by (rule dur_inv_set_thread) (use step_append in \<open>simp_all add: append_buffered_def\<close>)
next
  case (step_mark c t p n)
  then have "dur_inv (mark_dirty p c)"
    unfolding mark_dirty_def by (intro dur_inv_upd_part) simp_all
  then show ?case
    by (rule dur_inv_set_thread)
      (use step_mark dur_inv_thread[OF _ step_mark.hyps] in \<open>simp_all add: mark_dirty_def\<close>)
next
  case (step_lead c t p n)
  have "\<not> being_synced c p"
    using step_lead unfolding being_synced_def gate_inv_def by (metis leading.simps(2))
  then show ?case
    using step_lead dur_inv_thread[OF _ step_lead.hyps(1)] by (intro dur_inv_set_thread dur_inv_gate) auto
next
  case (step_release c t g r p n)
  then show ?case
    using dur_inv_thread[OF _ step_release.hyps] by (intro dur_inv_set_thread dur_inv_gate) auto
next
  case (step_drop p c)
  then show ?case
    by (intro dur_inv_upd_part) simp_all
next
  case (step_collect c t g p n)
  then show ?case
    by (intro dur_inv_collect)
next
  case (step_sync_one c t g q qs p n)
  then show ?case
    by (intro dur_inv_sync_one)
next
  case (step_sync_all c t g p n)
  then show ?case
    using dur_inv_thread[OF _ step_sync_all.hyps] by (intro dur_inv_set_thread) auto
qed (auto intro: dur_inv_register intro!: dur_inv_set_thread)

text \<open>All three hold in every state that is reached without file errors.\<close>

lemma reachable_invs:
  assumes "coord_reachable False c"
  shows "gate_inv c \<and> alive_inv c \<and> dur_inv c"
  using assms
proof (induction rule: rtranclp_induct)
  case base
  then show ?case
    by (simp add: coordinator_new_def gate_inv_def alive_inv_def dur_inv_def)
next
  case (step c c')
  then show ?case
    using gate_inv_step alive_inv_step dur_inv_step by blast
qed

lemma reach_step: "coord_reachable f c \<Longrightarrow> coord_step f c c' \<Longrightarrow> coord_reachable f c'"
  by (rule rtranclp.rtrancl_into_rtrancl)

text \<open>Two writers; thread 0 has appended to writer 0 and marked it.\<close>

definition two_writers :: coordinator where
  "two_writers = set_thread 0 (Marked 0 1) (mark_dirty 0 (set_thread 0 (Appended 0 1)
     (append_buffered 0 (register 1 (register 0 coordinator_new)))))"

lemma reach_two_writers: "coord_reachable f two_writers"
proof -
  let ?c1 = "register 0 coordinator_new"
  let ?c2 = "register 1 ?c1"
  let ?c3 = "set_thread 0 (Appended 0 1) (append_buffered 0 ?c2)"
  have "coord_step f coordinator_new ?c1"
    by (rule step_register) (simp_all add: coordinator_new_def)
  moreover have "coord_step f ?c1 ?c2"
    by (rule step_register) (simp_all add: coordinator_new_def coord_defs)
  moreover have "coord_step f ?c2 ?c3"
    using step_append[of ?c2 0 0 f] by (simp add: coordinator_new_def coord_defs)
  moreover have "coord_step f ?c3 two_writers"
    unfolding two_writers_def by (rule step_mark) simp
  ultimately show ?thesis
    by (meson reach_step rtranclp.rtrancl_refl)
qed

text \<open>Thread 0 is the leader and has collected; only now does thread 1 append to writer 1.\<close>

definition late_append :: coordinator where
  "late_append = set_thread 1 (Marked 1 1) (mark_dirty 1 (set_thread 1 (Appended 1 1) (append_buffered 1
     (set_thread 0 (Syncing 1 [0] 0 1) (collect_dirty (set_thread 0 (Leads 1 0 1) (gate_close two_writers)))))))"

lemma reach_late_append: "coord_reachable f late_append"
proof -
  let ?c1 = "set_thread 0 (Leads 1 0 1) (gate_close two_writers)"
  let ?c2 = "set_thread 0 (Syncing 1 [0] 0 1) (collect_dirty ?c1)"
  let ?c3 = "set_thread 1 (Appended 1 1) (append_buffered 1 ?c2)"
  have "coord_step f two_writers ?c1"
    using step_lead[of two_writers 0 0 1 f] by (simp add: two_writers_def coordinator_new_def coord_defs)
  moreover have "dirty_writers ?c1 = [0]"
    by (simp add: two_writers_def coordinator_new_def coord_defs)
  then have "coord_step f ?c1 ?c2"
    using step_collect[of ?c1 0 1 0 1 f] by simp
  moreover have "coord_step f ?c2 ?c3"
    using step_append[of ?c2 1 1 f] by (simp add: two_writers_def coordinator_new_def coord_defs)
  moreover have "coord_step f ?c3 late_append"
    unfolding late_append_def by (rule step_mark) simp
  ultimately show ?thesis
    by (meson reach_step reach_two_writers)
qed

section \<open>Properties\<close>

text \<open>
  (C13) The caller that performs the sync gets what it asks for: when it returns success, and no
  file operation has failed so far, the record it appended is on disk.
\<close>

theorem leading_sync_is_durable:
  assumes "coord_reachable False c" "co_thread c t = Returned True (Ok ()) p n"
  shows "n \<le> pt_durable (co_part c p)"
  using reachable_invs[OF assms(1)] dur_inv_thread[OF _ assms(2)] by simp

theorem leading_sync_is_durable_witness:
  "\<exists>c. coord_reachable False c \<and> co_thread c 0 = Returned True (Ok ()) 0 1 \<and> 1 \<le> pt_durable (co_part c 0)"
proof -
  let ?c1 = "set_thread 0 (Syncing 1 [] 0 1) (sync_one 0 late_append)"
  let ?c2 = "set_thread 0 (Finishing 1 (Ok ()) 0 1) ?c1"
  let ?c3 = "set_thread 0 (Returned True (Ok ()) 0 1) (gate_release 1 (Ok ()) ?c2)"
  have "coord_step False late_append ?c1"
    by (rule step_sync_one) (simp add: late_append_def coord_defs)
  moreover have "coord_step False ?c1 ?c2"
    by (rule step_sync_all) simp
  moreover have "coord_step False ?c2 ?c3"
    by (rule step_release) simp
  ultimately have r: "coord_reachable False ?c3"
    by (meson reach_step reach_late_append)
  then have "1 \<le> pt_durable (co_part ?c3 0)"
    by (rule leading_sync_is_durable[where t = 0]) simp
  then show ?thesis
    using r by (intro exI[of _ ?c3]) simp
qed

text \<open>
  (C28) A caller that arrives while a sync is running can be told its record is durable when it is
  not: a record appended after the leader collected the dirty writers is acknowledged by the end
  of that sync, which did not touch its file.  No file error is involved.
\<close>

theorem waiting_sync_acknowledges_unsynced_record:
  "\<exists>c t p n. coord_reachable False c \<and> co_thread c t = Returned False (Ok ()) p n \<and>
     pt_durable (co_part c p) < n"
proof -
  let ?c1 = "set_thread 1 (Waits 0 1 1) late_append"
  let ?c2 = "set_thread 0 (Syncing 1 [] 0 1) (sync_one 0 ?c1)"
  let ?c3 = "set_thread 0 (Finishing 1 (Ok ()) 0 1) ?c2"
  let ?c4 = "set_thread 0 (Returned True (Ok ()) 0 1) (gate_release 1 (Ok ()) ?c3)"
  let ?c5 = "set_thread 1 (Returned False (Ok ()) 1 1) ?c4"
  have "coord_step False late_append ?c1"
    using step_wait[of late_append 1 1 1 False]
    by (simp add: late_append_def two_writers_def coordinator_new_def coord_defs)
  moreover have "coord_step False ?c1 ?c2"
    by (rule step_sync_one) (simp add: late_append_def coord_defs)
  moreover have "coord_step False ?c2 ?c3"
    by (rule step_sync_all) simp
  moreover have "coord_step False ?c3 ?c4"
    by (rule step_release) simp
  moreover have "waiter_result ?c4 = Ok ()" "\<not> co_syncing ?c4" "co_generation ?c4 \<noteq> 0"
    by (simp_all add: waiter_result_def gate_release_def set_thread_def)
  then have "coord_step False ?c4 ?c5"
    using step_wake[of ?c4 1 0 1 1 False] by (simp add: sync_one_def)
  ultimately have "coord_reachable False ?c5"
    by (meson reach_step reach_late_append)
  moreover have "pt_durable (co_part ?c5 1) < 1"
    by (simp add: late_append_def two_writers_def coordinator_new_def coord_defs)
  ultimately show ?thesis
    by (intro exI[of _ ?c5] exI[of _ 1]) (simp add: set_thread_def)
qed

text \<open>
  (C29) A failed sync forgets the writers it did not reach: their dirty marks are gone, so the
  next sync, run by a caller whose own record is still in a buffer, reports success without
  writing it.
\<close>

theorem failed_sync_forgets_dirty_writers:
  "\<exists>c t p n. coord_reachable True c \<and> co_thread c t = Returned True (Ok ()) p n \<and>
     pt_durable (co_part c p) < n"
proof -
  let ?a = "set_thread 1 (Appended 1 1) (append_buffered 1 two_writers)"
  let ?b = "set_thread 1 (Marked 1 1) (mark_dirty 1 ?a)"
  let ?c1 = "set_thread 0 (Leads 1 0 1) (gate_close ?b)"
  let ?c2 = "set_thread 0 (Syncing 1 [0, 1] 0 1) (collect_dirty ?c1)"
  let ?c3 = "set_thread 0 (Finishing 1 (Err ''disk full'') 0 1) (mark_dirty 0 ?c2)"
  let ?c4 = "set_thread 0 (Returned True (Err ''disk full'') 0 1) (gate_release 1 (Err ''disk full'') ?c3)"
  let ?c5 = "set_thread 1 (Leads 2 1 1) (gate_close ?c4)"
  let ?c6 = "set_thread 1 (Syncing 2 [0] 1 1) (collect_dirty ?c5)"
  let ?c7 = "set_thread 1 (Syncing 2 [] 1 1) (sync_one 0 ?c6)"
  let ?c8 = "set_thread 1 (Finishing 2 (Ok ()) 1 1) ?c7"
  let ?c9 = "set_thread 1 (Returned True (Ok ()) 1 1) (gate_release 2 (Ok ()) ?c8)"
  note ev = two_writers_def coordinator_new_def coord_defs
  have "coord_step True two_writers ?a"
    using step_append[of two_writers 1 1 True] by (simp add: ev)
  moreover have "coord_step True ?a ?b"
    by (rule step_mark) simp
  moreover have "coord_step True ?b ?c1"
    using step_lead[of ?b 0 0 1 True] by (simp add: ev)
  moreover have "dirty_writers ?c1 = [0, 1]"
    by (simp add: ev)
  then have "coord_step True ?c1 ?c2"
    using step_collect[of ?c1 0 1 0 1 True] by simp
  moreover have "coord_step True ?c2 ?c3"
    by (rule step_sync_fails) simp_all
  moreover have "coord_step True ?c3 ?c4"
    by (rule step_release) simp
  moreover have g4: "\<not> co_syncing ?c4" "co_generation ?c4 + 1 = 2" "co_thread ?c4 1 = Marked 1 1"
    by (simp_all add: ev)
  have "coord_step True ?c4 ?c5"
    using step_lead[OF g4(3,1), of True] unfolding g4(2) .
  moreover have "dirty_writers ?c5 = [0]"
    by (simp add: ev)
  then have "coord_step True ?c5 ?c6"
    using step_collect[of ?c5 1 2 1 1 True] by simp
  moreover have "coord_step True ?c6 ?c7"
    by (rule step_sync_one) simp
  moreover have "coord_step True ?c7 ?c8"
    by (rule step_sync_all) simp
  moreover have "coord_step True ?c8 ?c9"
    by (rule step_release) simp
  ultimately have "coord_reachable True ?c9"
    by (meson reach_step reach_two_writers)
  moreover have "pt_durable (co_part ?c9 1) < 1"
    by (simp add: ev)
  ultimately show ?thesis
    by (intro exI[of _ ?c9] exI[of _ 1]) (simp add: set_thread_def)
qed

end
