(* ===== verification/Std_Maps.thy ===== *)
theory Std_Maps
  imports Chirps_Prelude "HOL-Library.AList"
begin

text \<open>
  The standard-library maps of the code.  A \<^verbatim>\<open>BTreeMap\<close> is a list of pairs with strictly
  increasing keys (\<open>bt_inv\<close>), so that iteration, range queries and the last entry are what
  the code sees; a \<^verbatim>\<open>HashMap\<close> is an association list in iteration order.  Both provide
  the laws of the locale \<open>std_map\<close>, and the facts that clients need about any map with these
  laws are proved there once.
\<close>

section \<open>Interface\<close>

locale std_map =
  fixes inv :: "('k \<times> 'v) list \<Rightarrow> bool"
    and get :: "('k \<times> 'v) list \<Rightarrow> 'k \<Rightarrow> 'v option"
    and insert :: "'k \<Rightarrow> 'v \<Rightarrow> ('k \<times> 'v) list \<Rightarrow> ('k \<times> 'v) list"
    and remove :: "'k \<Rightarrow> ('k \<times> 'v) list \<Rightarrow> ('k \<times> 'v) list"
  assumes inv_empty: "inv []"
    and inv_insert: "inv m \<Longrightarrow> inv (insert k v m)"
    and inv_remove: "inv m \<Longrightarrow> inv (remove k m)"
    and get_empty: "get [] = Map.empty"
    and get_insert: "inv m \<Longrightarrow> get (insert k v m) = (get m)(k \<mapsto> v)"
    and get_remove: "inv m \<Longrightarrow> get (remove k m) = (get m)(k := None)"
    and inv_distinct: "inv m \<Longrightarrow> distinct (map fst m)"
    and get_map_of: "get m = map_of m"
begin

lemma length_card: "inv m \<Longrightarrow> length m = card (dom (get m))"
  using inv_distinct[of m] by (metis distinct_card dom_map_of_conv_image_fst get_map_of length_map set_map)

lemma inv_fold_insert: "inv m \<Longrightarrow> inv (fold (\<lambda>(k, v). insert k v) kvs m)"
  by (induction kvs arbitrary: m) (auto simp: inv_insert)

lemma inv_fold_remove: "inv m \<Longrightarrow> inv (fold remove ks m)"
  by (induction ks arbitrary: m) (auto simp: inv_remove)

lemma get_fold_remove:
  "inv m \<Longrightarrow> get (fold remove ks m) k = (if k \<in> set ks then None else get m k)"
  by (induction ks arbitrary: m) (auto simp: get_remove inv_remove)

lemma length_insert_le:
  assumes "inv m"
  shows "length (insert k v m) \<le> Suc (length m)"
proof -
  have "finite (dom (get m))"
    by (simp add: get_map_of finite_dom_map_of)
  then show ?thesis
    using assms by (simp add: length_card inv_insert get_insert card_insert_if)
qed

lemma length_remove_present:
  assumes "inv m" "get m k \<noteq> None"
  shows "length m = Suc (length (remove k m))"
proof -
  have "finite (dom (get m))"
    by (simp add: get_map_of finite_dom_map_of)
  moreover have "k \<in> dom (get m)"
    using assms(2) by blast
  ultimately have "card (dom (get m)) = Suc (card (dom (get m) - {k}))"
    by (rule card.remove)
  moreover have "dom (get (remove k m)) = dom (get m) - {k}"
    using assms(1) by (simp add: get_remove)
  ultimately show ?thesis
    using length_card[OF assms(1)] length_card[OF inv_remove[OF assms(1), of k]] by simp
qed

lemma remove_absent_get: "inv m \<Longrightarrow> get m k = None \<Longrightarrow> get (remove k m) = get m"
  by (simp add: get_remove fun_upd_idem)

end

section \<open>Hash maps\<close>

abbreviation hm_insert :: "'k \<Rightarrow> 'v \<Rightarrow> ('k \<times> 'v) list \<Rightarrow> ('k \<times> 'v) list" where
  "hm_insert \<equiv> AList.update"

abbreviation hm_remove :: "'k \<Rightarrow> ('k \<times> 'v) list \<Rightarrow> ('k \<times> 'v) list" where
  "hm_remove \<equiv> AList.delete"

interpretation hash_map: std_map "\<lambda>m. distinct (map fst m)" map_of hm_insert hm_remove
  by unfold_locales
    (auto simp: distinct_update distinct_delete update_conv delete_conv)

section \<open>B-tree maps\<close>

definition bt_inv :: "('k::linorder \<times> 'v) list \<Rightarrow> bool" where
  "bt_inv m \<longleftrightarrow> sorted_wrt (<) (map fst m)"

primrec bt_insert :: "'k::linorder \<Rightarrow> 'v \<Rightarrow> ('k \<times> 'v) list \<Rightarrow> ('k \<times> 'v) list" where
  "bt_insert k v [] = [(k, v)]"
| "bt_insert k v (e # m) =
     (if k < fst e then (k, v) # e # m else if k = fst e then (k, v) # m else e # bt_insert k v m)"

definition bt_remove :: "'k::linorder \<Rightarrow> ('k \<times> 'v) list \<Rightarrow> ('k \<times> 'v) list" where
  "bt_remove k m = filter (\<lambda>e. fst e \<noteq> k) m"

text \<open>The keys a range query yields, in increasing order.\<close>

definition bt_range :: "('k::linorder \<Rightarrow> bool) \<Rightarrow> ('k \<times> 'v) list \<Rightarrow> ('k \<times> 'v) list" where
  "bt_range P m = filter (\<lambda>e. P (fst e)) m"

text \<open>\<^verbatim>\<open>iter().next_back()\<close>\<close>

definition bt_last :: "('k \<times> 'v) list \<Rightarrow> ('k \<times> 'v) option" where
  "bt_last m = (if m = [] then None else Some (last m))"

lemma set_keys_bt_insert [simp]: "fst ` set (bt_insert k v m) = insert k (fst ` set m)"
  by (induction m) auto

lemma bt_inv_Cons: "bt_inv (e # m) \<longleftrightarrow> (\<forall>x\<in>set m. fst e < fst x) \<and> bt_inv m"
  by (auto simp: bt_inv_def)

lemma bt_inv_insert [simp]: "bt_inv m \<Longrightarrow> bt_inv (bt_insert k v m)"
proof (induction m)
  case (Cons e m)
  have "fst e < k \<Longrightarrow> \<forall>y\<in>fst ` set (bt_insert k v m). fst e < y"
    unfolding set_keys_bt_insert using Cons.prems by (auto simp: bt_inv_Cons)
  then have "fst e < k \<Longrightarrow> \<forall>x\<in>set (bt_insert k v m). fst e < fst x"
    by blast
  then show ?case
    using Cons.IH Cons.prems by (simp add: bt_inv_Cons) force
qed (simp add: bt_inv_def)

lemma bt_inv_filter [simp]: "bt_inv m \<Longrightarrow> bt_inv (filter P m)"
  by (simp add: bt_inv_def sorted_wrt_map sorted_wrt_filter)

lemma map_of_bt_insert: "map_of (bt_insert k v m) = (map_of m)(k \<mapsto> v)" if "bt_inv m"
  using that
proof (induction m)
  case (Cons e m)
  then show ?case
    by (cases e) (auto simp: bt_inv_Cons fun_eq_iff)
qed simp

lemma map_of_filter_key: "map_of (filter (\<lambda>e. P (fst e)) m) k = (if P k then map_of m k else None)"
  by (induction m) auto

lemma map_of_bt_remove: "map_of (bt_remove k m) = (map_of m)(k := None)"
  by (induction m) (auto simp: bt_remove_def fun_eq_iff)

interpretation btree: std_map bt_inv map_of bt_insert bt_remove
proof
  show "bt_inv m \<Longrightarrow> distinct (map fst m)" for m :: "('a \<times> 'b) list"
    by (simp add: bt_inv_def strict_sorted_iff)
  show "bt_inv ([] :: ('a \<times> 'b) list)"
    by (simp add: bt_inv_def)
  show "bt_inv m \<Longrightarrow> bt_inv (bt_remove k m)" for k and m :: "('a \<times> 'b) list"
    by (simp add: bt_remove_def)
qed (simp_all add: map_of_bt_insert map_of_bt_remove)

lemma map_of_bt_range: "map_of (bt_range P m) k = (if P k then map_of m k else None)"
  by (simp add: bt_range_def map_of_filter_key)

lemma bt_inv_range [simp]: "bt_inv m \<Longrightarrow> bt_inv (bt_range P m)"
  by (simp add: bt_range_def)

lemma bt_inv_remove [simp]: "bt_inv m \<Longrightarrow> bt_inv (bt_remove k m)"
  by (simp add: bt_remove_def)

text \<open>Two sorted maps with the same bindings are the same list.\<close>

lemma bt_ext:
  assumes "bt_inv m" "bt_inv m'" "map_of m = map_of m'"
  shows "m = m'"
proof -
  have d: "distinct (map fst m)" "distinct (map fst m')"
    using assms btree.inv_distinct by blast+
  then have "set m = set m'"
    using map_of_inject_set assms(3) by blast
  moreover have "sorted (map fst m)" "sorted (map fst m')"
    using assms by (simp_all add: bt_inv_def strict_sorted_imp_sorted)
  ultimately show ?thesis
    using d by (intro map_sorted_distinct_set_unique[of fst]) (auto simp: distinct_map)
qed

lemma bt_last_max:
  assumes "bt_inv m" "bt_last m = Some (k, v)"
  shows "map_of m k = Some v" "map_of m k' \<noteq> None \<Longrightarrow> k' \<le> k"
proof -
  have m: "m = butlast m @ [(k, v)]"
    using assms(2) append_butlast_last_id[of m] unfolding bt_last_def
    by (metis option.distinct(1) option.inject)
  then have "(k, v) \<in> set m"
    by (metis in_set_conv_decomp)
  then show "map_of m k = Some v"
    using assms(1) btree.inv_distinct by (simp add: btree.inv_distinct)
  have "\<forall>x\<in>set (butlast m). fst x < k"
    using assms(1) by (subst (asm) m) (auto simp: bt_inv_def sorted_wrt_append)
  then have "\<forall>x\<in>set m. fst x \<le> k"
    by (subst m) auto
  then show "map_of m k' \<noteq> None \<Longrightarrow> k' \<le> k"
    by (metis fst_conv map_of_eq_None_iff image_iff)
qed

lemma bt_last_None: "bt_last m = None \<longleftrightarrow> m = []"
  by (simp add: bt_last_def)

end
