(* ===== verification/Retransmit.thy ===== *)
theory Retransmit
  imports Std_Maps Wire
begin

text \<open>
  Reliable delivery between two nodes, \<^verbatim>\<open>chirps-transport-quic/src/retransmit.rs\<close>: the
  receiver's duplicate filter with its cumulative acknowledgement boundary, and the sender's buffer
  of frames that are not yet acknowledged.  A \<^verbatim>\<open>usize\<close> byte count is a 64-bit word, an
  \<^verbatim>\<open>Instant\<close> a number of nanoseconds; each read of the clock is an argument.
\<close>

section \<open>Duplicate filter\<close>

record peer_dedup_state =
  contiguous_seq :: u64
  out_of_order :: "u64 list"

definition peer_dedup_default :: peer_dedup_state where
  "peer_dedup_default = \<lparr>contiguous_seq = 0, out_of_order = []\<rparr>"

record deduplication_table =
  dt_peers :: "(node_id \<times> peer_dedup_state) list"
  dt_window_size :: nat

definition dedup_new :: deduplication_table where
  "dedup_new = \<lparr>dt_peers = [], dt_window_size = 1000\<rparr>"

text \<open>The loop that moves the boundary over the frames that have already arrived.\<close>

function advance :: "u64 \<Rightarrow> u64 list \<Rightarrow> u64 \<times> u64 list" where
  "advance c ooo =
     (let nxt = saturating_add c 1
      in if nxt \<in> set ooo then advance nxt (removeAll nxt ooo) else (c, ooo))"
  by pat_completeness auto
termination
  by (relation "measure (\<lambda>(_, ooo). length ooo)") (auto intro: length_removeAll_less)

declare advance.simps [simp del]

definition dedup_check :: "nat \<Rightarrow> u64 \<Rightarrow> peer_dedup_state \<Rightarrow> bool \<times> peer_dedup_state" where
  "dedup_check window seq st =
     (if seq \<le> contiguous_seq st \<or> seq \<in> set (out_of_order st) then (False, st)
      else
        let window_end = saturating_add (contiguous_seq st) (of_nat window)
        in if seq > window_end then (False, st)
           else let (c, ooo) = advance (contiguous_seq st) (List.insert seq (out_of_order st))
                in (True, \<lparr>contiguous_seq = c, out_of_order = ooo\<rparr>))"

definition dedup_peer :: "deduplication_table \<Rightarrow> node_id \<Rightarrow> peer_dedup_state" where
  "dedup_peer t peer = (case map_of (dt_peers t) peer of Some st \<Rightarrow> st | None \<Rightarrow> peer_dedup_default)"

definition check_and_update ::
  "node_id \<Rightarrow> u64 \<Rightarrow> deduplication_table \<Rightarrow> bool \<times> deduplication_table" where
  "check_and_update peer seq t =
     (let (b, st) = dedup_check (dt_window_size t) seq (dedup_peer t peer)
      in (b, t\<lparr>dt_peers := hm_insert peer st (dt_peers t)\<rparr>))"

definition last_seen_seq :: "deduplication_table \<Rightarrow> node_id \<Rightarrow> u64" where
  "last_seen_seq t peer =
     (case map_of (dt_peers t) peer of Some st \<Rightarrow> contiguous_seq st | None \<Rightarrow> 0)"

text \<open>A sequence of arrivals and which of them are delivered.\<close>

fun dedup_run :: "(node_id \<times> u64) list \<Rightarrow> deduplication_table \<Rightarrow> bool list \<times> deduplication_table" where
  "dedup_run [] t = ([], t)"
| "dedup_run ((p, k) # as) t =
     (let (b, t1) = check_and_update p k t; (bs, t2) = dedup_run as t1 in (b # bs, t2))"

section \<open>Retransmission buffer\<close>

record retransmit_config =
  max_buffer_bytes :: u64
  max_messages_per_peer :: nat
  message_ttl :: nat

definition retransmit_config_default :: retransmit_config where
  "retransmit_config_default =
     \<lparr>max_buffer_bytes = 33554432, max_messages_per_peer = 10000, message_ttl = 60000000000\<rparr>"

record buffered_message =
  bm_seq :: u64
  bm_frame :: frame
  bm_size_bytes :: u64
  bm_timestamp :: nat

record peer_buffer =
  pb_messages :: "buffered_message list"
  pb_total_bytes :: u64
  pb_next_seq :: u64
  pb_acked_seq :: u64

definition peer_buffer_new :: peer_buffer where
  "peer_buffer_new = \<lparr>pb_messages = [], pb_total_bytes = 0, pb_next_seq = 1, pb_acked_seq = 0\<rparr>"

record retransmission_buffer =
  rb_buffers :: "(node_id \<times> peer_buffer) list"
  rb_config :: retransmit_config

definition retransmission_new :: "retransmit_config \<Rightarrow> retransmission_buffer" where
  "retransmission_new config = \<lparr>rb_buffers = [], rb_config = config\<rparr>"

datatype buffer_error = SerializeError string | SequenceExhausted

text \<open>The two loops of \<^verbatim>\<open>handle_overflow\<close>; the last component counts the dropped messages.\<close>

fun expire_loop :: "nat \<Rightarrow> nat \<Rightarrow> buffered_message list \<Rightarrow> u64 \<Rightarrow> buffered_message list \<times> u64 \<times> nat" where
  "expire_loop ttl now [] tot = ([], tot, 0)"
| "expire_loop ttl now (m # ms) tot =
     (if now - bm_timestamp m > ttl
      then let (ms', total', d) = expire_loop ttl now ms (saturating_sub tot (bm_size_bytes m))
           in (ms', total', d + 1)
      else (m # ms, tot, 0))"

fun trim_loop :: "u64 \<Rightarrow> nat \<Rightarrow> buffered_message list \<Rightarrow> u64 \<Rightarrow> buffered_message list \<times> u64 \<times> nat" where
  "trim_loop max_bytes max_messages [] tot = ([], tot, 0)"
| "trim_loop max_bytes max_messages (m # ms) tot =
     (if tot > max_bytes \<or> length (m # ms) > max_messages
      then let (ms', total', d) = trim_loop max_bytes max_messages ms (saturating_sub tot (bm_size_bytes m))
           in (ms', total', d + 1)
      else (m # ms, tot, 0))"

definition overflow_peer :: "retransmit_config \<Rightarrow> nat \<Rightarrow> peer_buffer \<Rightarrow> peer_buffer \<times> nat" where
  "overflow_peer cfg now buf =
     (let (ms1, total1, d1) = expire_loop (message_ttl cfg) now (pb_messages buf) (pb_total_bytes buf);
          (ms2, total2, d2) = trim_loop (max_buffer_bytes cfg) (max_messages_per_peer cfg) ms1 total1
      in (buf\<lparr>pb_messages := ms2, pb_total_bytes := total2\<rparr>, d1 + d2))"

definition handle_overflow ::
  "node_id \<Rightarrow> nat \<Rightarrow> retransmission_buffer \<Rightarrow> nat \<times> retransmission_buffer" where
  "handle_overflow peer now rb =
     (case map_of (rb_buffers rb) peer of
        None \<Rightarrow> (0, rb)
      | Some buf \<Rightarrow>
          (let (buf', dropped) = overflow_peer (rb_config rb) now buf
           in (dropped, rb\<lparr>rb_buffers := hm_insert peer buf' (rb_buffers rb)\<rparr>)))"

definition peer_buffer_of :: "retransmission_buffer \<Rightarrow> node_id \<Rightarrow> peer_buffer" where
  "peer_buffer_of rb peer =
     (case map_of (rb_buffers rb) peer of Some buf \<Rightarrow> buf | None \<Rightarrow> peer_buffer_new)"

text \<open>\<open>pushed\<close> and \<open>now\<close> are the clock readings for the message and for the overflow check.\<close>

definition buffer_with_size ::
  "node_id \<Rightarrow> frame \<Rightarrow> u64 \<Rightarrow> nat \<Rightarrow> nat \<Rightarrow> retransmission_buffer
     \<Rightarrow> (buffer_error + u64) \<times> retransmission_buffer" where
  "buffer_with_size peer fr size_bytes pushed now rb =
     (let buf = peer_buffer_of rb peer; seq = pb_next_seq buf
      in case checked_add seq 1 of
           None \<Rightarrow> (Err SequenceExhausted, rb\<lparr>rb_buffers := hm_insert peer buf (rb_buffers rb)\<rparr>)
         | Some nxt \<Rightarrow>
             (let msg = \<lparr>bm_seq = seq, bm_frame = fr, bm_size_bytes = size_bytes, bm_timestamp = pushed\<rparr>;
                  buf1 = buf\<lparr>pb_next_seq := nxt,
                             pb_total_bytes := saturating_add (pb_total_bytes buf) size_bytes,
                             pb_messages := pb_messages buf @ [msg]\<rparr>;
                  rb1 = rb\<lparr>rb_buffers := hm_insert peer buf1 (rb_buffers rb)\<rparr>
              in (Ok seq, snd (handle_overflow peer now rb1))))"

definition rb_buffer ::
  "(frame \<Rightarrow> string + u64) \<Rightarrow> node_id \<Rightarrow> frame \<Rightarrow> nat \<Rightarrow> nat \<Rightarrow> retransmission_buffer
     \<Rightarrow> (buffer_error + u64) \<times> retransmission_buffer" where
  "rb_buffer serialized_size peer fr pushed now rb =
     (case serialized_size fr of
        Inl e \<Rightarrow> (Err (SerializeError e), rb)
      | Inr size_bytes \<Rightarrow> buffer_with_size peer fr size_bytes pushed now rb)"

fun ack_loop :: "u64 \<Rightarrow> buffered_message list \<Rightarrow> u64 \<Rightarrow> buffered_message list \<times> u64 \<times> nat" where
  "ack_loop ack [] tot = ([], tot, 0)"
| "ack_loop ack (m # ms) tot =
     (if bm_seq m \<le> ack
      then let (ms', total', d) = ack_loop ack ms (saturating_sub tot (bm_size_bytes m))
           in (ms', total', d + 1)
      else (m # ms, tot, 0))"

definition process_ack ::
  "node_id \<Rightarrow> u64 \<Rightarrow> retransmission_buffer \<Rightarrow> nat \<times> retransmission_buffer" where
  "process_ack peer ack_seq rb =
     (case map_of (rb_buffers rb) peer of
        None \<Rightarrow> (0, rb)
      | Some buf \<Rightarrow>
          (let (ms, tot, removed) = ack_loop ack_seq (pb_messages buf) (pb_total_bytes buf);
               buf' = buf\<lparr>pb_acked_seq := max (pb_acked_seq buf) ack_seq, pb_messages := ms,
                          pb_total_bytes := tot\<rparr>
           in (removed, rb\<lparr>rb_buffers := hm_insert peer buf' (rb_buffers rb)\<rparr>)))"

definition drain_for_retransmit ::
  "node_id \<Rightarrow> nat \<Rightarrow> retransmission_buffer \<Rightarrow> buffered_message list \<times> retransmission_buffer" where
  "drain_for_retransmit peer now rb =
     (let rb1 = snd (handle_overflow peer now rb)
      in (case map_of (rb_buffers rb1) peer of
            None \<Rightarrow> []
          | Some buf \<Rightarrow> filter (\<lambda>m. bm_seq m > pb_acked_seq buf) (pb_messages buf), rb1))"

record buffer_stats =
  bs_buffered_count :: nat
  bs_buffered_bytes :: u64
  bs_next_seq :: u64
  bs_acked_seq :: u64
  bs_unacked_count :: nat

definition rb_stats :: "node_id \<Rightarrow> retransmission_buffer \<Rightarrow> buffer_stats" where
  "rb_stats peer rb =
     (case map_of (rb_buffers rb) peer of
        None \<Rightarrow> \<lparr>bs_buffered_count = 0, bs_buffered_bytes = 0, bs_next_seq = 0, bs_acked_seq = 0,
                 bs_unacked_count = 0\<rparr>
      | Some buf \<Rightarrow>
          \<lparr>bs_buffered_count = length (pb_messages buf), bs_buffered_bytes = pb_total_bytes buf,
           bs_next_seq = pb_next_seq buf, bs_acked_seq = pb_acked_seq buf,
           bs_unacked_count = length (filter (\<lambda>m. bm_seq m > pb_acked_seq buf) (pb_messages buf))\<rparr>)"

definition total_buffered_bytes :: "retransmission_buffer \<Rightarrow> u64" where
  "total_buffered_bytes rb = sum_list (map (\<lambda>(_, buf). pb_total_bytes buf) (rb_buffers rb))"

definition get_ack_seq :: "node_id \<Rightarrow> retransmission_buffer \<Rightarrow> u64" where
  "get_ack_seq peer rb = (case map_of (rb_buffers rb) peer of Some buf \<Rightarrow> pb_acked_seq buf | None \<Rightarrow> 0)"

section \<open>The filter against a set\<close>

text \<open>
  Reference semantics: the numbers already delivered from a peer form a set; the boundary is the
  last number before its first gap.
\<close>

definition first_gap :: "nat set \<Rightarrow> nat" where
  "first_gap D = (LEAST n. Suc n \<notin> D)"

definition spec_accepts :: "nat \<Rightarrow> u64 \<Rightarrow> nat set \<Rightarrow> bool" where
  "spec_accepts w k D \<longleftrightarrow> k \<noteq> 0 \<and> unat k \<notin> D \<and> unat k \<le> first_gap D + w"

fun spec_run ::
  "nat \<Rightarrow> (node_id \<times> u64) list \<Rightarrow> (node_id \<Rightarrow> nat set) \<Rightarrow> bool list \<times> (node_id \<Rightarrow> nat set)" where
  "spec_run w [] D = ([], D)"
| "spec_run w ((p, k) # as) D =
     (let b = spec_accepts w k (D p);
          (bs, D') = spec_run w as (if b then D(p := insert (unat k) (D p)) else D)
      in (b # bs, D'))"

definition seen :: "peer_dedup_state \<Rightarrow> nat set" where
  "seen st = {1..unat (contiguous_seq st)} \<union> unat ` set (out_of_order st)"

definition dedup_ok :: "nat \<Rightarrow> peer_dedup_state \<Rightarrow> bool" where
  "dedup_ok w st \<longleftrightarrow> distinct (out_of_order st) \<and>
     (\<forall>x\<in>set (out_of_order st). unat (contiguous_seq st) + 1 < unat x \<and> unat x \<le> unat (contiguous_seq st) + w)"

lemma unat_succ_saturating:
  assumes "unat (c :: u64) < unat (x :: u64)"
  shows "unat (saturating_add c 1) = unat c + 1"
  using assms unat_bound[of x] by (simp add: u_arith)

lemma advance_ok:
  assumes "\<forall>x\<in>set ooo. unat c < unat x" "distinct ooo" "advance c ooo = (c', ooo')"
  shows "seen \<lparr>contiguous_seq = c', out_of_order = ooo'\<rparr> = seen \<lparr>contiguous_seq = c, out_of_order = ooo\<rparr> \<and>
    (\<forall>x\<in>set ooo'. unat c' + 1 < unat x) \<and> distinct ooo' \<and> unat c \<le> unat c' \<and> set ooo' \<subseteq> set ooo"
  using assms
proof (induction c ooo rule: advance.induct)
  case (1 c ooo)
  define nxt where "nxt = saturating_add c 1"
  show ?case
  proof (cases "nxt \<in> set ooo")
    case True
    have n: "unat nxt = unat c + 1"
      using unat_succ_saturating[of c nxt] 1(2) True by (simp add: nxt_def)
    have gt: "\<forall>x\<in>set (removeAll nxt ooo). unat nxt < unat x"
    proof
      fix x
      assume x: "x \<in> set (removeAll nxt ooo)"
      then have "unat c < unat x" "unat x \<noteq> unat nxt"
        using 1(2) by (auto simp: word_unat_eq_iff[symmetric])
      then show "unat nxt < unat x"
        using n by linarith
    qed
    have "advance nxt (removeAll nxt ooo) = (c', ooo')"
      using 1(4) True by (simp add: advance.simps[of c ooo] nxt_def Let_def)
    then have IH: "seen \<lparr>contiguous_seq = c', out_of_order = ooo'\<rparr> =
        seen \<lparr>contiguous_seq = nxt, out_of_order = removeAll nxt ooo\<rparr>"
      "\<forall>x\<in>set ooo'. unat c' + 1 < unat x" "distinct ooo'" "unat nxt \<le> unat c'"
      "set ooo' \<subseteq> set (removeAll nxt ooo)"
      using 1(1)[OF nxt_def True gt] 1(3) by (auto simp: distinct_removeAll)
    have "{1..unat nxt} = insert (unat nxt) {1..unat c}"
      using n by auto
    then have "seen \<lparr>contiguous_seq = nxt, out_of_order = removeAll nxt ooo\<rparr> =
        seen \<lparr>contiguous_seq = c, out_of_order = ooo\<rparr>"
      using True by (auto simp: seen_def)
    then show ?thesis
      using IH n by auto
  next
    case False
    then have e: "c' = c" "ooo' = ooo"
      using 1(4) by (simp_all add: advance.simps[of c ooo] nxt_def Let_def)
    have "unat c + 1 < unat x" if "x \<in> set ooo" for x
    proof -
      have "unat c < unat x"
        using 1(2) that by blast
      moreover have "unat x \<noteq> unat c + 1"
        using False that unat_succ_saturating[OF \<open>unat c < unat x\<close>] by (metis nxt_def word_unat_eq_iff)
      ultimately show ?thesis
        by linarith
    qed
    then show ?thesis
      using 1(3) by (simp add: e)
  qed
qed

lemma first_gap_seen:
  assumes "dedup_ok w st"
  shows "first_gap (seen st) = unat (contiguous_seq st)"
  unfolding first_gap_def
proof (rule Least_equality)
  show "Suc (unat (contiguous_seq st)) \<notin> seen st"
    using assms by (auto simp: seen_def dedup_ok_def)
  show "unat (contiguous_seq st) \<le> n" if "Suc n \<notin> seen st" for n
    using that by (auto simp: seen_def)
qed

lemma dedup_check_ok:
  assumes "dedup_ok w st" "w < 2 ^ 64" "dedup_check w k st = (b, st')"
  shows "dedup_ok w st' \<and> b = spec_accepts w k (seen st) \<and>
    seen st' = (if b then insert (unat k) (seen st) else seen st) \<and>
    unat (contiguous_seq st) \<le> unat (contiguous_seq st')"
proof -
  let ?c = "contiguous_seq st"
  have dup: "k \<le> ?c \<or> k \<in> set (out_of_order st) \<longleftrightarrow> k = 0 \<or> unat k \<in> seen st"
  proof -
    have "unat k \<in> unat ` set (out_of_order st) \<longleftrightarrow> k \<in> set (out_of_order st)"
      by (auto simp: word_unat_eq_iff[symmetric])
    moreover have "unat k = 0 \<longleftrightarrow> k = 0"
      by (simp add: unat_eq_zero)
    ultimately show ?thesis
      by (auto simp: seen_def word_le_nat_alt)
  qed
  have win: "k > saturating_add ?c (of_nat w) \<longleftrightarrow> \<not> unat k \<le> unat ?c + w"
    using assms(2) unat_bound[of k]
    by (auto simp: word_less_nat_alt u_arith unat_of_nat min_less_iff_disj)
  show ?thesis
  proof (cases "spec_accepts w k (seen st)")
    case False
    then have "dedup_check w k st = (False, st)"
      using dup win first_gap_seen[OF assms(1)] by (auto simp: dedup_check_def spec_accepts_def Let_def)
    then show ?thesis
      using assms(1,3) False by simp
  next
    case True
    then have n: "\<not> (k \<le> ?c \<or> k \<in> set (out_of_order st))" "\<not> k > saturating_add ?c (of_nat w)"
      using dup win first_gap_seen[OF assms(1)] by (auto simp: spec_accepts_def)
    obtain c ooo where adv: "advance ?c (List.insert k (out_of_order st)) = (c, ooo)"
      by fastforce
    then have st': "b = True" "st' = \<lparr>contiguous_seq = c, out_of_order = ooo\<rparr>"
      using assms(3) n by (simp_all add: dedup_check_def Let_def)
    have "unat ?c < unat k" "unat k \<le> unat ?c + w"
      using n win by (simp_all add: word_le_nat_alt)
    then have "\<forall>x\<in>set (List.insert k (out_of_order st)). unat ?c < unat x \<and> unat x \<le> unat ?c + w"
      using assms(1) by (auto simp: dedup_ok_def)
    moreover have "distinct (List.insert k (out_of_order st))"
      using assms(1) by (simp add: dedup_ok_def)
    ultimately show ?thesis
      using advance_ok[OF _ _ adv] True unfolding st'
      by (fastforce simp: dedup_ok_def seen_def)
  qed
qed

text \<open>The whole table, one abstract set per peer.\<close>

definition table_ok :: "deduplication_table \<Rightarrow> bool" where
  "table_ok t \<longleftrightarrow> dt_window_size t < 2 ^ 64 \<and> (\<forall>p. dedup_ok (dt_window_size t) (dedup_peer t p))"

definition table_seen :: "deduplication_table \<Rightarrow> node_id \<Rightarrow> nat set" where
  "table_seen t p = seen (dedup_peer t p)"

lemma dedup_peer_update:
  "dedup_peer (t\<lparr>dt_peers := hm_insert p st (dt_peers t)\<rparr>) q = (if q = p then st else dedup_peer t q)"
  by (simp add: dedup_peer_def update_conv)

lemma last_seen_dedup_peer: "last_seen_seq t p = contiguous_seq (dedup_peer t p)"
  by (simp add: last_seen_seq_def dedup_peer_def peer_dedup_default_def split: option.split)

lemma check_and_update_ok:
  assumes "table_ok t" "check_and_update p k t = (b, t')"
  shows "table_ok t' \<and> dt_window_size t' = dt_window_size t \<and>
    b = spec_accepts (dt_window_size t) k (table_seen t p) \<and>
    table_seen t' = (if b then (table_seen t)(p := insert (unat k) (table_seen t p)) else table_seen t) \<and>
    (\<forall>q. unat (last_seen_seq t q) \<le> unat (last_seen_seq t' q))"
proof -
  obtain st where st: "dedup_check (dt_window_size t) k (dedup_peer t p) = (b, st)"
    and t': "t' = t\<lparr>dt_peers := hm_insert p st (dt_peers t)\<rparr>"
    using assms(2) by (auto simp: check_and_update_def split: prod.splits)
  have "dedup_ok (dt_window_size t) (dedup_peer t p)" "dt_window_size t < 2 ^ 64"
    using assms(1) by (simp_all add: table_ok_def)
  from dedup_check_ok[OF this st] show ?thesis
    using assms(1)
    by (simp add: t' table_ok_def table_seen_def dedup_peer_update last_seen_dedup_peer fun_eq_iff)
qed

lemma dedup_run_ok:
  assumes "table_ok t" "dedup_run as t = (bs, t')"
  shows "table_ok t' \<and> spec_run (dt_window_size t) as (table_seen t) = (bs, table_seen t') \<and>
    dt_window_size t' = dt_window_size t \<and> (\<forall>q. unat (last_seen_seq t q) \<le> unat (last_seen_seq t' q))"
  using assms
proof (induction as arbitrary: t bs)
  case (Cons a as)
  obtain p k where a: "a = (p, k)"
    by fastforce
  obtain b t1 where c: "check_and_update p k t = (b, t1)"
    by fastforce
  obtain bs1 where r: "dedup_run as t1 = (bs1, t')" "bs = b # bs1"
    using Cons.prems(2) c by (auto simp: a split: prod.splits)
  note ok = check_and_update_ok[OF Cons.prems(1) c]
  have "table_ok t1"
    using ok by blast
  from Cons.IH[OF this r(1)] ok show ?case
    unfolding a r(2) by (auto simp: Let_def split: prod.splits) (meson le_trans)+
qed simp

lemma dedup_new_ok: "table_ok dedup_new" "table_seen dedup_new = (\<lambda>_. {})" "dt_window_size dedup_new = 1000"
  by (simp_all add: dedup_new_def table_ok_def table_seen_def dedup_peer_def dedup_ok_def
      peer_dedup_default_def seen_def fun_eq_iff)

lemma last_seen_first_gap: "table_ok t \<Longrightarrow> unat (last_seen_seq t p) = first_gap (table_seen t p)"
  using first_gap_seen[of "dt_window_size t" "dedup_peer t p"]
  by (simp add: table_ok_def table_seen_def last_seen_dedup_peer)

text \<open>What was delivered, and what the abstract run says about it.\<close>

definition delivered :: "(node_id \<times> u64) list \<Rightarrow> bool list \<Rightarrow> (node_id \<times> u64) list" where
  "delivered as bs = map fst (filter snd (zip as bs))"

lemma delivered_simps [simp]:
  "delivered [] bs = []" "delivered (a # as) (b # bs) = (if b then a # delivered as bs else delivered as bs)"
  by (simp_all add: delivered_def)

lemma spec_run_delivered:
  assumes "spec_run w as D = (bs, D')"
  shows "distinct (delivered as bs) \<and> (\<forall>p k. (p, k) \<in> set (delivered as bs) \<longrightarrow> unat k \<notin> D p) \<and>
    (\<forall>p. D' p = D p \<union> {unat k |k. (p, k) \<in> set (delivered as bs)})"
  using assms
proof (induction as arbitrary: D bs)
  case (Cons a as)
  obtain p k where a: "a = (p, k)"
    by fastforce
  define b where "b = spec_accepts w k (D p)"
  define D1 where "D1 = (if b then D(p := insert (unat k) (D p)) else D)"
  obtain bs1 where r: "spec_run w as D1 = (bs1, D')" "bs = b # bs1"
    using Cons.prems by (auto simp: a b_def D1_def Let_def split: prod.splits)
  have IH: "distinct (delivered as bs1)" "\<And>q j. (q, j) \<in> set (delivered as bs1) \<Longrightarrow> unat j \<notin> D1 q"
    "\<And>q. D' q = D1 q \<union> {unat j |j. (q, j) \<in> set (delivered as bs1)}"
    using Cons.IH[OF r(1)] by blast+
  show ?case
  proof (cases b)
    case True
    have "unat k \<notin> D p"
      using True by (simp add: b_def spec_accepts_def)
    moreover have "(p, k) \<notin> set (delivered as bs1)"
      using IH(2)[of p k] True by (auto simp: D1_def)
    moreover have "unat j \<notin> D q" if "(q, j) \<in> set (delivered as bs1)" for q j
      using IH(2)[OF that] by (auto simp: D1_def split: if_splits)
    ultimately show ?thesis
      using IH(1,3) True unfolding a r(2) by (auto simp: D1_def split: if_splits)
  next
    case False
    then show ?thesis
      using IH unfolding a r(2) by (auto simp: D1_def)
  qed
qed simp

lemma below_first_gap:
  assumes "k < Suc (first_gap D)" "0 < k"
  shows "k \<in> D"
proof (rule ccontr)
  assume "k \<notin> D"
  then have "first_gap D \<le> k - 1"
    unfolding first_gap_def using assms(2) by (intro Least_le) simp
  then show False
    using assms by simp
qed

section \<open>The sender's buffer\<close>

text \<open>
  The buffered numbers are consecutive and end just before the next one to be assigned; the byte
  count is the sum of the sizes.
\<close>

definition byte_sum :: "buffered_message list \<Rightarrow> nat" where
  "byte_sum ms = sum_list (map (\<lambda>m. unat (bm_size_bytes m)) ms)"

definition pb_ok :: "peer_buffer \<Rightarrow> bool" where
  "pb_ok buf \<longleftrightarrow> 0 < unat (pb_next_seq buf) \<and> length (pb_messages buf) < unat (pb_next_seq buf) \<and>
     map (unat \<circ> bm_seq) (pb_messages buf) =
       [unat (pb_next_seq buf) - length (pb_messages buf)..<unat (pb_next_seq buf)] \<and>
     unat (pb_total_bytes buf) = byte_sum (pb_messages buf)"

definition within_limits :: "retransmit_config \<Rightarrow> peer_buffer \<Rightarrow> bool" where
  "within_limits cfg buf \<longleftrightarrow> pb_total_bytes buf \<le> max_buffer_bytes cfg \<and>
     length (pb_messages buf) \<le> max_messages_per_peer cfg"

lemma byte_sum_simps [simp]:
  "byte_sum [] = 0" "byte_sum (m # ms) = unat (bm_size_bytes m) + byte_sum ms"
  "byte_sum (xs @ ys) = byte_sum xs + byte_sum ys"
  by (simp_all add: byte_sum_def)

lemma byte_sum_drop: "byte_sum (drop d ms) \<le> byte_sum ms"
  by (metis append_take_drop_id byte_sum_simps(3) le_add2)

text \<open>Each loop removes a prefix and keeps the byte count exact.\<close>

lemma expire_loop_ok:
  assumes "unat tot = byte_sum ms" "expire_loop ttl now ms tot = (ms', tot', d)"
  shows "ms' = drop d ms \<and> d \<le> length ms \<and> unat tot' = byte_sum ms'"
  using assms
proof (induction ms arbitrary: tot d)
  case (Cons m ms)
  then show ?case
    using Cons.IH[of "saturating_sub tot (bm_size_bytes m)"]
    by (auto simp: u_arith split: if_splits prod.splits)
qed simp

lemma trim_loop_ok:
  assumes "unat tot = byte_sum ms" "trim_loop mb mm ms tot = (ms', tot', d)"
  shows "ms' = drop d ms \<and> d \<le> length ms \<and> unat tot' = byte_sum ms' \<and> tot' \<le> mb \<and> length ms' \<le> mm"
  using assms
proof (induction ms arbitrary: tot d)
  case Nil
  then show ?case
    by (simp add: word_le_nat_alt)
next
  case (Cons m ms)
  then show ?case
    using Cons.IH[of "saturating_sub tot (bm_size_bytes m)"]
    by (auto simp: u_arith not_less split: if_splits prod.splits)
qed

lemma ack_loop_ok:
  assumes "unat tot = byte_sum ms" "ack_loop ack ms tot = (ms', tot', d)"
  shows "ms' = drop d ms \<and> d \<le> length ms \<and> unat tot' = byte_sum ms' \<and>
    ms' = dropWhile (\<lambda>m. bm_seq m \<le> ack) ms"
  using assms
proof (induction ms arbitrary: tot d)
  case (Cons m ms)
  then show ?case
    using Cons.IH[of "saturating_sub tot (bm_size_bytes m)"]
    by (auto simp: u_arith split: if_splits prod.splits)
qed simp

lemma pb_ok_drop:
  assumes "pb_ok buf" "d \<le> length (pb_messages buf)" "unat tot = byte_sum (drop d (pb_messages buf))"
  shows "pb_ok (buf\<lparr>pb_messages := drop d (pb_messages buf), pb_total_bytes := tot\<rparr>)"
  using assms by (auto simp: pb_ok_def drop_map[symmetric])

lemma pb_ok_cong:
  "pb_ok buf \<Longrightarrow> pb_messages buf' = pb_messages buf \<Longrightarrow> pb_total_bytes buf' = pb_total_bytes buf \<Longrightarrow>
   pb_next_seq buf' = pb_next_seq buf \<Longrightarrow> pb_ok buf'"
  by (simp add: pb_ok_def)

lemma overflow_peer_ok:
  assumes "pb_ok buf" "overflow_peer cfg now buf = (buf', d)"
  shows "pb_ok buf' \<and> within_limits cfg buf' \<and> d \<le> length (pb_messages buf) \<and>
    buf' = buf\<lparr>pb_messages := drop d (pb_messages buf), pb_total_bytes := pb_total_bytes buf'\<rparr>"
proof -
  obtain ms1 t1 d1 ms2 t2 d2 where
    e: "expire_loop (message_ttl cfg) now (pb_messages buf) (pb_total_bytes buf) = (ms1, t1, d1)" and
    t: "trim_loop (max_buffer_bytes cfg) (max_messages_per_peer cfg) ms1 t1 = (ms2, t2, d2)" and
    b: "buf' = buf\<lparr>pb_messages := ms2, pb_total_bytes := t2\<rparr>" "d = d1 + d2"
    using assms(2) by (auto simp: overflow_peer_def Let_def split: prod.splits)
  have "unat (pb_total_bytes buf) = byte_sum (pb_messages buf)"
    using assms(1) by (simp add: pb_ok_def)
  note e' = expire_loop_ok[OF this e]
  then have "unat t1 = byte_sum ms1"
    by blast
  note t' = trim_loop_ok[OF this t]
  have ms2: "ms2 = drop d (pb_messages buf)" "d \<le> length (pb_messages buf)" "unat t2 = byte_sum ms2"
    using e' t' b(2) by (auto simp: add.commute)
  then show ?thesis
    using pb_ok_drop[OF assms(1) ms2(2), of t2] t' by (auto simp: b(1) within_limits_def)
qed

text \<open>A number is at most the acknowledged one exactly for the removed prefix.\<close>

lemma dropWhile_sorted_filter:
  fixes f :: "'m \<Rightarrow> 'v::linorder"
  assumes "sorted_wrt (<) (map f ms)"
  shows "dropWhile (\<lambda>m. f m \<le> a) ms = filter (\<lambda>m. \<not> f m \<le> a) ms"
  using assms
proof (induction ms)
  case (Cons m ms)
  show ?case
  proof (cases "f m \<le> a")
    case False
    then have "\<forall>x\<in>set ms. \<not> f x \<le> a"
      using Cons.prems by force
    then show ?thesis
      using False by (simp add: filter_id_conv)
  qed (use Cons in simp)
qed simp

lemma pb_ok_sorted: "pb_ok buf \<Longrightarrow> sorted_wrt (<) (map bm_seq (pb_messages buf))"
proof -
  assume "pb_ok buf"
  then have "sorted_wrt (<) (map (unat \<circ> bm_seq) (pb_messages buf))"
    by (simp add: pb_ok_def)
  then show ?thesis
    by (simp add: sorted_wrt_map word_less_nat_alt)
qed

text \<open>The whole buffer: the invariant of every peer, and the peer that an operation touches.\<close>

definition rb_ok :: "retransmission_buffer \<Rightarrow> bool" where
  "rb_ok rb \<longleftrightarrow> (\<forall>p. pb_ok (peer_buffer_of rb p) \<and> within_limits (rb_config rb) (peer_buffer_of rb p))"

lemma peer_buffer_of_insert:
  "peer_buffer_of (rb\<lparr>rb_buffers := hm_insert p buf (rb_buffers rb)\<rparr>) q =
     (if q = p then buf else peer_buffer_of rb q)"
  by (simp add: peer_buffer_of_def update_conv)

lemma handle_overflow_Some:
  assumes "map_of (rb_buffers rb) p = Some buf" "pb_ok buf"
  shows "\<exists>d buf'. snd (handle_overflow p now rb) = rb\<lparr>rb_buffers := hm_insert p buf' (rb_buffers rb)\<rparr> \<and>
    pb_ok buf' \<and> within_limits (rb_config rb) buf' \<and>
    buf' = buf\<lparr>pb_messages := drop d (pb_messages buf), pb_total_bytes := pb_total_bytes buf'\<rparr>"
proof -
  obtain buf' d where o: "overflow_peer (rb_config rb) now buf = (buf', d)"
    by fastforce
  show ?thesis
    using overflow_peer_ok[OF assms(2) o] assms(1) o
    by (intro exI[of _ d] exI[of _ buf']) (simp add: handle_overflow_def)
qed

lemma handle_overflow_ok:
  assumes "rb_ok rb"
  shows "rb_ok (snd (handle_overflow p now rb))"
    and "\<exists>d. pb_messages (peer_buffer_of (snd (handle_overflow p now rb)) p) =
      drop d (pb_messages (peer_buffer_of rb p))"
    and "pb_acked_seq (peer_buffer_of (snd (handle_overflow p now rb)) p) = pb_acked_seq (peer_buffer_of rb p)"
proof -
  have "rb_ok (snd (handle_overflow p now rb)) \<and>
    (\<exists>d. pb_messages (peer_buffer_of (snd (handle_overflow p now rb)) p) =
      drop d (pb_messages (peer_buffer_of rb p))) \<and>
    pb_acked_seq (peer_buffer_of (snd (handle_overflow p now rb)) p) = pb_acked_seq (peer_buffer_of rb p)"
  proof (cases "map_of (rb_buffers rb) p")
    case None
    then show ?thesis
      using assms by (auto simp: handle_overflow_def intro: exI[of _ 0])
  next
    case (Some buf)
    then have b: "peer_buffer_of rb p = buf"
      by (simp add: peer_buffer_of_def)
    then have "pb_ok buf"
      using assms by (auto simp: rb_ok_def)
    from handle_overflow_Some[OF Some this, of now] obtain d buf' where
      o: "snd (handle_overflow p now rb) = rb\<lparr>rb_buffers := hm_insert p buf' (rb_buffers rb)\<rparr>"
      "pb_ok buf'" "within_limits (rb_config rb) buf'"
      "buf' = buf\<lparr>pb_messages := drop d (pb_messages buf), pb_total_bytes := pb_total_bytes buf'\<rparr>"
      by blast
    have m: "pb_messages buf' = drop d (pb_messages buf)" "pb_acked_seq buf' = pb_acked_seq buf"
      using arg_cong[OF o(4), of pb_messages] arg_cong[OF o(4), of pb_acked_seq] by simp_all
    show ?thesis
      using assms o(2,3) m unfolding o(1) by (auto simp: rb_ok_def peer_buffer_of_insert b)
  qed
  then show "rb_ok (snd (handle_overflow p now rb))"
    "\<exists>d. pb_messages (peer_buffer_of (snd (handle_overflow p now rb)) p) =
      drop d (pb_messages (peer_buffer_of rb p))"
    "pb_acked_seq (peer_buffer_of (snd (handle_overflow p now rb)) p) = pb_acked_seq (peer_buffer_of rb p)"
    by blast+
qed

lemma handle_overflow_config [simp]: "rb_config (snd (handle_overflow p now rb)) = rb_config rb"
  by (simp add: handle_overflow_def split: option.split prod.split)

lemma pb_ok_push:
  assumes "pb_ok buf" "checked_add (pb_next_seq buf) 1 = Some nxt"
    and "unat (pb_total_bytes buf) + unat sz < 2 ^ 64"
  shows "pb_ok (buf\<lparr>pb_next_seq := nxt, pb_total_bytes := saturating_add (pb_total_bytes buf) sz,
    pb_messages := pb_messages buf @ [\<lparr>bm_seq = pb_next_seq buf, bm_frame = fr, bm_size_bytes = sz, bm_timestamp = t\<rparr>]\<rparr>)"
proof -
  have n: "unat nxt = unat (pb_next_seq buf) + 1"
    using assms(2) by (simp add: u_arith)
  have l: "length (pb_messages buf) < unat (pb_next_seq buf)"
    using assms(1) by (simp add: pb_ok_def)
  have "unat (saturating_add (pb_total_bytes buf) sz) = byte_sum (pb_messages buf) + unat sz"
    using assms(1,3) by (simp add: pb_ok_def u_arith)
  then show ?thesis
    using assms(1) n l by (simp add: pb_ok_def)
qed

lemma buffer_with_size_ok:
  assumes "rb_ok rb" "unat (max_buffer_bytes (rb_config rb)) + unat sz < 2 ^ 64"
    and "buffer_with_size p fr sz t now rb = (r, rb')"
  shows "rb_ok rb' \<and> rb_config rb' = rb_config rb \<and>
    (case checked_add (pb_next_seq (peer_buffer_of rb p)) 1 of
       None \<Rightarrow> r = Err SequenceExhausted
     | Some nxt \<Rightarrow> r = Ok (pb_next_seq (peer_buffer_of rb p)) \<and> pb_next_seq (peer_buffer_of rb' p) = nxt)"
proof -
  let ?buf = "peer_buffer_of rb p"
  have b: "pb_ok ?buf" "within_limits (rb_config rb) ?buf"
    using assms(1) by (simp_all add: rb_ok_def)
  show ?thesis
  proof (cases "checked_add (pb_next_seq ?buf) 1")
    case None
    then show ?thesis
      using assms(1,3) b by (auto simp: buffer_with_size_def Let_def rb_ok_def peer_buffer_of_insert)
  next
    case (Some nxt)
    let ?m = "\<lparr>bm_seq = pb_next_seq ?buf, bm_frame = fr, bm_size_bytes = sz, bm_timestamp = t\<rparr>"
    let ?buf1 = "?buf\<lparr>pb_next_seq := nxt, pb_total_bytes := saturating_add (pb_total_bytes ?buf) sz,
      pb_messages := pb_messages ?buf @ [?m]\<rparr>"
    let ?rb1 = "rb\<lparr>rb_buffers := hm_insert p ?buf1 (rb_buffers rb)\<rparr>"
    have "unat (pb_total_bytes ?buf) + unat sz < 2 ^ 64"
      using b(2) assms(2) by (simp add: within_limits_def word_le_nat_alt)
    then have ok1: "pb_ok ?buf1"
      using pb_ok_push[OF b(1) Some] by simp
    have "map_of (rb_buffers ?rb1) p = Some ?buf1"
      by (simp add: update_conv)
    from handle_overflow_Some[OF this ok1, of now] obtain d buf' where
      o: "snd (handle_overflow p now ?rb1) = ?rb1\<lparr>rb_buffers := hm_insert p buf' (rb_buffers ?rb1)\<rparr>"
      "pb_ok buf'" "within_limits (rb_config ?rb1) buf'"
      "buf' = ?buf1\<lparr>pb_messages := drop d (pb_messages ?buf1), pb_total_bytes := pb_total_bytes buf'\<rparr>"
      by blast
    have r: "r = Ok (pb_next_seq ?buf)" "rb' = snd (handle_overflow p now ?rb1)"
      using assms(3) Some by (simp_all add: buffer_with_size_def Let_def)
    have "pb_next_seq buf' = nxt"
      using arg_cong[OF o(4), of pb_next_seq] by simp
    then show ?thesis
      using assms(1) o(2,3) Some r(1) unfolding r(2) o(1)
      by (auto simp: rb_ok_def peer_buffer_of_def update_conv split: option.splits)
  qed
qed

lemma process_ack_ok:
  assumes "rb_ok rb" "process_ack p ack rb = (n, rb')"
  shows "rb_ok rb' \<and> rb_config rb' = rb_config rb \<and>
    pb_messages (peer_buffer_of rb' p) = filter (\<lambda>m. bm_seq m > ack) (pb_messages (peer_buffer_of rb p))"
proof (cases "map_of (rb_buffers rb) p")
  case None
  then show ?thesis
    using assms by (simp add: process_ack_def peer_buffer_of_def peer_buffer_new_def)
next
  case (Some buf)
  then have b: "peer_buffer_of rb p = buf" "pb_ok buf" "within_limits (rb_config rb) buf"
    using assms(1) by (auto simp: rb_ok_def peer_buffer_of_def split: option.splits)
  obtain ms tot d where l: "ack_loop ack (pb_messages buf) (pb_total_bytes buf) = (ms, tot, d)"
    using prod_cases3 by blast
  let ?buf = "buf\<lparr>pb_acked_seq := max (pb_acked_seq buf) ack, pb_messages := ms, pb_total_bytes := tot\<rparr>"
  have rb': "rb' = rb\<lparr>rb_buffers := hm_insert p ?buf (rb_buffers rb)\<rparr>"
    using assms(2) Some l by (auto simp: process_ack_def Let_def)
  have "unat (pb_total_bytes buf) = byte_sum (pb_messages buf)"
    using b(2) by (simp add: pb_ok_def)
  note l' = ack_loop_ok[OF this l]
  have "ms = filter (\<lambda>m. bm_seq m > ack) (pb_messages buf)"
    using l' dropWhile_sorted_filter[OF pb_ok_sorted[OF b(2)], of ack] by (auto simp: not_le)
  moreover have "pb_ok ?buf"
    using pb_ok_drop[OF b(2), of d tot] l' by (auto intro: pb_ok_cong)
  moreover have "byte_sum ms \<le> byte_sum (pb_messages buf)"
    using l' byte_sum_drop by blast
  then have "tot \<le> pb_total_bytes buf" "length ms \<le> length (pb_messages buf)"
    using l' b(2) by (simp_all add: word_le_nat_alt pb_ok_def)
  then have "within_limits (rb_config rb) ?buf"
    using b(3) by (auto simp: within_limits_def)
  ultimately show ?thesis
    using assms(1) unfolding rb' by (simp add: rb_ok_def peer_buffer_of_insert b(1))
qed

section \<open>Runs\<close>

datatype rb_op =
    BufferOp node_id frame u64 nat nat
  | AckOp node_id u64
  | DrainOp node_id nat

fun rb_step :: "rb_op \<Rightarrow> retransmission_buffer \<Rightarrow> retransmission_buffer" where
  "rb_step (BufferOp p fr sz t now) rb = snd (buffer_with_size p fr sz t now rb)"
| "rb_step (AckOp p ack) rb = snd (process_ack p ack rb)"
| "rb_step (DrainOp p now) rb = snd (drain_for_retransmit p now rb)"

text \<open>The configured limit leaves room for one more frame below \<^verbatim>\<open>usize::MAX\<close>.\<close>

fun op_fits :: "retransmit_config \<Rightarrow> rb_op \<Rightarrow> bool" where
  "op_fits cfg (BufferOp p fr sz t now) \<longleftrightarrow> unat (max_buffer_bytes cfg) + unat sz < 2 ^ 64"
| "op_fits cfg _ \<longleftrightarrow> True"

lemma rb_step_ok:
  assumes "rb_ok rb" "op_fits (rb_config rb) op"
  shows "rb_ok (rb_step op rb) \<and> rb_config (rb_step op rb) = rb_config rb"
proof (cases op)
  case (BufferOp p fr sz t now)
  then show ?thesis
    using buffer_with_size_ok[OF assms(1), of sz p fr t now] assms(2)
    by (cases "buffer_with_size p fr sz t now rb") simp
next
  case (AckOp p ack)
  then show ?thesis
    using process_ack_ok[OF assms(1), of p ack] by (cases "process_ack p ack rb") simp
next
  case (DrainOp p now)
  then show ?thesis
    using handle_overflow_ok(1)[OF assms(1)] by (simp add: drain_for_retransmit_def Let_def)
qed

lemma rb_run_ok:
  "rb_ok rb \<Longrightarrow> list_all (op_fits (rb_config rb)) ops \<Longrightarrow>
   rb_ok (fold rb_step ops rb) \<and> rb_config (fold rb_step ops rb) = rb_config rb"
  by (induction ops arbitrary: rb) (simp_all add: rb_step_ok)

lemma rb_new_ok: "rb_ok (retransmission_new cfg)"
  by (simp add: rb_ok_def retransmission_new_def peer_buffer_of_def peer_buffer_new_def pb_ok_def
      within_limits_def)

fun buffer_all ::
  "node_id \<Rightarrow> (frame \<times> u64 \<times> nat \<times> nat) list \<Rightarrow> retransmission_buffer \<Rightarrow> (buffer_error + u64) list" where
  "buffer_all p [] rb = []"
| "buffer_all p ((fr, sz, t, now) # fs) rb =
     (let (r, rb1) = buffer_with_size p fr sz t now rb in r # buffer_all p fs rb1)"

lemma buffer_with_size_seq:
  assumes "checked_add (pb_next_seq (peer_buffer_of rb p)) 1 = Some nxt"
  shows "fst (buffer_with_size p fr sz t now rb) = Ok (pb_next_seq (peer_buffer_of rb p))"
    and "pb_next_seq (peer_buffer_of (snd (buffer_with_size p fr sz t now rb)) p) = nxt"
  using assms
  by (simp_all add: buffer_with_size_def Let_def handle_overflow_def overflow_peer_def update_conv
      peer_buffer_of_def split: prod.split)

lemma buffer_all_seqs:
  assumes "unat (pb_next_seq (peer_buffer_of rb p)) + length fs < 2 ^ 64"
  shows "buffer_all p fs rb =
    map (\<lambda>i. Ok (of_nat i)) [unat (pb_next_seq (peer_buffer_of rb p))..<unat (pb_next_seq (peer_buffer_of rb p)) + length fs]"
  using assms
proof (induction fs arbitrary: rb)
  case (Cons f fs)
  obtain fr sz t now where f: "f = (fr, sz, t, now)"
    using prod_cases4 by blast
  let ?n = "pb_next_seq (peer_buffer_of rb p)"
  obtain nxt where nxt: "checked_add ?n 1 = Some nxt"
    using Cons.prems by (simp add: checked_add_def)
  then have n: "unat nxt = unat ?n + 1"
    by (simp add: u_arith)
  obtain r rb1 where b: "buffer_with_size p fr sz t now rb = (r, rb1)"
    by fastforce
  have r: "r = Ok ?n" "pb_next_seq (peer_buffer_of rb1 p) = nxt"
    using buffer_with_size_seq[OF nxt, of fr sz t now] b by simp_all
  have "[unat ?n..<unat ?n + length (f # fs)] = unat ?n # [unat ?n + 1..<unat ?n + 1 + length fs]"
    by (simp add: upt_rec)
  then show ?case
    using Cons.IH[of rb1] Cons.prems b r n by (simp add: f)
qed simp

lemma dedup_run_stale:
  assumes "list_all (\<lambda>k. k \<le> last_seen_seq t p) ks"
  shows "fst (dedup_run (map (Pair p) ks) t) = replicate (length ks) False"
  using assms
proof (induction ks arbitrary: t)
  case (Cons k ks)
  have "dedup_check (dt_window_size t) k (dedup_peer t p) = (False, dedup_peer t p)"
    using Cons.prems by (simp add: dedup_check_def last_seen_dedup_peer)
  then obtain t1 where c: "check_and_update p k t = (False, t1)" "last_seen_seq t1 p = last_seen_seq t p"
    by (auto simp: check_and_update_def last_seen_dedup_peer dedup_peer_update)
  then show ?case
    using Cons.IH[of t1] Cons.prems by (simp add: split_beta)
qed simp

section \<open>Properties\<close>

text \<open>
  (C8) The duplicate filter implements the set of delivered numbers: for every arrival sequence
  it delivers each frame at most once, delivers every frame that is new and within the window of
  the first gap, and acknowledges exactly the numbers before the first gap; it remembers fewer
  frames per peer than its window.
\<close>

theorem dedup_refines_delivered_set:
  assumes "dedup_run as dedup_new = (bs, t)"
  shows "fst (spec_run 1000 as (\<lambda>_. {})) = bs \<and> distinct (delivered as bs) \<and>
    (\<forall>p. unat (last_seen_seq t p) = first_gap {unat k |k. (p, k) \<in> set (delivered as bs)}) \<and>
    (\<forall>p. length (out_of_order (dedup_peer t p)) < 1000)"
proof -
  have ok: "table_ok t" "spec_run 1000 as (\<lambda>_. {}) = (bs, table_seen t)" "dt_window_size t = 1000"
    using dedup_run_ok[OF dedup_new_ok(1) assms] dedup_new_ok by simp_all
  note d = spec_run_delivered[OF ok(2)]
  have "length (out_of_order (dedup_peer t p)) < 1000" for p
  proof -
    let ?o = "out_of_order (dedup_peer t p)" and ?c = "unat (contiguous_seq (dedup_peer t p))"
    have o: "distinct ?o" "unat ` set ?o \<subseteq> {?c + 2..?c + 1000}"
      using ok(1,3) by (fastforce simp: table_ok_def dedup_ok_def)+
    have "inj_on unat (set ?o)"
      by (simp add: inj_on_def word_unat_eq_iff)
    then have "length ?o = card (unat ` set ?o)"
      using o(1) by (simp add: card_image distinct_card)
    also have "\<dots> \<le> card {?c + 2..?c + 1000}"
      using o(2) by (intro card_mono) simp_all
    finally show ?thesis
      by simp
  qed
  then show ?thesis
    using ok(1,2) d last_seen_first_gap[OF ok(1)] by simp
qed

theorem dedup_refines_delivered_set_witness:
  "\<exists>bs t. dedup_run [(NodeId [], 2), (NodeId [], 1), (NodeId [], 2)] dedup_new = (bs, t) \<and> distinct
     (delivered [(NodeId [], 2), (NodeId [], 1), (NodeId [], 2)] bs)"
proof -
  let ?as = "[(NodeId [], 2), (NodeId [], 1), (NodeId [], 2)] :: (node_id \<times> u64) list"
  obtain bs t where r: "dedup_run ?as dedup_new = (bs, t)"
    by fastforce
  show ?thesis
    using dedup_refines_delivered_set[OF r] r by blast
qed

text \<open>
  (C20) The sender's buffer is exact after any sequence of sends, acknowledgements and drains: it
  holds the last numbers it assigned without a gap, its byte count is the sum of the sizes, both
  limits hold, an acknowledgement removes exactly the frames up to its number, and a drain returns,
  in order, exactly the unacknowledged frames among those that have not expired.
\<close>

theorem retransmission_buffer_is_exact:
  assumes "list_all (op_fits cfg) ops"
  shows "let rb = fold rb_step ops (retransmission_new cfg); buf = peer_buffer_of rb p; ms = pb_messages buf
    in map (unat \<circ> bm_seq) ms = [unat (pb_next_seq buf) - length ms..<unat (pb_next_seq buf)] \<and>
       unat (pb_total_bytes buf) = sum_list (map (\<lambda>m. unat (bm_size_bytes m)) ms) \<and>
       pb_total_bytes buf \<le> max_buffer_bytes cfg \<and> length ms \<le> max_messages_per_peer cfg \<and>
       (\<forall>ack. pb_messages (peer_buffer_of (snd (process_ack p ack rb)) p) = filter (\<lambda>m. bm_seq m > ack) ms) \<and>
       (\<forall>now. \<exists>d. fst (drain_for_retransmit p now rb) = filter (\<lambda>m. bm_seq m > pb_acked_seq buf) (drop d ms))"
proof -
  define rb where "rb = fold rb_step ops (retransmission_new cfg)"
  have "rb_config (retransmission_new cfg) = cfg"
    by (simp add: retransmission_new_def)
  then have ok: "rb_ok rb" "rb_config rb = cfg"
    using rb_run_ok[OF rb_new_ok, of cfg ops] assms by (simp_all add: rb_def)
  then have b: "pb_ok (peer_buffer_of rb p)" "within_limits cfg (peer_buffer_of rb p)"
    by (auto simp: rb_ok_def)
  have ack: "pb_messages (peer_buffer_of (snd (process_ack p ack rb)) p) =
      filter (\<lambda>m. bm_seq m > ack) (pb_messages (peer_buffer_of rb p))" for ack
    using process_ack_ok[OF ok(1), of p ack] by (cases "process_ack p ack rb") simp
  have drain: "\<exists>d. fst (drain_for_retransmit p now rb) =
      filter (\<lambda>m. bm_seq m > pb_acked_seq (peer_buffer_of rb p)) (drop d (pb_messages (peer_buffer_of rb p)))" for now
  proof -
    let ?rb = "snd (handle_overflow p now rb)"
    obtain d where d: "pb_messages (peer_buffer_of ?rb p) = drop d (pb_messages (peer_buffer_of rb p))"
      using handle_overflow_ok(2)[OF ok(1), of p now] by blast
    have "fst (drain_for_retransmit p now rb) =
        filter (\<lambda>m. bm_seq m > pb_acked_seq (peer_buffer_of ?rb p)) (pb_messages (peer_buffer_of ?rb p))"
      by (simp add: drain_for_retransmit_def Let_def peer_buffer_of_def peer_buffer_new_def split: option.split)
    then show ?thesis
      unfolding d handle_overflow_ok(3)[OF ok(1)] by blast
  qed
  show ?thesis
    unfolding Let_def rb_def[symmetric]
    using b ack drain by (simp add: pb_ok_def within_limits_def byte_sum_def)
qed

theorem retransmission_buffer_is_exact_witness:
  "let rb = fold rb_step [BufferOp (NodeId []) (User []) 10 0 0, BufferOp (NodeId []) (User [1]) 11 0 0,
          AckOp (NodeId []) 1] (retransmission_new retransmit_config_default)
   in pb_total_bytes (peer_buffer_of rb (NodeId [])) \<le> max_buffer_bytes retransmit_config_default"
proof -
  have "list_all (op_fits retransmit_config_default) [BufferOp (NodeId []) (User []) 10 0 0,
      BufferOp (NodeId []) (User [1]) 11 0 0, AckOp (NodeId []) 1]"
    by (simp add: retransmit_config_default_def)
  from retransmission_buffer_is_exact[OF this, of "NodeId []"] show ?thesis
    unfolding Let_def by blast
qed

text \<open>
  (C32) A restarted node is not heard: its numbers start again at one, while the receiver's filter
  for that node identifier is never reset, so as many frames as the old process had delivered are
  discarded as duplicates.
\<close>

theorem restarted_peer_is_silenced:
  assumes "length fs \<le> unat (last_seen_seq t p)" "1 + length fs < 2 ^ 64"
  shows "\<exists>ks. buffer_all p' fs (retransmission_new cfg) = map Ok ks \<and>
    fst (dedup_run (map (Pair p) ks) t) = replicate (length fs) False"
proof -
  define ks :: "u64 list" where "ks = map of_nat [1..<1 + length fs]"
  have "peer_buffer_of (retransmission_new cfg) p' = peer_buffer_new"
    by (simp add: peer_buffer_of_def retransmission_new_def)
  then have "buffer_all p' fs (retransmission_new cfg) = map Ok ks"
    using buffer_all_seqs[of "retransmission_new cfg" p' fs] assms(2)
    by (simp add: peer_buffer_new_def comp_def ks_def del: upt.simps)
  moreover have "list_all (\<lambda>k. k \<le> last_seen_seq t p) ks"
    using assms by (auto simp: list_all_iff word_le_nat_alt unat_of_nat ks_def)
  moreover have "length ks = length fs"
    by (simp add: ks_def del: upt.simps)
  ultimately show ?thesis
    using dedup_run_stale[of t p ks] by (intro exI[of _ ks]) simp
qed

theorem restarted_peer_is_silenced_witness:
  "\<exists>ks. buffer_all (NodeId [2]) [(User [], 10, 0, 0)] (retransmission_new retransmit_config_default) = map Ok ks \<and>
     fst (dedup_run (map (Pair (NodeId [1])) ks) (snd (check_and_update (NodeId [1]) 1 dedup_new))) = [False]"
proof -
  have "last_seen_seq (snd (check_and_update (NodeId [1]) 1 dedup_new)) (NodeId [1]) = 1"
    by (simp add: check_and_update_def dedup_new_def dedup_check_def dedup_peer_def peer_dedup_default_def
        saturating_add_def advance.simps last_seen_seq_def update_conv Let_def)
  then show ?thesis
    using restarted_peer_is_silenced[of "[(User [], 10, 0, 0)]"
        "snd (check_and_update (NodeId [1]) 1 dedup_new)" "NodeId [1]" "NodeId [2]" retransmit_config_default]
    by simp
qed

text \<open>
  One frame that never arrives blocks its sender for good: if the number \<open>k\<close> is missing from
  the arrivals, the boundary stays below it and nothing numbered a window or more above it is ever
  delivered.  The sender's buffer does drop unacknowledged frames, by age and by size.
\<close>

theorem missing_frame_blocks_sender:
  assumes "dedup_run as dedup_new = (bs, t)" "(p, k) \<notin> set as" "0 < k"
  shows "unat (last_seen_seq t p) < unat k \<and>
    (\<forall>j. (p, j) \<in> set (delivered as bs) \<longrightarrow> unat j < unat k + 1000)"
proof -
  have ok: "table_ok t" "spec_run 1000 as (\<lambda>_. {}) = (bs, table_seen t)" "dt_window_size t = 1000"
    using dedup_run_ok[OF dedup_new_ok(1) assms(1)] dedup_new_ok by simp_all
  note d = spec_run_delivered[OF ok(2)]
  have "set (delivered as bs) \<subseteq> set as"
    by (auto simp: delivered_def dest: set_zip_leftD)
  then have k: "unat k \<notin> table_seen t p"
    using d assms(2) by (auto simp: word_unat_eq_iff[symmetric])
  have "0 < unat k"
    using assms(3) by (simp add: word_less_nat_alt)
  then have c: "unat (last_seen_seq t p) < unat k"
    using k below_first_gap[of "unat k" "table_seen t p"] last_seen_first_gap[OF ok(1), of p] by force
  have "unat j < unat k + 1000" if "(p, j) \<in> set (delivered as bs)" for j
  proof -
    have "unat j \<in> seen (dedup_peer t p)"
      using d that by (auto simp: table_seen_def)
    moreover have "dedup_ok 1000 (dedup_peer t p)"
      using ok(1,3) by (auto simp: table_ok_def)
    ultimately have "unat j \<le> unat (last_seen_seq t p) + 1000"
      by (auto simp: seen_def dedup_ok_def last_seen_dedup_peer)
    then show ?thesis
      using c by linarith
  qed
  then show ?thesis
    using c by blast
qed

theorem missing_frame_blocks_sender_witness:
  "\<exists>bs t. dedup_run [(NodeId [], 2), (NodeId [], 1001)] dedup_new = (bs, t) \<and>
     unat (last_seen_seq t (NodeId [])) < unat (1 :: u64) \<and>
     (\<forall>j. (NodeId [], j) \<in> set (delivered [(NodeId [], 2), (NodeId [], 1001)] bs) \<longrightarrow> unat j < unat (1 :: u64) + 1000)"
proof -
  let ?as = "[(NodeId [], 2), (NodeId [], 1001)] :: (node_id \<times> u64) list"
  obtain bs t where r: "dedup_run ?as dedup_new = (bs, t)"
    by fastforce
  show ?thesis
    using missing_frame_blocks_sender[OF r, of "NodeId []" 1] r by auto
qed

end
