(* ===== verification/Transport.thy ===== *)
theory Transport
  imports Retransmit "HOL-Library.Sublist"
begin

text \<open>
  The QUIC transport of \<^verbatim>\<open>chirps-transport-quic/src\<close> (\<^verbatim>\<open>lib.rs\<close>, \<^verbatim>\<open>handshake.rs\<close>,
  \<^verbatim>\<open>receive.rs\<close>): stream kinds, capability negotiation, the connection table, sending with
  sequence numbers and retry, and the receive path with duplicate filtering.  A unidirectional QUIC
  stream is the list of its bytes up to the end; the serialiser and the outcome of writing a stream
  are parameters.  Metrics and events are not modelled.
\<close>

section \<open>Stream kinds\<close>

datatype transport_error =
    ConnectionError string
  | TlsError string
  | SendError string
  | SubscribeError string
  | IoError string
  | TimeoutError string
  | InvalidStreamKind u8
  | NotImplementedError string

datatype stream_kind = KControl | KGossip | KUser | KRaft | KRaftSnapshot | KFileTransfer

fun stream_kind_code :: "stream_kind \<Rightarrow> u8" where
  "stream_kind_code KControl = 0"
| "stream_kind_code KGossip = 1"
| "stream_kind_code KUser = 2"
| "stream_kind_code KRaft = 3"
| "stream_kind_code KRaftSnapshot = 4"
| "stream_kind_code KFileTransfer = 5"

definition stream_kind_try_from :: "u8 \<Rightarrow> transport_error + stream_kind" where
  "stream_kind_try_from v =
     (if v = 0 then Ok KControl else if v = 1 then Ok KGossip else if v = 2 then Ok KUser
      else if v = 3 then Ok KRaft else if v = 4 then Ok KRaftSnapshot else if v = 5 then Ok KFileTransfer
      else Err (InvalidStreamKind v))"

datatype priority = High | Normal | Low

fun kind_priority :: "stream_kind \<Rightarrow> priority" where
  "kind_priority KControl = High"
| "kind_priority KRaft = High"
| "kind_priority KGossip = Normal"
| "kind_priority KRaftSnapshot = Normal"
| "kind_priority KFileTransfer = Normal"
| "kind_priority KUser = Low"

fun requires_ack :: "stream_kind \<Rightarrow> bool" where
  "requires_ack KControl = True"
| "requires_ack KRaft = True"
| "requires_ack KRaftSnapshot = True"
| "requires_ack KFileTransfer = True"
| "requires_ack _ = False"

fun stream_kind_for_frame :: "frame \<Rightarrow> stream_kind" where
  "stream_kind_for_frame (Raft _) = KRaft"
| "stream_kind_for_frame (RaftSnapshot _) = KRaftSnapshot"
| "stream_kind_for_frame (User _) = KUser"
| "stream_kind_for_frame (FileTransfer _ _) = KFileTransfer"
| "stream_kind_for_frame _ = KGossip"

section \<open>Handshake\<close>

definition PROTOCOL_VERSION :: u16 where
  "PROTOCOL_VERSION = 6"

record capabilities =
  cap_priority_streams :: bool
  cap_retransmission :: bool
  cap_qos :: bool
  cap_multi_raft :: bool

record handshake_message =
  hm_version :: u16
  hm_node_id :: node_id
  hm_capabilities :: capabilities

definition handshake_new :: "node_id \<Rightarrow> handshake_message" where
  "handshake_new n =
     \<lparr>hm_version = PROTOCOL_VERSION, hm_node_id = n,
      hm_capabilities = \<lparr>cap_priority_streams = True, cap_retransmission = True, cap_qos = True,
                        cap_multi_raft = True\<rparr>\<rparr>"

definition is_compatible :: "handshake_message \<Rightarrow> bool" where
  "is_compatible m = (hm_version m = PROTOCOL_VERSION)"

datatype handshake_error = VersionMismatchError u16 u16 | IncompatibleCapabilities

definition negotiate :: "handshake_message \<Rightarrow> handshake_message \<Rightarrow> handshake_error + capabilities" where
  "negotiate l r =
     (if \<not> is_compatible l \<or> \<not> is_compatible r \<or> hm_version l \<noteq> hm_version r
      then Err (VersionMismatchError (hm_version l) (hm_version r))
      else if \<not> cap_multi_raft (hm_capabilities l) \<or> \<not> cap_multi_raft (hm_capabilities r)
      then Err IncompatibleCapabilities
      else Ok \<lparr>cap_priority_streams = cap_priority_streams (hm_capabilities l) \<and> cap_priority_streams (hm_capabilities r),
               cap_retransmission = cap_retransmission (hm_capabilities l) \<and> cap_retransmission (hm_capabilities r),
               cap_qos = cap_qos (hm_capabilities l) \<and> cap_qos (hm_capabilities r),
               cap_multi_raft = True\<rparr>)"

definition ensure_capabilities :: "stream_kind \<Rightarrow> capabilities \<Rightarrow> transport_error + unit" where
  "ensure_capabilities kind caps =
     (if (kind = KRaft \<or> kind = KRaftSnapshot) \<and> \<not> cap_priority_streams caps
      then Err (ConnectionError ''peer lacks priority_streams capability'')
      else if requires_ack kind \<and> \<not> cap_retransmission caps
      then Err (ConnectionError ''peer lacks retransmission capability'')
      else if \<not> cap_qos caps \<and> kind \<noteq> KControl
      then Err (ConnectionError ''peer lacks qos capability'')
      else Ok ())"

section \<open>Connections\<close>

text \<open>
  A connection is its stable identifier; \<open>qb_closed\<close> lists the connections closed by either side.
  \<open>qb_batch\<close> holds the open Raft batch streams (bytes written, envelopes), \<open>qb_wire\<close> the
  finished streams that were handed to QUIC, \<open>qb_incoming\<close> and \<open>qb_file_streams\<close> the
  channels to the consumers.
\<close>

record quic_backend =
  qb_connections :: "(node_id \<times> nat) list"
  qb_last_activity :: "(node_id \<times> nat) list"
  qb_capabilities :: "(node_id \<times> capabilities) list"
  qb_closed :: "nat list"
  qb_buffer :: retransmission_buffer
  qb_dedup :: deduplication_table
  qb_batch :: "(node_id \<times> bytes \<times> nat) list"
  qb_batch_size :: nat
  qb_max_connections :: nat
  qb_wire :: "(node_id \<times> bytes) list"
  qb_incoming :: "(node_id \<times> frame) list"
  qb_file_streams :: "(node_id \<times> bytes) list"

definition connection_limit_reached :: "nat \<Rightarrow> bool \<Rightarrow> nat \<Rightarrow> bool" where
  "connection_limit_reached current is_new_peer limit = (is_new_peer \<and> current \<ge> limit)"

definition is_idle_expired :: "nat \<Rightarrow> nat \<Rightarrow> nat \<Rightarrow> bool" where
  "is_idle_expired now last_act timeout = (now - last_act \<ge> timeout)"

definition remove_connection_if_current :: "node_id \<Rightarrow> nat \<Rightarrow> quic_backend \<Rightarrow> bool \<times> quic_backend" where
  "remove_connection_if_current remote_id stable_id b =
     (if map_of (qb_connections b) remote_id = Some stable_id
      then (True, b\<lparr>qb_connections := hm_remove remote_id (qb_connections b),
                    qb_last_activity := hm_remove remote_id (qb_last_activity b),
                    qb_capabilities := hm_remove remote_id (qb_capabilities b)\<rparr>)
      else (False, b))"

text \<open>One tick of the idle eviction loop.\<close>

definition evict_one :: "node_id \<Rightarrow> quic_backend \<Rightarrow> quic_backend" where
  "evict_one remote_id b =
     (case map_of (qb_connections b) remote_id of
        None \<Rightarrow> b
      | Some stable_id \<Rightarrow>
          (let (removed, b1) = remove_connection_if_current remote_id stable_id b
           in if removed then b1\<lparr>qb_closed := stable_id # qb_closed b1\<rparr> else b1))"

definition idle_eviction_tick :: "nat \<Rightarrow> nat \<Rightarrow> quic_backend \<Rightarrow> quic_backend" where
  "idle_eviction_tick now idle_timeout b =
     (let stale = map fst (filter (\<lambda>(_, last_act). is_idle_expired now last_act idle_timeout) (qb_last_activity b))
      in fold evict_one stale b)"

text \<open>
  A health probe of a peer; \<open>probe\<close> is whether the peer echoed it in time.
\<close>

definition health_check_peer :: "node_id \<Rightarrow> bool \<Rightarrow> quic_backend \<Rightarrow> bool \<times> quic_backend" where
  "health_check_peer target probe b =
     (case map_of (qb_connections b) target of
        None \<Rightarrow> (False, b)
      | Some stable_id \<Rightarrow>
          (let healthy = (if stable_id \<in> set (qb_closed b) then False else probe)
           in if healthy then (True, b)
              else let (removed, b1) = remove_connection_if_current target stable_id b
                   in (False, if removed
                              then b1\<lparr>qb_batch := hm_remove target (qb_batch b1),
                                      qb_closed := stable_id # qb_closed b1\<rparr>
                              else b1)))"

text \<open>One round of the health check loop over the peers connected when it starts.\<close>

definition health_check_round :: "(node_id \<Rightarrow> bool) \<Rightarrow> quic_backend \<Rightarrow> quic_backend" where
  "health_check_round probes b =
     fold (\<lambda>peer. snd \<circ> health_check_peer peer (probes peer)) (map fst (qb_connections b)) b"

section \<open>Sending\<close>

text \<open>
  How the write of a stream ends.  A failure or a timeout ends the write after some of its bytes: \<open>reached\<close>
  counts those that QUIC accepted.  A plain stream that was cut short is of no use to the peer, so
  only a complete one counts as sent, also when the sender was told of a failure.  The bytes of an open Raft
  batch stream can be read by the peer before the stream is finished.
\<close>

datatype write_outcome = Written | WriteFailed string nat | TimedOut nat

definition RAFT_BATCH_STREAM_MAGIC :: u8 where
  "RAFT_BATCH_STREAM_MAGIC = 0xB7"

definition send_batched_envelope ::
  "node_id \<Rightarrow> bytes \<Rightarrow> write_outcome \<Rightarrow> quic_backend \<Rightarrow> (transport_error + unit) \<times> quic_backend" where
  "send_batched_envelope target encoded out b =
     (if length encoded \<ge> 2 ^ 32 then (Err (SendError ''raft envelope exceeds u32 length''), b)
      else
        let (content, n) = (case map_of (qb_batch b) target of
              Some batch \<Rightarrow> batch | None \<Rightarrow> ([RAFT_BATCH_STREAM_MAGIC], 0));
            chunk = to_be_bytes (of_nat (length encoded) :: u32) @ encoded;
            content' = content @ chunk
        in case out of
             WriteFailed e _ \<Rightarrow> (Err (SendError e), b\<lparr>qb_batch := hm_remove target (qb_batch b)\<rparr>)
           | TimedOut reached \<Rightarrow>
               (Err (TimeoutError ''send timed out''),
                b\<lparr>qb_batch := hm_insert target (content @ take reached chunk, n) (qb_batch b)\<rparr>)
           | Written \<Rightarrow>
               if n + 1 \<ge> qb_batch_size b
               then (Ok (), b\<lparr>qb_batch := hm_remove target (qb_batch b),
                              qb_wire := qb_wire b @ [(target, content')]\<rparr>)
               else (Ok (), b\<lparr>qb_batch := hm_insert target (content', n + 1) (qb_batch b)\<rparr>))"

definition send_envelope_bytes ::
  "node_id \<Rightarrow> bytes \<Rightarrow> write_outcome \<Rightarrow> quic_backend \<Rightarrow> (transport_error + unit) \<times> quic_backend" where
  "send_envelope_bytes target bs out b =
     (case out of
        Written \<Rightarrow> (Ok (), b\<lparr>qb_wire := qb_wire b @ [(target, bs)]\<rparr>)
      | WriteFailed e reached \<Rightarrow>
          (Err (SendError e), if reached \<ge> length bs then b\<lparr>qb_wire := qb_wire b @ [(target, bs)]\<rparr> else b)
      | TimedOut reached \<Rightarrow>
          (Err (TimeoutError ''send timed out''),
           if reached \<ge> length bs then b\<lparr>qb_wire := qb_wire b @ [(target, bs)]\<rparr> else b))"

text \<open>
  \<open>clock\<close> gives the readings of one attempt: activity, message, overflow check (nanoseconds) and
  the envelope's wall-clock timestamp.
\<close>

record send_clock =
  sc_activity :: nat
  sc_pushed :: nat
  sc_overflow :: nat
  sc_timestamp :: u64

definition send_to_peer ::
  "(frame \<Rightarrow> string + bytes) \<Rightarrow> node_id \<Rightarrow> frame \<Rightarrow> send_clock \<Rightarrow> write_outcome \<Rightarrow> quic_backend
     \<Rightarrow> (transport_error + unit) \<times> quic_backend" where
  "send_to_peer ser target fr clock out b =
     (case map_of (qb_connections b) target of
        None \<Rightarrow> (Err (ConnectionError ''peer not connected''), b)
      | Some stable_id \<Rightarrow>
          if stable_id \<in> set (qb_closed b)
          then let (removed, b1) = remove_connection_if_current target stable_id b
               in (Err (ConnectionError ''peer connection is closed''),
                   if removed then b1\<lparr>qb_batch := hm_remove target (qb_batch b1)\<rparr> else b1)
          else
            let b1 = b\<lparr>qb_last_activity := hm_insert target (sc_activity clock) (qb_last_activity b)\<rparr>;
                kind = stream_kind_for_frame fr
            in case map_of (qb_capabilities b1) target of
                 None \<Rightarrow> (Err (ConnectionError ''peer capabilities unknown''), b1)
               | Some caps \<Rightarrow>
                   (case ensure_capabilities kind caps of
                      Inl e \<Rightarrow> (Err e, b1)
                    | Inr _ \<Rightarrow>
                        (case ser fr of
                           Inl e \<Rightarrow> (Err (SendError e), b1)
                         | Inr body \<Rightarrow>
                             if length body \<ge> 2 ^ 32
                             then (Err (SendError ''frame exceeds u32 payload length''), b1)
                             else
                               let (r, rb) = buffer_with_size target fr (of_nat (length body))
                                               (sc_pushed clock) (sc_overflow clock) (qb_buffer b1);
                                   b2 = b1\<lparr>qb_buffer := rb\<rparr>
                               in case r of
                                    Inl _ \<Rightarrow> (Err (SendError ''retransmit buffer error''), b2)
                                  | Inr seq \<Rightarrow>
                                      let env = \<lparr>env_kind = stream_kind_code kind, env_seq = seq,
                                                 env_ack_seq = last_seen_seq (qb_dedup b2) target,
                                                 env_timestamp = sc_timestamp clock,
                                                 env_payload_len = of_nat (length body), env_frame = fr\<rparr>;
                                          encoded = encode_with_payload env body
                                      in if kind = KRaft \<and> qb_batch_size b2 > 1
                                         then send_batched_envelope target encoded out b2
                                         else send_envelope_bytes target encoded out b2)))"

definition SEND_RETRY_ATTEMPTS :: nat where
  "SEND_RETRY_ATTEMPTS = 1"

text \<open>\<^verbatim>\<open>send_with_retry\<close>: only a timeout is retried; \<open>outs\<close> are the outcomes of the attempts.\<close>

fun send_retry_loop ::
  "(frame \<Rightarrow> string + bytes) \<Rightarrow> node_id \<Rightarrow> frame \<Rightarrow> (nat \<Rightarrow> send_clock) \<Rightarrow> (nat \<Rightarrow> write_outcome)
     \<Rightarrow> nat \<Rightarrow> nat \<Rightarrow> quic_backend \<Rightarrow> (transport_error + unit) \<times> quic_backend" where
  "send_retry_loop ser target fr clocks outs attempts 0 b =
     send_to_peer ser target fr (clocks attempts) (outs attempts) b"
| "send_retry_loop ser target fr clocks outs attempts (Suc left) b =
     (let (r, b1) = send_to_peer ser target fr (clocks attempts) (outs attempts) b
      in if r = Err (TimeoutError ''send timed out'')
         then send_retry_loop ser target fr clocks outs (attempts + 1) left b1
         else (r, b1))"

definition send_with_retry ::
  "(frame \<Rightarrow> string + bytes) \<Rightarrow> node_id \<Rightarrow> frame \<Rightarrow> (nat \<Rightarrow> send_clock) \<Rightarrow> (nat \<Rightarrow> write_outcome)
     \<Rightarrow> quic_backend \<Rightarrow> (transport_error + unit) \<times> quic_backend" where
  "send_with_retry ser target fr clocks outs b =
     send_retry_loop ser target fr clocks outs 0 SEND_RETRY_ATTEMPTS b"

text \<open>\<^verbatim>\<open>broadcast_to_peers\<close> over the connection table; failures are counted out, not reported.\<close>

fun broadcast_loop ::
  "(frame \<Rightarrow> string + bytes) \<Rightarrow> frame \<Rightarrow> (node_id \<Rightarrow> send_clock) \<Rightarrow> (node_id \<Rightarrow> write_outcome)
     \<Rightarrow> node_id list \<Rightarrow> quic_backend \<Rightarrow> nat \<times> quic_backend" where
  "broadcast_loop ser fr clocks outs [] b = (0, b)"
| "broadcast_loop ser fr clocks outs (p # ps) b =
     (let (r, b1) = send_to_peer ser p fr (clocks p) (outs p) b;
          (n, b2) = broadcast_loop ser fr clocks outs ps b1
      in (case r of Inl _ \<Rightarrow> n | Inr _ \<Rightarrow> n + 1, b2))"

definition broadcast_to_peers ::
  "(frame \<Rightarrow> string + bytes) \<Rightarrow> frame \<Rightarrow> (node_id \<Rightarrow> send_clock) \<Rightarrow> (node_id \<Rightarrow> write_outcome)
     \<Rightarrow> quic_backend \<Rightarrow> nat \<times> quic_backend" where
  "broadcast_to_peers ser fr clocks outs b =
     broadcast_loop ser fr clocks outs (map fst (qb_connections b)) b"

section \<open>Receiving\<close>

definition MAX_ENVELOPE_SIZE :: nat where
  "MAX_ENVELOPE_SIZE = 256 * 1024"

definition CHUNK_STREAM_MAGIC :: u8 where
  "CHUNK_STREAM_MAGIC = 0x46"

definition MAX_BATCH_ENVELOPES_PER_STREAM :: nat where
  "MAX_BATCH_ENVELOPES_PER_STREAM = 1024"

definition process_envelope ::
  "node_id \<Rightarrow> frame_envelope_v2 \<Rightarrow> quic_backend \<Rightarrow> (transport_error + unit) \<times> quic_backend" where
  "process_envelope peer env b =
     (case stream_kind_try_from (env_kind env) of
        Inl e \<Rightarrow> (Err e, b)
      | Inr _ \<Rightarrow>
          (let (fresh, dedup) = check_and_update peer (env_seq env) (qb_dedup b); b1 = b\<lparr>qb_dedup := dedup\<rparr>
           in if \<not> fresh then (Ok (), b1)
              else (Ok (), b1\<lparr>qb_buffer := snd (process_ack peer (env_ack_seq env) (qb_buffer b1)),
                              qb_incoming := qb_incoming b1 @ [(peer, env_frame env)]\<rparr>)))"

text \<open>
  The loop over a Raft batch stream; \<open>count\<close> is the number of envelopes processed.
\<close>

function batch_loop ::
  "(bytes \<Rightarrow> string + frame) \<Rightarrow> node_id \<Rightarrow> nat \<Rightarrow> bytes \<Rightarrow> quic_backend \<Rightarrow> (transport_error + unit) \<times> quic_backend" where
  "batch_loop de peer count bs b =
     (if bs = [] then (Ok (), b)
      else if length bs < 4 then (Err (IoError ''truncated raft batch length''), b)
      else
        let len = unat (from_be_bytes (slice_range bs 0 4) :: u32); rest = drop 4 bs
        in if \<not> (FRAME_ENVELOPE_V2_HEADER_SIZE \<le> len \<and> len \<le> MAX_ENVELOPE_SIZE)
           then (Err (IoError ''invalid raft batch envelope length''), b)
           else if length rest < len then (Err (IoError ''truncated raft batch envelope''), b)
           else case envelope_decode de (take len rest) of
                  Inl _ \<Rightarrow> (Err (IoError ''decode''), b)
                | Inr env \<Rightarrow>
                    (let (r, b1) = process_envelope peer env b
                     in case r of
                          Inl e \<Rightarrow> (Err e, b1)
                        | Inr _ \<Rightarrow>
                            if count + 1 > MAX_BATCH_ENVELOPES_PER_STREAM
                            then (Err (IoError ''raft batch stream envelope limit exceeded''), b1)
                            else batch_loop de peer (count + 1) (drop len rest) b1))"
  by pat_completeness auto
termination
  by (relation "measure (\<lambda>(_, _, _, bs, _). length bs)") auto

declare batch_loop.simps [simp del]

definition handle_stream ::
  "(bytes \<Rightarrow> string + frame) \<Rightarrow> node_id \<Rightarrow> bytes \<Rightarrow> quic_backend \<Rightarrow> (transport_error + unit) \<times> quic_backend" where
  "handle_stream de peer bs b =
     (case bs of
        [] \<Rightarrow> (Err (IoError ''stream finished early''), b)
      | first_byte # remaining \<Rightarrow>
          if first_byte = CHUNK_STREAM_MAGIC
          then (Ok (), b\<lparr>qb_file_streams := qb_file_streams b @ [(peer, remaining)]\<rparr>)
          else if first_byte = RAFT_BATCH_STREAM_MAGIC then batch_loop de peer 0 remaining b
          else if length remaining > MAX_ENVELOPE_SIZE - 1 then (Err (IoError ''stream too long''), b)
          else if length bs < FRAME_ENVELOPE_V2_HEADER_SIZE then (Err (IoError ''empty stream''), b)
          else case envelope_decode de bs of
                 Inl _ \<Rightarrow> (Err (IoError ''decode''), b)
               | Inr env \<Rightarrow> process_envelope peer env b)"

section \<open>Connection set-up\<close>

text \<open>
  \<^verbatim>\<open>handle_connection\<close> up to its receive loop: negotiation, the connection limit, replacement of
  an older connection, and retransmission of what the peer has not acknowledged.  \<open>recv\<close> is the
  outcome of the handshake exchange, \<open>body\<close> the serialiser as \<^verbatim>\<open>FrameEnvelopeV2::encode\<close> uses it.
\<close>

definition retransmit_envelope ::
  "(frame \<Rightarrow> bytes) \<Rightarrow> u64 \<Rightarrow> u64 \<Rightarrow> buffered_message \<Rightarrow> bytes" where
  "retransmit_envelope body ack_seq timestamp m =
     envelope_encode body
       \<lparr>env_kind = stream_kind_code (stream_kind_for_frame (bm_frame m)), env_seq = bm_seq m,
        env_ack_seq = ack_seq, env_timestamp = timestamp,
        env_payload_len = of_nat (length (body (bm_frame m))), env_frame = bm_frame m\<rparr>"

definition handle_connection ::
  "(frame \<Rightarrow> bytes) \<Rightarrow> node_id \<Rightarrow> nat \<Rightarrow> transport_error + handshake_message \<Rightarrow> nat \<Rightarrow> u64
     \<Rightarrow> (nat \<Rightarrow> bool) \<Rightarrow> quic_backend \<Rightarrow> (transport_error + node_id) \<times> quic_backend" where
  "handle_connection body local_id stable_id recv now timestamp sent_ok b =
     (case recv of
        Inl e \<Rightarrow> (Err e, b)
      | Inr remote_msg \<Rightarrow>
          if \<not> is_compatible remote_msg then (Err (ConnectionError ''version mismatch''), b)
          else case negotiate (handshake_new local_id) remote_msg of
            Inl (VersionMismatchError _ _) \<Rightarrow> (Err (ConnectionError ''version mismatch''), b)
          | Inl IncompatibleCapabilities \<Rightarrow> (Err (ConnectionError ''handshake failed''), b)
          | Inr negotiated \<Rightarrow>
              let remote_id = hm_node_id remote_msg;
                  previous = map_of (qb_connections b) remote_id
              in if connection_limit_reached (length (qb_connections b)) (previous = None) (qb_max_connections b)
                 then (Err (ConnectionError ''maximum established connections reached''),
                       b\<lparr>qb_closed := stable_id # qb_closed b\<rparr>)
                 else
                   let closed = (case previous of
                          Some old \<Rightarrow> if old \<noteq> stable_id then old # qb_closed b else qb_closed b
                        | None \<Rightarrow> qb_closed b);
                       b1 = b\<lparr>qb_closed := closed,
                              qb_connections := hm_insert remote_id stable_id (qb_connections b),
                              qb_last_activity := hm_insert remote_id now (qb_last_activity b),
                              qb_capabilities := hm_insert remote_id negotiated (qb_capabilities b)\<rparr>;
                       (messages, rb) = drain_for_retransmit remote_id now (qb_buffer b1);
                       ack_seq = last_seen_seq (qb_dedup b1) remote_id;
                       streams = map (\<lambda>i. (remote_id, retransmit_envelope body ack_seq timestamp (messages ! i)))
                                   (filter sent_ok [0..<length messages])
                   in (Ok remote_id, b1\<lparr>qb_buffer := rb, qb_wire := qb_wire b1 @ streams\<rparr>))"

text \<open>
  The loop that serves an established connection: a unidirectional stream is activity of the peer and goes to the
  receiver; the end of the connection, or a shutdown, removes it if it is still the current one.
\<close>

datatype connection_event = AcceptedStream nat bytes | ConnectionEnded

fun serve_connection ::
  "(bytes \<Rightarrow> string + frame) \<Rightarrow> node_id \<Rightarrow> nat \<Rightarrow> connection_event \<Rightarrow> quic_backend \<Rightarrow> quic_backend" where
  "serve_connection de remote_id stable_id (AcceptedStream now bs) b =
     snd (handle_stream de remote_id bs (b\<lparr>qb_last_activity := hm_insert remote_id now (qb_last_activity b)\<rparr>))"
| "serve_connection de remote_id stable_id ConnectionEnded b =
     snd (remove_connection_if_current remote_id stable_id b)"

section \<open>Streams that carry a numbered frame\<close>

lemma stream_kind_try_from_code [simp]: "stream_kind_try_from (stream_kind_code k) = Ok k"
  by (cases k) (simp_all add: stream_kind_try_from_def)

lemma stream_kind_code_not_magic:
  "stream_kind_code k \<noteq> CHUNK_STREAM_MAGIC" "stream_kind_code k \<noteq> RAFT_BATCH_STREAM_MAGIC"
  by (cases k; simp add: CHUNK_STREAM_MAGIC_def RAFT_BATCH_STREAM_MAGIC_def)+

text \<open>
  A genuine stream for the history \<open>h\<close>: the envelope of number \<open>k\<close> with the \<open>k\<close>-th frame.
\<close>

definition carries :: "(frame \<Rightarrow> string + bytes) \<Rightarrow> frame list \<Rightarrow> u64 \<Rightarrow> bytes \<Rightarrow> bool" where
  "carries ser h k bs \<longleftrightarrow> 0 < unat k \<and> unat k \<le> length h \<and>
     (\<exists>env body. bs = encode_with_payload env body \<and> env_seq env = k \<and> ser (h ! (unat k - 1)) = Ok body \<and>
        length body < 2 ^ 32 \<and> (\<exists>kind. env_kind env = stream_kind_code kind))"

lemma carries_append: "carries ser h k bs \<Longrightarrow> carries ser (h @ h') k bs"
  by (auto simp: carries_def nth_append)

definition fits_envelope :: "(frame \<Rightarrow> string + bytes) \<Rightarrow> frame \<Rightarrow> bool" where
  "fits_envelope ser f \<longleftrightarrow>
     (case ser f of Inl _ \<Rightarrow> True | Inr body \<Rightarrow> FRAME_ENVELOPE_V2_HEADER_SIZE + length body \<le> MAX_ENVELOPE_SIZE)"

text \<open>Deserialisation inverts serialisation.\<close>

definition frame_codec :: "(frame \<Rightarrow> string + bytes) \<Rightarrow> (bytes \<Rightarrow> string + frame) \<Rightarrow> bool" where
  "frame_codec ser de \<longleftrightarrow> (\<forall>f body. ser f = Ok body \<longrightarrow> de body = Ok f)"

lemma encode_with_payload_Cons: "\<exists>rest. encode_with_payload env body = env_kind env # rest"
  by (simp add: encode_with_payload_def Let_def)

lemma handle_stream_carries:
  assumes "carries ser h k bs" "list_all (fits_envelope ser) h"
    and "frame_codec ser de"
  shows "\<exists>ack. handle_stream de peer bs b =
    (let (fresh, dedup) = check_and_update peer k (qb_dedup b)
     in (Ok (), if fresh then b\<lparr>qb_dedup := dedup, qb_buffer := snd (process_ack peer ack (qb_buffer b)),
                  qb_incoming := qb_incoming b @ [(peer, h ! (unat k - 1))]\<rparr>
                else b\<lparr>qb_dedup := dedup\<rparr>))"
proof -
  let ?f = "h ! (unat k - 1)"
  obtain env body kind where e: "bs = encode_with_payload env body" "env_seq env = k" "ser ?f = Ok body"
    "length body < 2 ^ 32" "env_kind env = stream_kind_code kind" and k: "0 < unat k" "unat k \<le> length h"
    using assms(1) by (auto simp: carries_def)
  have "fits_envelope ser ?f"
    using assms(2) k by (simp add: list_all_length)
  then have len: "length bs \<le> MAX_ENVELOPE_SIZE" "FRAME_ENVELOPE_V2_HEADER_SIZE \<le> length bs"
    using e(1,3) by (simp_all add: fits_envelope_def)
  obtain rest where bs: "bs = stream_kind_code kind # rest"
    using encode_with_payload_Cons[of env body] e(1,5) by auto
  have "envelope_decode de bs = Ok (env\<lparr>env_payload_len := of_nat (length body), env_frame := ?f\<rparr>)"
    using envelope_decode_encode[OF e(4), of de env "[]"] assms(3) e(1,3) by (simp add: frame_codec_def)
  then have "handle_stream de peer bs b = process_envelope peer (env\<lparr>env_payload_len := of_nat (length body), env_frame := ?f\<rparr>) b"
    using len stream_kind_code_not_magic[of kind] unfolding handle_stream_def bs
    by (auto simp: MAX_ENVELOPE_SIZE_def)
  then show ?thesis
    by (intro exI[of _ "env_ack_seq env"]) (simp add: process_envelope_def e(2,5) Let_def split: prod.split)
qed

text \<open>Receiving a list of streams from one peer.\<close>

definition receive_streams ::
  "(bytes \<Rightarrow> string + frame) \<Rightarrow> node_id \<Rightarrow> bytes list \<Rightarrow> quic_backend \<Rightarrow> quic_backend" where
  "receive_streams de peer bss b = fold (\<lambda>bs. snd \<circ> handle_stream de peer bs) bss b"

lemma receive_streams_carries:
  assumes "list_all2 (carries ser h) ks bss" "list_all (fits_envelope ser) h"
    and "frame_codec ser de"
    and "dedup_run (map (Pair peer) ks) (qb_dedup b) = (fs, t)"
  shows "qb_incoming (receive_streams de peer bss b) = qb_incoming b @
    map (\<lambda>(p, k). (p, h ! (unat k - 1))) (delivered (map (Pair peer) ks) fs)"
  using assms(1,4)
proof (induction ks bss arbitrary: b fs rule: list_all2_induct)
  case (Cons k ks bs bss)
  obtain fresh t1 where c: "check_and_update peer k (qb_dedup b) = (fresh, t1)"
    by fastforce
  obtain fs1 where r: "dedup_run (map (Pair peer) ks) t1 = (fs1, t)" "fs = fresh # fs1"
    using Cons.prems c by (auto split: prod.splits)
  obtain ack where h: "handle_stream de peer bs b =
      (Ok (), if fresh then b\<lparr>qb_dedup := t1, qb_buffer := snd (process_ack peer ack (qb_buffer b)),
                  qb_incoming := qb_incoming b @ [(peer, h ! (unat k - 1))]\<rparr>
                else b\<lparr>qb_dedup := t1\<rparr>)" (is "_ = (_, ?b1)")
    using handle_stream_carries[OF Cons.hyps(1) assms(2,3), where peer = peer and b = b] c by auto
  have "receive_streams de peer (bs # bss) b = receive_streams de peer bss ?b1"
    by (simp add: receive_streams_def h)
  moreover have "qb_dedup ?b1 = t1"
    by simp
  ultimately show ?case
    using Cons.IH[of ?b1 fs1] r by auto
qed (simp add: receive_streams_def delivered_def)

section \<open>What the sender puts on the wire\<close>

text \<open>No operation but a send adds to the buffer of a peer or changes its next number.\<close>

lemma expire_loop_subset: "set (fst (expire_loop ttl now ms tot)) \<subseteq> set ms"
  by (induction ms arbitrary: tot) (auto simp: split_beta)

lemma trim_loop_subset: "set (fst (trim_loop mb mm ms tot)) \<subseteq> set ms"
  by (induction ms arbitrary: tot) (auto simp: split_beta)

lemma ack_loop_subset: "set (fst (ack_loop ack ms tot)) \<subseteq> set ms"
  by (induction ms arbitrary: tot) (auto simp: split_beta)

definition shrinks :: "retransmission_buffer \<Rightarrow> retransmission_buffer \<Rightarrow> bool" where
  "shrinks rb rb' \<longleftrightarrow> (\<forall>q. set (pb_messages (peer_buffer_of rb' q)) \<subseteq> set (pb_messages (peer_buffer_of rb q)) \<and>
     pb_next_seq (peer_buffer_of rb' q) = pb_next_seq (peer_buffer_of rb q))"

lemma shrinks_refl [simp]: "shrinks rb rb"
  by (simp add: shrinks_def)

lemma shrinks_insert:
  assumes "map_of (rb_buffers rb) p = Some buf" "set (pb_messages buf') \<subseteq> set (pb_messages buf)"
    and "pb_next_seq buf' = pb_next_seq buf"
  shows "shrinks rb (rb\<lparr>rb_buffers := hm_insert p buf' (rb_buffers rb)\<rparr>)"
  using assms by (auto simp: shrinks_def peer_buffer_of_def update_conv)

lemma handle_overflow_shrinks: "shrinks rb (snd (handle_overflow p now rb))"
proof (cases "map_of (rb_buffers rb) p")
  case (Some buf)
  obtain ms1 t1 d1 where e: "expire_loop (message_ttl (rb_config rb)) now (pb_messages buf) (pb_total_bytes buf) = (ms1, t1, d1)"
    using prod_cases3 by blast
  obtain ms2 t2 d2 where t: "trim_loop (max_buffer_bytes (rb_config rb)) (max_messages_per_peer (rb_config rb)) ms1 t1 = (ms2, t2, d2)"
    using prod_cases3 by blast
  have "set ms2 \<subseteq> set (pb_messages buf)"
    using expire_loop_subset[of "message_ttl (rb_config rb)" now "pb_messages buf" "pb_total_bytes buf"]
      trim_loop_subset[of "max_buffer_bytes (rb_config rb)" "max_messages_per_peer (rb_config rb)" ms1 t1] e t by auto
  then show ?thesis
    using Some e t by (auto simp: handle_overflow_def overflow_peer_def intro!: shrinks_insert)
qed (simp add: handle_overflow_def)

lemma process_ack_shrinks: "shrinks rb (snd (process_ack p ack rb))"
proof (cases "map_of (rb_buffers rb) p")
  case (Some buf)
  then show ?thesis
    using ack_loop_subset[of ack "pb_messages buf" "pb_total_bytes buf"]
    by (auto simp: process_ack_def Let_def split_beta intro!: shrinks_insert)
qed (simp add: process_ack_def)

lemma drain_shrinks: "shrinks rb (snd (drain_for_retransmit p now rb))"
  by (simp add: drain_for_retransmit_def Let_def handle_overflow_shrinks)

lemma drain_subset:
  "set (fst (drain_for_retransmit p now rb)) \<subseteq> set (pb_messages (peer_buffer_of rb p))"
proof -
  let ?rb = "snd (handle_overflow p now rb)"
  have "set (fst (drain_for_retransmit p now rb)) \<subseteq> set (pb_messages (peer_buffer_of ?rb p))"
    by (auto simp: drain_for_retransmit_def Let_def peer_buffer_of_def split: option.splits)
  then show ?thesis
    using handle_overflow_shrinks[of rb p now] by (auto simp: shrinks_def)
qed

lemma buffer_with_size_effect:
  assumes "buffer_with_size p f sz t now rb = (r, rb')"
  shows "(\<forall>q. q \<noteq> p \<longrightarrow> set (pb_messages (peer_buffer_of rb' q)) \<subseteq> set (pb_messages (peer_buffer_of rb q)) \<and>
            pb_next_seq (peer_buffer_of rb' q) = pb_next_seq (peer_buffer_of rb q)) \<and>
    (case r of
       Inl _ \<Rightarrow> set (pb_messages (peer_buffer_of rb' p)) \<subseteq> set (pb_messages (peer_buffer_of rb p)) \<and>
               pb_next_seq (peer_buffer_of rb' p) = pb_next_seq (peer_buffer_of rb p)
     | Inr k \<Rightarrow> k = pb_next_seq (peer_buffer_of rb p) \<and>
               unat (pb_next_seq (peer_buffer_of rb' p)) = unat k + 1 \<and>
               (\<forall>m\<in>set (pb_messages (peer_buffer_of rb' p)). m \<in> set (pb_messages (peer_buffer_of rb p)) \<or>
                  bm_seq m = k \<and> bm_frame m = f))"
proof (cases "checked_add (pb_next_seq (peer_buffer_of rb p)) 1")
  case None
  then show ?thesis
    using assms by (auto simp: buffer_with_size_def Let_def peer_buffer_of_insert)
next
  case (Some nxt)
  define buf where "buf = peer_buffer_of rb p"
  define buf1 where "buf1 = buf\<lparr>pb_next_seq := nxt, pb_total_bytes := saturating_add (pb_total_bytes buf) sz,
    pb_messages := pb_messages buf @ [\<lparr>bm_seq = pb_next_seq buf, bm_frame = f, bm_size_bytes = sz, bm_timestamp = t\<rparr>]\<rparr>"
  define rb1 where "rb1 = rb\<lparr>rb_buffers := hm_insert p buf1 (rb_buffers rb)\<rparr>"
  have r: "r = Ok (pb_next_seq buf)" "rb' = snd (handle_overflow p now rb1)"
    using assms Some by (simp_all add: buffer_with_size_def Let_def buf_def rb1_def buf1_def)
  have rb1: "peer_buffer_of rb1 q = (if q = p then buf1 else peer_buffer_of rb q)" for q
    by (simp add: rb1_def peer_buffer_of_insert)
  have sh: "set (pb_messages (peer_buffer_of rb' q)) \<subseteq> set (pb_messages (peer_buffer_of rb1 q))"
    "pb_next_seq (peer_buffer_of rb' q) = pb_next_seq (peer_buffer_of rb1 q)" for q
    using handle_overflow_shrinks[of rb1 p now] by (auto simp: shrinks_def r(2))
  have "unat nxt = unat (pb_next_seq buf) + 1"
    using Some by (simp add: u_arith buf_def)
  moreover have "set (pb_messages (peer_buffer_of rb' q)) \<subseteq> set (pb_messages (peer_buffer_of rb q))"
    "pb_next_seq (peer_buffer_of rb' q) = pb_next_seq (peer_buffer_of rb q)" if "q \<noteq> p" for q
    using sh[of q] that by (simp_all add: rb1)
  moreover have "set (pb_messages (peer_buffer_of rb' p)) \<subseteq> set (pb_messages buf1)"
    "pb_next_seq (peer_buffer_of rb' p) = nxt"
    using sh[of p] by (simp_all add: rb1, simp add: buf1_def)
  ultimately show ?thesis
    unfolding r(1) buf_def[symmetric] by (force simp: buf1_def)
qed

text \<open>
  The invariant of a sender towards the peer \<open>q\<close>, for the history \<open>h\<close> of frames that received a
  number: the next number follows the history, and buffer and wire agree with it.
\<close>

definition sender_inv :: "(frame \<Rightarrow> string + bytes) \<Rightarrow> node_id \<Rightarrow> frame list \<Rightarrow> quic_backend \<Rightarrow> bool" where
  "sender_inv ser q h b \<longleftrightarrow>
     unat (pb_next_seq (peer_buffer_of (qb_buffer b) q)) = length h + 1 \<and>
     list_all (\<lambda>f. \<exists>body. ser f = Ok body \<and> length body < 2 ^ 32) h \<and>
     (\<forall>m\<in>set (pb_messages (peer_buffer_of (qb_buffer b) q)).
        0 < unat (bm_seq m) \<and> unat (bm_seq m) \<le> length h \<and> bm_frame m = h ! (unat (bm_seq m) - 1)) \<and>
     (\<forall>bs. (q, bs) \<in> set (qb_wire b) \<longrightarrow> (\<exists>k. carries ser h k bs))"

lemma sender_inv_shrink:
  assumes "sender_inv ser q h b" "shrinks (qb_buffer b) (qb_buffer b')" "qb_wire b' = qb_wire b"
  shows "sender_inv ser q h b'"
  using assms by (auto simp: sender_inv_def shrinks_def)

lemma sender_inv_wire:
  assumes "sender_inv ser q h b" "\<And>bs. (q, bs) \<in> set new \<Longrightarrow> \<exists>k. carries ser h k bs"
  shows "sender_inv ser q h (b\<lparr>qb_wire := qb_wire b @ new\<rparr>)"
  using assms by (auto simp: sender_inv_def)

text \<open>A send either leaves buffer and wire alone, or buffers the frame and may write its envelope.\<close>

lemma send_to_peer_cases:
  assumes "send_to_peer ser p f clock out b = (r, b')" "qb_batch_size b \<le> 1"
  obtains (refused) "qb_buffer b' = qb_buffer b" "qb_wire b' = qb_wire b" "qb_batch_size b' = qb_batch_size b"
  | (exhausted) body e where "ser f = Ok body"
      "buffer_with_size p f (of_nat (length body)) (sc_pushed clock) (sc_overflow clock) (qb_buffer b) = (Inl e, qb_buffer b')"
      "qb_wire b' = qb_wire b" "qb_batch_size b' = qb_batch_size b"
  | (buffered) body k env where "ser f = Ok body" "length body < 2 ^ 32"
      "buffer_with_size p f (of_nat (length body)) (sc_pushed clock) (sc_overflow clock) (qb_buffer b) = (Inr k, qb_buffer b')"
      "env_seq env = k" "env_kind env = stream_kind_code (stream_kind_for_frame f)"
      "qb_wire b' = qb_wire b \<or> qb_wire b' = qb_wire b @ [(p, encode_with_payload env body)]"
      "qb_batch_size b' = qb_batch_size b"
proof (cases "map_of (qb_connections b) p")
  case None
  then show thesis
    using assms refused by (simp add: send_to_peer_def)
next
  case conn: (Some stable_id)
  show thesis
  proof (cases "stable_id \<in> set (qb_closed b)")
    case True
    then show thesis
      using assms conn refused
      by (auto simp: send_to_peer_def remove_connection_if_current_def split: if_splits)
  next
    case open_conn: False
    show thesis
    proof (cases "map_of (qb_capabilities b) p")
      case None
      then show thesis
        using assms conn open_conn refused by (auto simp: send_to_peer_def Let_def)
    next
      case caps: (Some caps)
      show thesis
      proof (cases "ensure_capabilities (stream_kind_for_frame f) caps")
        case (Inl e)
        then show thesis
          using assms conn open_conn caps refused by (auto simp: send_to_peer_def Let_def)
      next
        case ens: (Inr u)
        show thesis
        proof (cases "ser f")
          case (Inl e)
          then show thesis
            using assms conn open_conn caps ens refused by (auto simp: send_to_peer_def Let_def)
        next
          case body: (Inr body)
          obtain r0 rb where bw: "buffer_with_size p f (of_nat (length body)) (sc_pushed clock)
              (sc_overflow clock) (qb_buffer b) = (r0, rb)"
            by fastforce
          show thesis
          proof (cases "length body \<ge> 2 ^ 32")
            case True
            then show thesis
              using assms conn open_conn caps ens body refused by (auto simp: send_to_peer_def Let_def)
          next
            case short: False
            show thesis
            proof (cases r0)
              case (Inl e)
              then show thesis
                using assms conn open_conn caps ens body short bw exhausted[of body e]
                by (auto simp: send_to_peer_def Let_def)
            next
              case (Inr k)
              define env where "env = \<lparr>env_kind = stream_kind_code (stream_kind_for_frame f), env_seq = k,
                env_ack_seq = last_seen_seq (qb_dedup b) p, env_timestamp = sc_timestamp clock,
                env_payload_len = of_nat (length body), env_frame = f\<rparr>"
              have "send_envelope_bytes p (encode_with_payload env body) out
                  (b\<lparr>qb_last_activity := hm_insert p (sc_activity clock) (qb_last_activity b), qb_buffer := rb\<rparr>) = (r, b')"
                using assms conn open_conn caps ens body short bw Inr
                by (auto simp: send_to_peer_def Let_def env_def)
              then show thesis
                using buffered[of body k env] body short bw Inr
                by (auto simp: send_envelope_bytes_def env_def split: write_outcome.splits if_splits)
            qed
          qed
        qed
      qed
    qed
  qed
qed

lemma send_to_peer_inv:
  assumes "sender_inv ser q h b" "qb_batch_size b \<le> 1"
    and "send_to_peer ser p f clock out b = (r, b')"
  shows "qb_batch_size b' \<le> 1 \<and> (sender_inv ser q h b' \<or> (p = q \<and> sender_inv ser q (h @ [f]) b'))"
  using assms(3,2)
proof (cases rule: send_to_peer_cases)
  case refused
  then show ?thesis
    using sender_inv_shrink[OF assms(1), of b'] assms(2) by simp
next
  case (exhausted body e)
  have "set (pb_messages (peer_buffer_of (qb_buffer b') x)) \<subseteq> set (pb_messages (peer_buffer_of (qb_buffer b) x)) \<and>
      pb_next_seq (peer_buffer_of (qb_buffer b') x) = pb_next_seq (peer_buffer_of (qb_buffer b) x)" for x
    using buffer_with_size_effect[OF exhausted(2)] by (cases "x = p") simp_all
  then have "shrinks (qb_buffer b) (qb_buffer b')"
    by (simp add: shrinks_def)
  then show ?thesis
    using sender_inv_shrink[OF assms(1), of b'] exhausted assms(2) by simp
next
  case (buffered body k env)
  note eff = buffer_with_size_effect[OF buffered(3), simplified]
  show ?thesis
  proof (cases "p = q")
    case False
    then have "set (pb_messages (peer_buffer_of (qb_buffer b') q)) \<subseteq> set (pb_messages (peer_buffer_of (qb_buffer b) q))"
      "pb_next_seq (peer_buffer_of (qb_buffer b') q) = pb_next_seq (peer_buffer_of (qb_buffer b) q)"
      using eff by simp_all
    then have "sender_inv ser q h b'"
      using assms(1) buffered(6) False by (auto simp: sender_inv_def)
    then show ?thesis
      using buffered(7) assms(2) by simp
  next
    case True
    have k: "unat k = length h + 1"
      using assms(1) eff True by (simp add: sender_inv_def)
    have c: "carries ser (h @ [f]) k (encode_with_payload env body)"
      using k buffered by (auto simp: carries_def)
    have "sender_inv ser q (h @ [f]) b'"
      unfolding sender_inv_def
    proof (intro conjI ballI allI impI)
      show "unat (pb_next_seq (peer_buffer_of (qb_buffer b') q)) = length (h @ [f]) + 1"
        using eff True k by simp
      show "list_all (\<lambda>f. \<exists>body. ser f = Ok body \<and> length body < 2 ^ 32) (h @ [f])"
        using assms(1) buffered by (simp add: sender_inv_def)
      fix m
      assume "m \<in> set (pb_messages (peer_buffer_of (qb_buffer b') q))"
      then have "m \<in> set (pb_messages (peer_buffer_of (qb_buffer b) q)) \<or> bm_seq m = k \<and> bm_frame m = f"
        using eff True by blast
      then show "0 < unat (bm_seq m)" "unat (bm_seq m) \<le> length (h @ [f])" "bm_frame m = (h @ [f]) ! (unat (bm_seq m) - 1)"
        using assms(1) k by (auto simp: sender_inv_def nth_append)
    next
      fix bs
      assume "(q, bs) \<in> set (qb_wire b')"
      then show "\<exists>k. carries ser (h @ [f]) k bs"
        using assms(1) c buffered(6) True carries_append by (fastforce simp: sender_inv_def)
    qed
    then show ?thesis
      using buffered(7) assms(2) True by simp
  qed
qed

section \<open>Runs of a backend\<close>

text \<open>
  The events of a backend: a send, an accepted connection with its handshake, an event of a served
  connection, a tick of the idle eviction and a round of health checks.
\<close>

datatype backend_op =
    OpSend node_id frame send_clock write_outcome
  | OpConnect nat "transport_error + handshake_message" nat u64 "nat \<Rightarrow> bool"
  | OpEvent node_id nat connection_event
  | OpEvict nat nat
  | OpHealth "node_id \<Rightarrow> bool"

fun backend_step ::
  "(frame \<Rightarrow> string + bytes) \<Rightarrow> (bytes \<Rightarrow> string + frame) \<Rightarrow> node_id \<Rightarrow> backend_op \<Rightarrow> quic_backend \<Rightarrow> quic_backend" where
  "backend_step ser de a (OpSend p f clock out) b = snd (send_to_peer ser p f clock out b)"
| "backend_step ser de a (OpConnect sid recv now ts sent_ok) b =
     snd (handle_connection (\<lambda>f. case ser f of Inl _ \<Rightarrow> [] | Inr body \<Rightarrow> body) a sid recv now ts sent_ok b)"
| "backend_step ser de a (OpEvent p sid ev) b = serve_connection de p sid ev b"
| "backend_step ser de a (OpEvict now timeout) b = idle_eviction_tick now timeout b"
| "backend_step ser de a (OpHealth probes) b = health_check_round probes b"

definition backend_run ::
  "(frame \<Rightarrow> string + bytes) \<Rightarrow> (bytes \<Rightarrow> string + frame) \<Rightarrow> node_id \<Rightarrow> backend_op list \<Rightarrow> quic_backend \<Rightarrow> quic_backend" where
  "backend_run ser de a ops b = fold (backend_step ser de a) ops b"

definition backend_new :: "retransmit_config \<Rightarrow> nat \<Rightarrow> nat \<Rightarrow> quic_backend" where
  "backend_new cfg batch_size max_conn =
     \<lparr>qb_connections = [], qb_last_activity = [], qb_capabilities = [], qb_closed = [],
      qb_buffer = retransmission_new cfg, qb_dedup = dedup_new, qb_batch = [], qb_batch_size = batch_size,
      qb_max_connections = max_conn, qb_wire = [], qb_incoming = [], qb_file_streams = []\<rparr>"

fun sent_to :: "node_id \<Rightarrow> backend_op \<Rightarrow> frame list" where
  "sent_to q (OpSend p f _ _) = (if p = q then [f] else [])"
| "sent_to q _ = []"

text \<open>Receiving touches neither the wire nor, but for acknowledgements, the buffer.\<close>

definition keeps_sender :: "quic_backend \<Rightarrow> quic_backend \<Rightarrow> bool" where
  "keeps_sender b b' \<longleftrightarrow> shrinks (qb_buffer b) (qb_buffer b') \<and> qb_wire b' = qb_wire b \<and>
     qb_batch_size b' = qb_batch_size b"

lemma keeps_sender_trans: "keeps_sender a b \<Longrightarrow> keeps_sender b c \<Longrightarrow> keeps_sender a c"
  by (auto simp: keeps_sender_def shrinks_def)

lemma keeps_sender_refl [simp]: "keeps_sender b b"
  by (simp add: keeps_sender_def)

lemma process_envelope_keeps: "process_envelope p env b = (r, b') \<Longrightarrow> keeps_sender b b'"
  using process_ack_shrinks
  by (auto simp: process_envelope_def keeps_sender_def Let_def split: sum.splits prod.splits if_splits)

lemma batch_loop_rel:
  assumes refl: "\<And>b. R b b" and trans: "\<And>a b c. R a b \<Longrightarrow> R b c \<Longrightarrow> R a c"
    and proc: "\<And>env b. R b (snd (process_envelope p env b))"
  shows "R b (snd (batch_loop de p n bs b))"
  using proc
proof (induction de p n bs b rule: batch_loop.induct)
  case (1 de p n bs b)
  define len where "len = unat (from_be_bytes (slice_range bs 0 4) :: u32)"
  show ?case
  proof (cases "bs = [] \<or> length bs < 4 \<or> \<not> (FRAME_ENVELOPE_V2_HEADER_SIZE \<le> len \<and> len \<le> MAX_ENVELOPE_SIZE) \<or>
      length (drop 4 bs) < len \<or> (\<exists>e. envelope_decode de (take len (drop 4 bs)) = Err e)")
    case True
    then have "snd (batch_loop de p n bs b) = b"
      by (subst batch_loop.simps) (auto simp: Let_def len_def)
    then show ?thesis
      by (simp add: refl)
  next
    case False
    then obtain env where c: "bs \<noteq> []" "\<not> length bs < 4" "FRAME_ENVELOPE_V2_HEADER_SIZE \<le> len \<and> len \<le> MAX_ENVELOPE_SIZE"
        "\<not> length (drop 4 bs) < len" "envelope_decode de (take len (drop 4 bs)) = Ok env"
      by (cases "envelope_decode de (take len (drop 4 bs))") auto
    obtain r b1 where p: "process_envelope p env b = (r, b1)"
      by fastforce
    have k: "R b b1"
      using "1.prems"[of b env] p by simp
    show ?thesis
    proof (cases "\<exists>u. r = Ok u \<and> n + 1 \<le> MAX_BATCH_ENVELOPES_PER_STREAM")
      case True
      then have "R b1 (snd (batch_loop de p (n + 1) (drop len (drop 4 bs)) b1))"
        using "1.IH"[OF c(1,2) len_def HOL.refl _ c(4,5) p[symmetric]] c(3) "1.prems" by auto
      then show ?thesis
        using True c p trans[OF k] by (subst batch_loop.simps) (auto simp: Let_def len_def[symmetric])
    next
      case False
      then show ?thesis
        using c p k by (subst batch_loop.simps) (auto simp: Let_def len_def[symmetric] split: sum.splits)
    qed
  qed
qed

lemma handle_stream_rel:
  assumes refl: "\<And>b. R b b" and trans: "\<And>a b c. R a b \<Longrightarrow> R b c \<Longrightarrow> R a c"
    and proc: "\<And>env b. R b (snd (process_envelope p env b))"
    and chunk: "\<And>b xs. R b (b\<lparr>qb_file_streams := xs\<rparr>)"
  shows "R b (snd (handle_stream de p bs b))"
  using batch_loop_rel[of R p b de 0 "tl bs", OF refl trans proc] refl proc chunk
  by (auto simp: handle_stream_def split: list.splits sum.splits)

lemma handle_stream_keeps: "keeps_sender b (snd (handle_stream de p bs b))"
proof (rule handle_stream_rel)
  show "keeps_sender b (snd (process_envelope p env b))" for env b
    using process_envelope_keeps[of p env b] by (metis prod.collapse)
qed (auto simp: keeps_sender_def shrinks_def)

lemma remove_connection_keeps: "keeps_sender b (snd (remove_connection_if_current p sid b))"
  by (simp add: remove_connection_if_current_def keeps_sender_def)

lemma serve_connection_keeps: "keeps_sender b (serve_connection de p sid ev b)"
proof (cases ev)
  case (AcceptedStream now bs)
  let ?b = "b\<lparr>qb_last_activity := hm_insert p now (qb_last_activity b)\<rparr>"
  have "keeps_sender b ?b"
    by (simp add: keeps_sender_def)
  then show ?thesis
    unfolding AcceptedStream serve_connection.simps by (rule keeps_sender_trans[OF _ handle_stream_keeps])
qed (simp add: remove_connection_keeps)

lemma evict_one_keeps: "keeps_sender b (evict_one p b)"
  by (auto simp: evict_one_def keeps_sender_def remove_connection_if_current_def split: option.splits)

lemma idle_eviction_keeps: "keeps_sender b (idle_eviction_tick now timeout b)"
proof -
  have "keeps_sender b (fold evict_one ps b)" for ps
    by (induction ps arbitrary: b) (auto intro: keeps_sender_trans evict_one_keeps)
  then show ?thesis
    by (simp add: idle_eviction_tick_def)
qed

lemma health_check_keeps: "keeps_sender b (snd (health_check_peer p probe b))"
  by (auto simp: health_check_peer_def keeps_sender_def remove_connection_if_current_def Let_def split: option.splits)

lemma health_check_round_keeps: "keeps_sender b (health_check_round probes b)"
proof -
  have "keeps_sender b (fold (\<lambda>peer. snd \<circ> health_check_peer peer (probes peer)) ps b)" for ps
    by (induction ps arbitrary: b) (auto intro: keeps_sender_trans health_check_keeps)
  then show ?thesis
    by (simp add: health_check_round_def)
qed

lemma sender_inv_keeps: "sender_inv ser q h b \<Longrightarrow> keeps_sender b b' \<Longrightarrow> sender_inv ser q h b'"
  using sender_inv_shrink by (auto simp: keeps_sender_def)

text \<open>A retransmitted stream carries the number and the frame of the first transmission.\<close>

lemma retransmit_envelope_carries:
  assumes "sender_inv ser q h b" "m \<in> set (pb_messages (peer_buffer_of (qb_buffer b) q))"
  shows "carries ser h (bm_seq m)
    (retransmit_envelope (\<lambda>f. case ser f of Inl _ \<Rightarrow> [] | Inr body \<Rightarrow> body) ack ts m)"
proof -
  have m: "0 < unat (bm_seq m)" "unat (bm_seq m) \<le> length h" "bm_frame m = h ! (unat (bm_seq m) - 1)"
    using assms by (auto simp: sender_inv_def)
  then have "bm_frame m \<in> set h"
    by simp
  then obtain body where "ser (bm_frame m) = Ok body" "length body < 2 ^ 32"
    using assms(1) by (auto simp: sender_inv_def list_all_iff)
  then show ?thesis
    using m by (fastforce simp: carries_def retransmit_envelope_def envelope_encode_def)
qed

lemma handle_connection_inv:
  assumes "sender_inv ser q h b"
    and "handle_connection (\<lambda>f. case ser f of Inl _ \<Rightarrow> [] | Inr body \<Rightarrow> body) a sid recv now ts ok b = (r, b')"
  shows "qb_batch_size b' = qb_batch_size b \<and> sender_inv ser q h b'"
proof (cases "qb_buffer b' = qb_buffer b \<and> qb_wire b' = qb_wire b \<and> qb_batch_size b' = qb_batch_size b")
  case True
  then show ?thesis
    using sender_inv_keeps[OF assms(1), of b'] by (simp add: keeps_sender_def)
next
  case False
  let ?body = "\<lambda>f. case ser f of Inl _ \<Rightarrow> [] | Inr body \<Rightarrow> body"
  define p where "p = hm_node_id (projr recv)"
  define ms where "ms = fst (drain_for_retransmit p now (qb_buffer b))"
  define ack where "ack = last_seen_seq (qb_dedup b) p"
  have p: "qb_buffer b' = snd (drain_for_retransmit p now (qb_buffer b))"
    "ms = fst (drain_for_retransmit p now (qb_buffer b))" "qb_batch_size b' = qb_batch_size b"
    "qb_wire b' = qb_wire b @ map (\<lambda>i. (p, retransmit_envelope ?body ack ts (ms ! i))) (filter ok [0..<length ms])"
    using assms(2) False
    by (auto simp: handle_connection_def Let_def split_beta p_def ms_def ack_def split: sum.splits if_splits handshake_error.splits)
  have "\<exists>k. carries ser h k bs" if h: "(q, bs) \<in> set (qb_wire b')" for bs
  proof (cases "(q, bs) \<in> set (qb_wire b)")
    case False
    then obtain i where i: "i < length ms" "p = q" "bs = retransmit_envelope ?body ack ts (ms ! i)"
      using h p(4) by auto
    then have "ms ! i \<in> set (pb_messages (peer_buffer_of (qb_buffer b) q))"
      using drain_subset[of p now "qb_buffer b"] p(2) by (meson nth_mem subsetD)
    then show ?thesis
      using retransmit_envelope_carries[OF assms(1)] i(3) by blast
  qed (use assms(1) in \<open>auto simp: sender_inv_def\<close>)
  then show ?thesis
    using assms(1) drain_shrinks[of "qb_buffer b" p now] p(1,3) by (auto simp: sender_inv_def shrinks_def)
qed

lemma backend_step_inv:
  assumes "sender_inv ser q h b" "qb_batch_size b \<le> 1"
  shows "qb_batch_size (backend_step ser de a op b) \<le> 1 \<and>
    (\<exists>h'. subseq h' (sent_to q op) \<and> sender_inv ser q (h @ h') (backend_step ser de a op b))"
proof (cases op)
  case (OpSend p f clock out)
  obtain r b' where s: "send_to_peer ser p f clock out b = (r, b')"
    by fastforce
  have "sender_inv ser q (h @ []) b' \<or> p = q \<and> sender_inv ser q (h @ [f]) b'" "qb_batch_size b' \<le> 1"
    using send_to_peer_inv[OF assms s] by simp_all
  moreover have "subseq [] (sent_to q op)" "p = q \<longrightarrow> subseq [f] (sent_to q op)"
    by (simp_all add: OpSend)
  ultimately show ?thesis
    using s by (auto simp: OpSend intro: exI[of _ "[]"] exI[of _ "[f]"] split: if_splits)
next
  case (OpConnect sid recv now ts ok)
  then show ?thesis
    using handle_connection_inv[OF assms(1), of a sid recv now ts ok] assms(2)
    by (auto intro!: exI[of _ "[]"] simp: prod_eq_iff)
next
  case (OpEvent p sid ev)
  then show ?thesis
    using serve_connection_keeps[of b de p sid ev] sender_inv_keeps[OF assms(1)] assms(2)
    by (auto intro!: exI[of _ "[]"] simp: keeps_sender_def)
next
  case (OpEvict now timeout)
  then show ?thesis
    using idle_eviction_keeps[of b now timeout] sender_inv_keeps[OF assms(1)] assms(2)
    by (auto intro!: exI[of _ "[]"] simp: keeps_sender_def)
next
  case (OpHealth probes)
  then show ?thesis
    using health_check_round_keeps[of b probes] sender_inv_keeps[OF assms(1)] assms(2)
    by (auto intro!: exI[of _ "[]"] simp: keeps_sender_def)
qed

lemma backend_run_inv:
  assumes "sender_inv ser q h b" "qb_batch_size b \<le> 1"
  shows "\<exists>h'. subseq h' (concat (map (sent_to q) ops)) \<and> sender_inv ser q (h @ h') (backend_run ser de a ops b)"
  using assms
proof (induction ops arbitrary: h b)
  case (Cons op ops)
  obtain h1 where h1: "subseq h1 (sent_to q op)" "sender_inv ser q (h @ h1) (backend_step ser de a op b)"
    "qb_batch_size (backend_step ser de a op b) \<le> 1"
    using backend_step_inv[OF Cons.prems] by blast
  obtain h2 where h2: "subseq h2 (concat (map (sent_to q) ops))"
    "sender_inv ser q ((h @ h1) @ h2) (backend_run ser de a ops (backend_step ser de a op b))"
    using Cons.IH[OF h1(2,3)] by blast
  then show ?case
    using list_emb_append_mono[OF h1(1) h2(1)] by (auto simp: backend_run_def intro!: exI[of _ "h1 @ h2"])
qed (auto simp: backend_run_def intro!: exI[of _ "[]"])

lemma backend_new_inv: "sender_inv ser q [] (backend_new cfg n mc)"
  by (simp add: sender_inv_def backend_new_def retransmission_new_def peer_buffer_of_def peer_buffer_new_def)

text \<open>The number a stream carries is determined by its bytes.\<close>

lemma carries_decode:
  assumes "carries ser h k bs"
  shows "\<exists>env. envelope_decode (\<lambda>_. Ok f) bs = Ok env \<and> env_seq env = k"
proof -
  obtain env body where "bs = encode_with_payload env body" "env_seq env = k" "length body < 2 ^ 32"
    using assms by (auto simp: carries_def)
  then show ?thesis
    using envelope_decode_encode[of body "\<lambda>_. Ok f" env "[]"] by simp
qed

lemma carries_unique: "carries ser h k bs \<Longrightarrow> carries ser h' k' bs \<Longrightarrow> k = k'"
  using carries_decode[of ser h k bs undefined] carries_decode[of ser h' k' bs undefined] by auto

lemma spec_run_complete:
  assumes "spec_run w as D = (bs, D')" "\<forall>(p, k)\<in>set as. k \<noteq> 0 \<and> unat k \<le> w"
  shows "D' p = D p \<union> {unat k |k. (p, k) \<in> set as}"
  using assms
proof (induction as arbitrary: D bs)
  case (Cons a as)
  obtain q k where a: "a = (q, k)"
    by fastforce
  define D1 where "D1 = (if spec_accepts w k (D q) then D(q := insert (unat k) (D q)) else D)"
  obtain bs1 where r: "spec_run w as D1 = (bs1, D')"
    using Cons.prems by (auto simp: a D1_def Let_def split: prod.splits)
  have "D1 = D(q := insert (unat k) (D q))"
    using Cons.prems(2) by (auto simp: D1_def a spec_accepts_def insert_absorb)
  then show ?case
    using Cons.IH[OF r] Cons.prems(2) by (auto simp: a)
qed simp

text \<open>What a receiver that starts afresh makes of genuine streams, whatever their order and repetition.\<close>

lemma receive_exactly_once:
  assumes "list_all2 (carries ser h) ks bss" "list_all (fits_envelope ser) h" "frame_codec ser de"
    and "qb_dedup c = dedup_new" "qb_incoming c = []"
  shows "\<exists>ds. distinct ds \<and> set ds \<subseteq> {..<length h} \<and>
    qb_incoming (receive_streams de a bss c) = map (\<lambda>i. (a, h ! i)) ds \<and>
    (length h \<le> 1000 \<longrightarrow> set ds = (\<lambda>k. unat k - 1) ` set ks)"
proof -
  let ?as = "map (Pair a) ks"
  obtain fs t where run: "dedup_run ?as dedup_new = (fs, t)"
    by fastforce
  have spec: "spec_run 1000 ?as (\<lambda>_. {}) = (fs, table_seen t)"
    using dedup_run_ok[OF dedup_new_ok(1) run] dedup_new_ok by simp
  note d = spec_run_delivered[OF spec]
  have ks: "0 < unat k \<and> unat k \<le> length h" if "k \<in> set ks" for k
    using assms(1) that by (auto simp: list_all2_conv_all_nth in_set_conv_nth carries_def)
  have sub: "set (delivered ?as fs) \<subseteq> set ?as"
    using set_zip_leftD by (fastforce simp: delivered_def)
  define ds where "ds = map (\<lambda>(p, k). unat k - 1) (delivered ?as fs)"
  have inj: "inj_on (\<lambda>(p, k). unat k - 1) (set ?as)"
  proof (rule inj_onI)
    fix x y
    assume "x \<in> set ?as" "y \<in> set ?as" and e: "(\<lambda>(p, k). unat k - 1) x = (\<lambda>(p, k). unat k - 1) y"
    then obtain k k' where k: "x = (a, k)" "y = (a, k')" "k \<in> set ks" "k' \<in> set ks"
      by auto
    then have "unat k = unat k'"
      using ks[OF k(3)] ks[OF k(4)] e by auto
    then show "x = y"
      using k by (simp add: word_unat_eq_iff)
  qed
  have "distinct ds"
    unfolding ds_def distinct_map using d inj_on_subset[OF inj sub] by blast
  moreover have "set ds \<subseteq> {..<length h}"
    using sub ks by (fastforce simp: ds_def)
  moreover have "qb_incoming (receive_streams de a bss c) = map (\<lambda>i. (a, h ! i)) ds"
    using receive_streams_carries[OF assms(1-3), of a c fs t] run assms(4,5) sub
    by (auto simp: ds_def)
  moreover have "set ds = (\<lambda>k. unat k - 1) ` set ks" if "length h \<le> 1000"
  proof -
    have "table_seen t a = unat ` set ks"
      using spec_run_complete[OF spec, of a] ks that by (fastforce simp: unat_gt_0)
    moreover have "table_seen t a = {unat k |k. (a, k) \<in> set (delivered ?as fs)}"
      using d by auto
    moreover have "{unat k |k. (a, k) \<in> set (delivered ?as fs)} = unat ` snd ` set (delivered ?as fs)"
      using sub by force
    ultimately have "unat ` snd ` set (delivered ?as fs) = unat ` set ks"
      by simp
    then have "(\<lambda>n. n - 1) ` (unat ` snd ` set (delivered ?as fs)) = (\<lambda>n. n - 1) ` (unat ` set ks)"
      by simp
    then show ?thesis
      by (simp add: ds_def image_image case_prod_beta)
  qed
  ultimately show ?thesis
    by blast
qed

section \<open>A concrete link\<close>

text \<open>A serialiser for user frames only, and a run that loses a stream and reconnects.\<close>

fun user_ser :: "frame \<Rightarrow> string + bytes" where
  "user_ser (User bs) = Ok bs"
| "user_ser _ = Err ''unsupported''"

definition user_de :: "bytes \<Rightarrow> string + frame" where
  "user_de bs = Ok (User bs)"

lemma user_codec: "frame_codec user_ser user_de"
proof -
  have "user_de body = Ok f" if "user_ser f = Ok body" for f body
    using that by (cases f) (simp_all add: user_de_def)
  then show ?thesis
    by (simp add: frame_codec_def)
qed

definition demo_clock :: send_clock where
  "demo_clock = \<lparr>sc_activity = 0, sc_pushed = 0, sc_overflow = 0, sc_timestamp = 0\<rparr>"

definition demo_peer :: node_id where
  "demo_peer = NodeId [2]"

definition demo_ops :: "backend_op list" where
  "demo_ops =
     [OpConnect 7 (Ok (handshake_new demo_peer)) 0 0 (\<lambda>_. True), OpSend demo_peer (User [5]) demo_clock Written,
      OpSend demo_peer (User [6]) demo_clock (TimedOut 3), OpConnect 8 (Ok (handshake_new demo_peer)) 0 0 (\<lambda>_. True)]"

lemmas demo_defs = demo_ops_def demo_clock_def backend_run_def backend_new_def
  handle_connection_def handshake_new_def is_compatible_def negotiate_def PROTOCOL_VERSION_def
  connection_limit_reached_def send_to_peer_def ensure_capabilities_def buffer_with_size_def handle_overflow_def
  overflow_peer_def drain_for_retransmit_def retransmission_new_def retransmit_config_default_def
  peer_buffer_of_def peer_buffer_new_def send_envelope_bytes_def checked_add_def saturating_add_def
  Let_def update_conv

lemma demo_wire:
  "map fst (qb_wire (backend_run user_ser user_de (NodeId [1]) demo_ops (backend_new retransmit_config_default 0 8))) =
     [demo_peer, demo_peer, demo_peer]"
  by (simp add: demo_defs encode_with_payload_def)

section \<open>Properties\<close>

lemma subseq_set: "subseq xs ys \<Longrightarrow> set xs \<subseteq> set ys"
  by (induction rule: list_emb.induct) auto




text \<open>A Raft batch stream is its marker and the length-prefixed envelopes.\<close>

definition batch_chunk :: "bytes \<Rightarrow> bytes" where
  "batch_chunk encoded = to_be_bytes (of_nat (length encoded) :: u32) @ encoded"

definition send_batch :: "node_id \<Rightarrow> bytes list \<Rightarrow> quic_backend \<Rightarrow> quic_backend" where
  "send_batch target encs b = fold (\<lambda>enc. snd \<circ> send_batched_envelope target enc Written) encs b"

lemma send_batch_open:
  assumes "map_of (qb_batch b) p = None" "list_all (\<lambda>e. length e < 2 ^ 32) encs" "length encs < qb_batch_size b"
    and "encs \<noteq> []"
  shows "map_of (qb_batch (send_batch p encs b)) p = Some (RAFT_BATCH_STREAM_MAGIC # concat (map batch_chunk encs), length encs) \<and>
    qb_wire (send_batch p encs b) = qb_wire b \<and> qb_batch_size (send_batch p encs b) = qb_batch_size b"
  using assms(2-4)
proof (induction encs rule: rev_induct)
  case (snoc e encs)
  show ?case
  proof (cases encs)
    case Nil
    then show ?thesis
      using snoc.prems assms(1)
      by (simp add: send_batch_def send_batched_envelope_def Let_def batch_chunk_def[symmetric] update_conv)
  next
    case (Cons e' es)
    then have "map_of (qb_batch (send_batch p encs b)) p = Some (RAFT_BATCH_STREAM_MAGIC # concat (map batch_chunk encs), length encs)"
      "qb_wire (send_batch p encs b) = qb_wire b" "qb_batch_size (send_batch p encs b) = qb_batch_size b"
      using snoc.IH snoc.prems by simp_all
    then show ?thesis
      using snoc.prems by (simp add: send_batch_def send_batched_envelope_def Let_def batch_chunk_def[symmetric] update_conv)
  qed
qed simp

lemma send_batch_full:
  assumes "map_of (qb_batch b) p = None" "list_all (\<lambda>e. length e < 2 ^ 32) encs" "length encs = qb_batch_size b"
    and "encs \<noteq> []"
  shows "qb_wire (send_batch p encs b) = qb_wire b @ [(p, RAFT_BATCH_STREAM_MAGIC # concat (map batch_chunk encs))] \<and>
    map_of (qb_batch (send_batch p encs b)) p = None"
proof -
  obtain es e where e: "encs = es @ [e]"
    using assms(4) by (metis rev_exhaust)
  show ?thesis
  proof (cases "es = []")
    case True
    then show ?thesis
      using assms e by (simp add: send_batch_def send_batched_envelope_def Let_def batch_chunk_def[symmetric] delete_conv)
  next
    case False
    then have "map_of (qb_batch (send_batch p es b)) p = Some (RAFT_BATCH_STREAM_MAGIC # concat (map batch_chunk es), length es)"
      "qb_wire (send_batch p es b) = qb_wire b" "qb_batch_size (send_batch p es b) = qb_batch_size b"
      using send_batch_open[OF assms(1), of es] assms(2,3) e by simp_all
    then show ?thesis
      using assms(2,3) e by (simp add: send_batch_def send_batched_envelope_def Let_def batch_chunk_def[symmetric] delete_conv)
  qed
qed

lemma carries_length:
  assumes "carries ser h k bs" "list_all (fits_envelope ser) h"
  shows "FRAME_ENVELOPE_V2_HEADER_SIZE \<le> length bs" "length bs \<le> MAX_ENVELOPE_SIZE"
proof -
  obtain env body where e: "bs = encode_with_payload env body" "ser (h ! (unat k - 1)) = Ok body"
    "0 < unat k" "unat k \<le> length h"
    using assms(1) by (auto simp: carries_def)
  then have "fits_envelope ser (h ! (unat k - 1))"
    using assms(2) by (simp add: list_all_length)
  then show "FRAME_ENVELOPE_V2_HEADER_SIZE \<le> length bs" "length bs \<le> MAX_ENVELOPE_SIZE"
    using e by (simp_all add: fits_envelope_def)
qed

lemma handle_stream_process:
  assumes "carries ser h k bs" "list_all (fits_envelope ser) h" "frame_codec ser de"
  obtains env b' where "envelope_decode de bs = Ok env" "process_envelope p env b = (Ok (), b')"
    "handle_stream de p bs b = (Ok (), b')"
proof -
  obtain env body kind where e: "bs = encode_with_payload env body" "ser (h ! (unat k - 1)) = Ok body"
    "length body < 2 ^ 32" "env_kind env = stream_kind_code kind"
    using assms(1) by (auto simp: carries_def)
  define env' where "env' = env\<lparr>env_payload_len := of_nat (length body), env_frame := h ! (unat k - 1)\<rparr>"
  have d: "envelope_decode de bs = Ok env'"
    using envelope_decode_encode[OF e(3), of de env "[]"] assms(3) e by (simp add: frame_codec_def env'_def)
  obtain rest where bs: "bs = stream_kind_code kind # rest"
    using encode_with_payload_Cons[of env body] e(1,4) by auto
  have "handle_stream de p bs b = process_envelope p env' b"
    using carries_length[OF assms(1,2)] d stream_kind_code_not_magic[of kind] unfolding handle_stream_def bs
    by (auto simp: MAX_ENVELOPE_SIZE_def)
  moreover have "fst (process_envelope p env' b) = Ok ()"
    by (simp add: process_envelope_def env'_def e(4) Let_def split: prod.split)
  ultimately show thesis
    using that[of env' "snd (process_envelope p env' b)"] d by (simp add: prod_eq_iff)
qed

lemma batch_loop_carries:
  assumes "list_all2 (carries ser h) ks bss" "list_all (fits_envelope ser) h" "frame_codec ser de"
    and "n + length bss \<le> MAX_BATCH_ENVELOPES_PER_STREAM"
  shows "batch_loop de p n (concat (map batch_chunk bss)) b = (Ok (), receive_streams de p bss b)"
  using assms(1,4)
proof (induction ks bss arbitrary: n b rule: list_all2_induct)
  case Nil
  then show ?case
    by (simp add: batch_loop.simps receive_streams_def)
next
  case (Cons k ks bs bss)
  obtain env b' where s: "envelope_decode de bs = Ok env" "process_envelope p env b = (Ok (), b')"
    "handle_stream de p bs b = (Ok (), b')"
    using handle_stream_process[OF Cons.hyps(1) assms(2,3)] by metis
  have len: "FRAME_ENVELOPE_V2_HEADER_SIZE \<le> length bs" "length bs \<le> MAX_ENVELOPE_SIZE"
    using carries_length[OF Cons.hyps(1) assms(2)] by simp_all
  then have "unat (of_nat (length bs) :: u32) = length bs" "bs \<noteq> []"
    by (auto simp: unat_of_nat MAX_ENVELOPE_SIZE_def FRAME_ENVELOPE_V2_HEADER_SIZE_def)
  then have "batch_loop de p n (concat (map batch_chunk (bs # bss))) b =
      batch_loop de p (n + 1) (concat (map batch_chunk bss)) b'"
    using len s Cons.prems
    by (subst batch_loop.simps) (simp add: batch_chunk_def Let_def slice_range_def)
  also have "\<dots> = (Ok (), receive_streams de p bss b')"
    using Cons.IH[of "n + 1" b'] Cons.prems by simp
  finally show ?case
    by (simp add: receive_streams_def s(3))
qed

text \<open>
  (C18) Batching of Raft frames is transparent: writing as many envelopes as the batch holds puts one
  stream on the wire and closes the batch, and the receiver treats that stream exactly like the envelopes
  received one by one on streams of their own.
\<close>

theorem raft_batching_is_transparent:
  assumes "list_all2 (carries ser h) ks bss" "list_all (fits_envelope ser) h" "frame_codec ser de"
    and "map_of (qb_batch b) q = None" "length bss = qb_batch_size b" "bss \<noteq> []"
    and "qb_batch_size b \<le> MAX_BATCH_ENVELOPES_PER_STREAM"
  shows "\<exists>stream. qb_wire (send_batch q bss b) = qb_wire b @ [(q, stream)] \<and>
    map_of (qb_batch (send_batch q bss b)) q = None \<and>
    (\<forall>a c. handle_stream de a stream c = (Ok (), receive_streams de a bss c))"
proof -
  have "length bs < 2 ^ 32" if "bs \<in> set bss" for bs
  proof -
    obtain k where "carries ser h k bs"
      using assms(1) \<open>bs \<in> set bss\<close> by (auto simp: list_all2_conv_all_nth in_set_conv_nth)
    then show ?thesis
      using carries_length(2)[OF _ assms(2)] by (fastforce simp: MAX_ENVELOPE_SIZE_def)
  qed
  then have "list_all (\<lambda>e. length e < 2 ^ 32) bss"
    by (simp add: list_all_iff)
  moreover have "handle_stream de a (RAFT_BATCH_STREAM_MAGIC # concat (map batch_chunk bss)) c =
      (Ok (), receive_streams de a bss c)" for a c
    using batch_loop_carries[OF assms(1-3), of 0] assms(5,7)
    by (simp add: handle_stream_def RAFT_BATCH_STREAM_MAGIC_def CHUNK_STREAM_MAGIC_def)
  ultimately show ?thesis
    using send_batch_full[OF assms(4) _ assms(5,6)] by blast
qed

lemma carriesI:
  assumes "0 < unat (env_seq env)" "unat (env_seq env) \<le> length h" "ser (h ! (unat (env_seq env) - 1)) = Ok body"
    "length body < 2 ^ 32" "env_kind env = stream_kind_code kind"
  shows "carries ser h (env_seq env) (encode_with_payload env body)"
  using assms unfolding carries_def by blast

lemma demo_carries: "\<exists>e1 e2. carries user_ser [User [5], User [6]] 1 e1 \<and> carries user_ser [User [5], User [6]] 2 e2"
  using carriesI[of "\<lparr>env_kind = 2, env_seq = 1, env_ack_seq = 0, env_timestamp = 0, env_payload_len = 1, env_frame = User [5]\<rparr>"
      "[User [5], User [6]]" user_ser "[5]" KUser]
    carriesI[of "\<lparr>env_kind = 2, env_seq = 2, env_ack_seq = 0, env_timestamp = 0, env_payload_len = 1, env_frame = User [6]\<rparr>"
      "[User [5], User [6]]" user_ser "[6]" KUser]
  by auto

lemma demo_fits: "list_all (fits_envelope user_ser) [User [5], User [6]]"
  by (simp add: fits_envelope_def FRAME_ENVELOPE_V2_HEADER_SIZE_def MAX_ENVELOPE_SIZE_def)

theorem raft_batching_is_transparent_witness:
  "\<exists>e1 e2 stream. qb_wire (send_batch demo_peer [e1, e2] (backend_new retransmit_config_default 2 8)) = [(demo_peer, stream)] \<and>
     handle_stream user_de (NodeId [1]) stream (backend_new retransmit_config_default 2 8) =
       (Ok (), receive_streams user_de (NodeId [1]) [e1, e2] (backend_new retransmit_config_default 2 8))"
proof -
  obtain e1 e2 where e: "carries user_ser [User [5], User [6]] 1 e1" "carries user_ser [User [5], User [6]] 2 e2"
    using demo_carries by blast
  then have "list_all2 (carries user_ser [User [5], User [6]]) [1, 2] [e1, e2]"
    by simp
  then show ?thesis
    using raft_batching_is_transparent[OF _ demo_fits user_codec, of "[1, 2]" "[e1, e2]"
        "backend_new retransmit_config_default 2 8" demo_peer]
    by (fastforce simp: backend_new_def MAX_BATCH_ENVELOPES_PER_STREAM_def)
qed




text \<open>The connection table: one entry per peer, within the limit, with the negotiated capabilities.\<close>

definition conn_ok :: "nat \<Rightarrow> quic_backend \<Rightarrow> bool" where
  "conn_ok mc b \<longleftrightarrow> distinct (map fst (qb_connections b)) \<and> length (qb_connections b) \<le> mc \<and> qb_max_connections b = mc \<and>
     dom (map_of (qb_capabilities b)) = dom (map_of (qb_connections b)) \<and>
     dom (map_of (qb_connections b)) \<subseteq> dom (map_of (qb_last_activity b)) \<and>
     (\<forall>caps\<in>ran (map_of (qb_capabilities b)). cap_multi_raft caps)"

lemma length_update: "length (AList.update k v m) = (if map_of m k = None then Suc (length m) else length m)"
  by (induction m) auto

lemma conn_ok_remove:
  assumes "conn_ok mc b"
  shows "conn_ok mc (snd (remove_connection_if_current p sid b))"
  using assms
  by (auto simp: remove_connection_if_current_def conn_ok_def delete_conv' distinct_delete ran_def domIff
      intro: order_trans[OF length_delete_le] split: if_splits)

lemma conn_ok_cong:
  assumes "conn_ok mc b" "qb_connections b' = qb_connections b" "qb_last_activity b' = qb_last_activity b"
    "qb_capabilities b' = qb_capabilities b" "qb_max_connections b' = qb_max_connections b"
  shows "conn_ok mc b'"
  using assms by (simp add: conn_ok_def)


lemma conn_ok_other [simp]:
  "conn_ok mc (b\<lparr>qb_closed := cs\<rparr>) = conn_ok mc b" "conn_ok mc (b\<lparr>qb_batch := bt\<rparr>) = conn_ok mc b"
  "conn_ok mc (b\<lparr>qb_file_streams := xs\<rparr>) = conn_ok mc b"
  by (simp_all add: conn_ok_def)

lemma conn_ok_touch:
  assumes "conn_ok mc b" "map_of (qb_connections b) p = Some sid"
  shows "conn_ok mc (b\<lparr>qb_last_activity := hm_insert p t (qb_last_activity b)\<rparr>)"
  using assms by (auto simp: conn_ok_def update_conv' insert_absorb domIff)

lemma conn_ok_send:
  assumes "conn_ok mc b"
  shows "conn_ok mc (snd (send_to_peer ser p f clock out b))"
proof (cases "map_of (qb_connections b) p")
  case None
  then show ?thesis
    using assms by (simp add: send_to_peer_def)
next
  case (Some sid)
  show ?thesis
  proof (cases "sid \<in> set (qb_closed b)")
    case True
    then show ?thesis
      using Some conn_ok_remove[OF assms, of p sid]
      by (auto simp: send_to_peer_def split_beta)
  next
    case False
    then show ?thesis
      using Some
      by (intro conn_ok_cong[OF conn_ok_touch[OF assms Some, of "sc_activity clock"]])
        (auto simp: send_to_peer_def Let_def split_beta send_batched_envelope_def send_envelope_bytes_def
          split: option.splits sum.splits write_outcome.splits)
  qed
qed

lemma negotiate_multi_raft: "negotiate l r = Ok caps \<Longrightarrow> cap_multi_raft caps"
  by (auto simp: negotiate_def split: if_splits)

lemma conn_ok_insert:
  assumes "conn_ok mc b" "cap_multi_raft caps"
    and "\<not> connection_limit_reached (length (qb_connections b)) (map_of (qb_connections b) p = None) (qb_max_connections b)"
  shows "conn_ok mc (b\<lparr>qb_connections := hm_insert p sid (qb_connections b),
    qb_last_activity := hm_insert p now (qb_last_activity b), qb_capabilities := hm_insert p caps (qb_capabilities b)\<rparr>)"
  using assms
  by (auto simp: conn_ok_def connection_limit_reached_def length_update update_conv' distinct_update ran_def
      split: if_splits)

lemma conn_ok_connect:
  assumes "conn_ok mc b"
  shows "conn_ok mc (snd (handle_connection body a sid recv now ts ok b))"
proof (cases "qb_connections (snd (handle_connection body a sid recv now ts ok b)) = qb_connections b \<and>
    qb_last_activity (snd (handle_connection body a sid recv now ts ok b)) = qb_last_activity b \<and>
    qb_capabilities (snd (handle_connection body a sid recv now ts ok b)) = qb_capabilities b \<and>
    qb_max_connections (snd (handle_connection body a sid recv now ts ok b)) = qb_max_connections b")
  case True
  then show ?thesis
    using conn_ok_cong[OF assms] by blast
next
  case False
  then obtain msg caps where m: "recv = Ok msg" "is_compatible msg" "negotiate (handshake_new a) msg = Ok caps"
    "\<not> connection_limit_reached (length (qb_connections b)) (map_of (qb_connections b) (hm_node_id msg) = None) (qb_max_connections b)"
    by (auto simp: handle_connection_def Let_def split: sum.splits if_splits handshake_error.splits)
  show ?thesis
    by (rule conn_ok_cong[OF conn_ok_insert[OF assms negotiate_multi_raft[OF m(3)] m(4), of now sid]])
      (simp_all add: handle_connection_def m Let_def split_beta)
qed

lemma conn_ok_evict: "conn_ok mc b \<Longrightarrow> conn_ok mc (evict_one p b)"
  using conn_ok_remove[of mc b p]
  by (auto simp: evict_one_def split_beta split: option.splits)

lemma conn_ok_health: "conn_ok mc b \<Longrightarrow> conn_ok mc (snd (health_check_peer p probe b))"
  using conn_ok_remove[of mc b p]
  by (auto simp: health_check_peer_def Let_def split_beta split: option.splits)

lemma conn_ok_step:
  assumes "conn_ok mc b"
  shows "conn_ok mc (backend_step ser de a op b)"
proof (cases op)
  case (OpEvent p sid ev)
  have proc: "conn_ok mc b \<longrightarrow> conn_ok mc (snd (process_envelope p env b))" for env b
    by (auto simp: process_envelope_def Let_def conn_ok_def split_beta split: sum.splits)
  have stream: "conn_ok mc b \<longrightarrow> conn_ok mc (snd (handle_stream de p bs b))" for bs b
    by (rule handle_stream_rel[of "\<lambda>b b'. conn_ok mc b \<longrightarrow> conn_ok mc b'" p b de bs, rotated 2])
      (simp_all add: proc)
  have "conn_ok mc (b\<lparr>qb_last_activity := hm_insert p now (qb_last_activity b)\<rparr>)" for now
    using assms by (auto simp: conn_ok_def update_conv')
  then have "conn_ok mc (serve_connection de p sid ev b)"
    using stream conn_ok_remove[OF assms] by (cases ev) simp_all
  then show ?thesis
    by (simp add: OpEvent)
next
  case (OpEvict now timeout)
  have "conn_ok mc b \<Longrightarrow> conn_ok mc (fold evict_one ps b)" for ps b
    by (induction ps arbitrary: b) (auto intro: conn_ok_evict)
  then show ?thesis
    using assms by (simp add: OpEvict idle_eviction_tick_def)
next
  case (OpHealth probes)
  have "conn_ok mc b \<Longrightarrow> conn_ok mc (fold (\<lambda>peer. snd \<circ> health_check_peer peer (probes peer)) ps b)" for ps b
    by (induction ps arbitrary: b) (auto intro: conn_ok_health)
  then show ?thesis
    using assms by (simp add: OpHealth health_check_round_def)
qed (simp_all add: assms conn_ok_send conn_ok_connect)

lemma conn_ok_run: "conn_ok mc b \<Longrightarrow> conn_ok mc (backend_run ser de a ops b)"
  unfolding backend_run_def by (induction ops arbitrary: b) (auto intro: conn_ok_step)

lemma conn_ok_new: "conn_ok mc (backend_new cfg batch_size mc)"
  by (simp add: backend_new_def conn_ok_def)

lemma send_bytes_no_connection_error [simp]:
  "fst (send_envelope_bytes t bs out b) \<noteq> Err (ConnectionError x)"
  "fst (send_batched_envelope t bs out b) \<noteq> Err (ConnectionError x)"
  by (auto simp: send_envelope_bytes_def send_batched_envelope_def Let_def split_beta split: write_outcome.split)




definition demo_connected :: quic_backend where
  "demo_connected = backend_run user_ser user_de (NodeId [1])
     [OpConnect 7 (Ok (handshake_new demo_peer)) 0 0 (\<lambda>_. True)] (backend_new retransmit_config_default 0 8)"


text \<open>
  The automatic retry of a send that timed out is not idempotent: the attempts are numbered
  separately, so when the first one did reach the peer, the peer delivers the frame twice.
\<close>

theorem retry_after_timeout_delivers_twice:
  "\<exists>b'. send_with_retry user_ser demo_peer (User [5]) (\<lambda>_. demo_clock)
       (\<lambda>attempt. if attempt = 0 then TimedOut 1000 else Written) demo_connected = (Ok (), b') \<and>
     qb_incoming (receive_streams user_de (NodeId [1]) (map snd (qb_wire b')) (backend_new retransmit_config_default 0 8)) =
       [(NodeId [1], User [5]), (NodeId [1], User [5])]"
proof -
  let ?h = "[User [5], User [5]]"
  define e where "e k = \<lparr>env_kind = 2, env_seq = k, env_ack_seq = 0, env_timestamp = 0, env_payload_len = 1, env_frame = User [5]\<rparr>" for k
  let ?r = "send_with_retry user_ser demo_peer (User [5]) (\<lambda>_. demo_clock)
       (\<lambda>attempt. if attempt = 0 then TimedOut 1000 else Written) demo_connected"
  have ok: "fst ?r = Ok ()" and wire: "map snd (qb_wire (snd ?r)) = [encode_with_payload (e 1) [5], encode_with_payload (e 2) [5]]"
    by (simp_all add: demo_connected_def send_with_retry_def SEND_RETRY_ATTEMPTS_def e_def demo_defs
        last_seen_seq_def dedup_new_def FRAME_ENVELOPE_V2_HEADER_SIZE_def)
  have "list_all2 (carries user_ser ?h) [1, 2] [encode_with_payload (e 1) [5], encode_with_payload (e 2) [5]]"
    using carriesI[of "e 1" ?h user_ser "[5]" KUser] carriesI[of "e 2" ?h user_ser "[5]" KUser] by (simp add: e_def)
  moreover have "list_all (fits_envelope user_ser) ?h"
    by (simp add: fits_envelope_def FRAME_ENVELOPE_V2_HEADER_SIZE_def MAX_ENVELOPE_SIZE_def)
  moreover have "\<exists>t. dedup_run (map (Pair (NodeId [1])) [1, 2]) dedup_new = ([True, True], t)"
    by (simp add: dedup_new_def check_and_update_def dedup_check_def peer_dedup_default_def dedup_peer_def
        advance.simps Let_def saturating_add_def update_conv word_le_nat_alt)
  ultimately show ?thesis
    using receive_streams_carries[of user_ser ?h "[1, 2]" _ user_de "NodeId [1]" "backend_new retransmit_config_default 0 8" "[True, True]"]
      user_codec ok wire by (auto simp: backend_new_def prod_eq_iff)
qed

end
