(* ===== verification/Scheduling.thy ===== *)
theory Scheduling
  imports Transport
begin

text \<open>
  The outgoing side of the QUIC transport: the deficit-weighted round-robin scheduler of
  \<^verbatim>\<open>priority.rs\<close>, the send loop of \<^verbatim>\<open>lib.rs\<close> that drains it, and the token bucket and the
  per-kind queue accounting of \<^verbatim>\<open>qos.rs\<close>.  Deficits are mathematical integers; the bound proved
  for them shows that the 64-bit counters of the code do not overflow.
\<close>

section \<open>The scheduler\<close>

fun priority_index :: "priority \<Rightarrow> nat" where
  "priority_index High = 0"
| "priority_index Normal = 1"
| "priority_index Low = 2"

definition priority_from_index :: "nat \<Rightarrow> priority" where
  "priority_from_index idx = (if idx = 0 then High else if idx = 1 then Normal else Low)"

record scheduler_config =
  sc_weights :: "nat list"
  sc_quantum_bytes :: nat

definition scheduler_config_default :: scheduler_config where
  "scheduler_config_default = \<lparr>sc_weights = [4, 2, 1], sc_quantum_bytes = 1024\<rparr>"

record 'a scheduled_message =
  sm_priority :: priority
  sm_size_bytes :: nat
  sm_payload :: 'a

record 'a priority_scheduler =
  ps_queues :: "'a scheduled_message list list"
  ps_deficit_counters :: "int list"
  ps_should_add_quantum :: "bool list"
  ps_served_in_turn :: "nat list"
  ps_current :: nat
  ps_config :: scheduler_config

definition scheduler_new :: "scheduler_config \<Rightarrow> 'a priority_scheduler" where
  "scheduler_new config =
     \<lparr>ps_queues = [[], [], []], ps_deficit_counters = [0, 0, 0], ps_should_add_quantum = [True, True, True],
      ps_served_in_turn = [0, 0, 0], ps_current = 0, ps_config = config\<rparr>"

definition scheduler_enqueue ::
  "'a scheduled_message \<Rightarrow> priority \<Rightarrow> 'a priority_scheduler \<Rightarrow> 'a priority_scheduler" where
  "scheduler_enqueue msg prio s =
     (let idx = priority_index prio
      in s\<lparr>ps_queues := (ps_queues s)[idx := ps_queues s ! idx @ [msg\<lparr>sm_priority := prio\<rparr>]]\<rparr>)"

text \<open>
  One visit of \<^verbatim>\<open>dequeue\<close> to the current class: \<open>Inr\<close> is the message served, \<open>Inl\<close> that the turn
  passes to the next class.  The counter of served messages saturates at 32 bits.
\<close>

definition add_quantum :: "nat \<Rightarrow> 'a priority_scheduler \<Rightarrow> 'a priority_scheduler" where
  "add_quantum idx s =
     (if ps_should_add_quantum s ! idx
      then s\<lparr>ps_deficit_counters := (ps_deficit_counters s)[idx := ps_deficit_counters s ! idx
               + int (sc_quantum_bytes (ps_config s)) * int (sc_weights (ps_config s) ! idx)]\<rparr>
      else s)"

definition pass_turn :: "nat \<Rightarrow> 'a priority_scheduler \<Rightarrow> 'a priority_scheduler" where
  "pass_turn idx s =
     s\<lparr>ps_should_add_quantum := (ps_should_add_quantum s)[idx := True],
       ps_served_in_turn := (ps_served_in_turn s)[idx := 0], ps_current := (idx + 1) mod 3\<rparr>"

definition serve :: "nat \<Rightarrow> 'a scheduled_message \<Rightarrow> 'a scheduled_message list \<Rightarrow> 'a priority_scheduler \<Rightarrow> 'a priority_scheduler" where
  "serve idx front rest s =
     (let deficit = ps_deficit_counters s ! idx - int (sm_size_bytes front);
          served = min (2 ^ 32 - 1) (ps_served_in_turn s ! idx + 1);
          has_more = (rest \<noteq> [] \<and> deficit > 0 \<and> served < max 1 (sc_weights (ps_config s) ! idx));
          s1 = s\<lparr>ps_queues := (ps_queues s)[idx := rest],
                 ps_deficit_counters := (ps_deficit_counters s)[idx := deficit],
                 ps_served_in_turn := (ps_served_in_turn s)[idx := served],
                 ps_should_add_quantum := (ps_should_add_quantum s)[idx := \<not> has_more]\<rparr>
      in if \<not> has_more
         then s1\<lparr>ps_served_in_turn := (ps_served_in_turn s1)[idx := 0], ps_current := (idx + 1) mod 3\<rparr>
         else s1)"

definition visit_class ::
  "'a priority_scheduler \<Rightarrow> 'a scheduled_message option \<times> 'a priority_scheduler" where
  "visit_class s =
     (let idx = ps_current s; s1 = add_quantum idx s
      in case ps_queues s1 ! idx of
           front # rest \<Rightarrow>
             if ps_deficit_counters s1 ! idx \<ge> int (sm_size_bytes front)
             then (Some (front\<lparr>sm_priority := priority_from_index idx\<rparr>), serve idx front rest s1)
             else (None, pass_turn idx s1)
         | [] \<Rightarrow> (None, pass_turn idx (s1\<lparr>ps_deficit_counters := (ps_deficit_counters s1)[idx := 0]\<rparr>)))"

fun dequeue_loop ::
  "nat \<Rightarrow> 'a priority_scheduler \<Rightarrow> 'a scheduled_message option \<times> 'a priority_scheduler" where
  "dequeue_loop 0 s = (None, s)"
| "dequeue_loop (Suc left) s =
     (case visit_class s of (Some msg, s1) \<Rightarrow> (Some msg, s1) | (None, s1) \<Rightarrow> dequeue_loop left s1)"

definition scheduler_dequeue :: "'a priority_scheduler \<Rightarrow> 'a scheduled_message option \<times> 'a priority_scheduler" where
  "scheduler_dequeue s = dequeue_loop 3 s"

section \<open>The send loop\<close>

definition MAX_CONCURRENT_SENDS :: nat where
  "MAX_CONCURRENT_SENDS = 64"

definition MAX_FRAME_SIZE :: nat where
  "MAX_FRAME_SIZE = 64 * 1024"

datatype send_command = Unicast node_id frame | Broadcast frame

fun command_frame :: "send_command \<Rightarrow> frame" where
  "command_frame (Unicast _ f) = f"
| "command_frame (Broadcast f) = f"

text \<open>\<open>size_of\<close> is bincode's \<^verbatim>\<open>serialized_size\<close>, 0 when it fails.\<close>

definition enqueue_send_command ::
  "(frame \<Rightarrow> nat) \<Rightarrow> send_command \<Rightarrow> bool \<Rightarrow> send_command priority_scheduler \<Rightarrow> send_command priority_scheduler" where
  "enqueue_send_command size_of command priority_enabled s =
     (let size_bytes = min (2 ^ 64 - 1) (size_of (command_frame command));
          prio = (if priority_enabled then kind_priority (stream_kind_for_frame (command_frame command)) else Normal)
      in scheduler_enqueue \<lparr>sm_priority = prio, sm_size_bytes = size_bytes, sm_payload = command\<rparr> prio s)"

text \<open>
  The state of the loop task: its scheduler, the commands being sent and those started so far.
  \<open>start_sends\<close> is the inner loop that starts commands while there is capacity; \<open>left\<close> is the capacity.
\<close>

record send_loop =
  sl_scheduler :: "send_command priority_scheduler"
  sl_in_flight :: nat
  sl_started :: "send_command list"

fun start_sends :: "nat \<Rightarrow> send_loop \<Rightarrow> send_loop" where
  "start_sends 0 l = l"
| "start_sends (Suc left) l =
     (case scheduler_dequeue (sl_scheduler l) of
        (Some command, s) \<Rightarrow>
          start_sends left (l\<lparr>sl_scheduler := s, sl_in_flight := sl_in_flight l + 1,
                              sl_started := sl_started l @ [sm_payload command]\<rparr>)
      | (None, s) \<Rightarrow> l\<lparr>sl_scheduler := s\<rparr>)"

datatype loop_event = SendFinished | Commands "send_command list"

text \<open>
  One iteration: start what can be started, then wait for the event.  \<open>None\<close> when the loop cannot receive the
  event: a send can only finish when one is in flight.  A command batch is what \<^verbatim>\<open>recv\<close> and the
  \<^verbatim>\<open>try_recv\<close> loop after it return.
\<close>

fun send_loop_step :: "(frame \<Rightarrow> nat) \<Rightarrow> bool \<Rightarrow> loop_event \<Rightarrow> send_loop \<Rightarrow> send_loop option" where
  "send_loop_step size_of enabled SendFinished l =
     (let l1 = start_sends (MAX_CONCURRENT_SENDS - sl_in_flight l) l
      in if sl_in_flight l1 = 0 then None else Some (l1\<lparr>sl_in_flight := sl_in_flight l1 - 1\<rparr>))"
| "send_loop_step size_of enabled (Commands cs) l =
     (let l1 = start_sends (MAX_CONCURRENT_SENDS - sl_in_flight l) l
      in if cs = [] then None
         else Some (l1\<lparr>sl_scheduler := fold (\<lambda>c. enqueue_send_command size_of c enabled) cs (sl_scheduler l1)\<rparr>))"

definition send_loop_new :: "nat list \<Rightarrow> send_loop" where
  "send_loop_new weights =
     \<lparr>sl_scheduler = scheduler_new \<lparr>sc_weights = weights, sc_quantum_bytes = MAX_FRAME_SIZE\<rparr>,
      sl_in_flight = 0, sl_started = []\<rparr>"

section \<open>The token bucket\<close>

text \<open>
  Times are nanoseconds.  The amount to add is computed in 128 bits and cast to 64; the sum with
  the tokens is a 64-bit addition.
\<close>

record token_bucket =
  tb_tokens :: u64
  tb_capacity :: u64
  tb_refill_rate :: u64
  tb_last_refill :: nat

definition bucket_new :: "u64 \<Rightarrow> u64 \<Rightarrow> nat \<Rightarrow> token_bucket" where
  "bucket_new capacity refill_rate now =
     \<lparr>tb_tokens = capacity, tb_capacity = capacity, tb_refill_rate = refill_rate, tb_last_refill = now\<rparr>"

definition bucket_refill :: "nat \<Rightarrow> token_bucket \<Rightarrow> token_bucket" where
  "bucket_refill now b =
     (let elapsed = now - tb_last_refill b
      in if elapsed = 0 then b
         else let add = of_nat (unat (tb_refill_rate b) * (elapsed div 1000) div 1000000) :: u64
              in if add > 0
                 then b\<lparr>tb_tokens := min (tb_tokens b + add) (tb_capacity b), tb_last_refill := now\<rparr>
                 else b)"

text \<open>\<open>Inl\<close> carries the missing tokens, from which the code computes the time to wait.\<close>

definition try_consume :: "u64 \<Rightarrow> nat \<Rightarrow> token_bucket \<Rightarrow> (u64 + unit) \<times> token_bucket" where
  "try_consume amount now b =
     (let b1 = bucket_refill now b; current = tb_tokens b1
      in if current < amount then (Err (amount - current), b1)
         else (Ok (), b1\<lparr>tb_tokens := current - amount\<rparr>))"

text \<open>
  \<^verbatim>\<open>throttle_snapshot\<close>: at most three attempts.  \<open>clock\<close> is the reading of each attempt, \<open>delay\<close> the
  duration the code derives from the missing tokens and the rate.
\<close>

fun throttle_loop ::
  "(u64 \<Rightarrow> u64 \<Rightarrow> nat) \<Rightarrow> (nat \<Rightarrow> nat) \<Rightarrow> nat \<Rightarrow> u64 \<Rightarrow> nat \<Rightarrow> nat \<Rightarrow> nat \<Rightarrow> token_bucket \<Rightarrow> bool \<times> token_bucket" where
  "throttle_loop delay clock timeout amount attempts waited 0 b = (False, b)"
| "throttle_loop delay clock timeout amount attempts waited (Suc left) b =
     (case try_consume amount (clock attempts) b of
        (Inr _, b1) \<Rightarrow> (True, b1)
      | (Inl deficit, b1) \<Rightarrow>
          let waited' = waited + delay deficit (tb_refill_rate b1)
          in if waited' > timeout \<or> attempts + 1 \<ge> 3 then (False, b1)
             else throttle_loop delay clock timeout amount (attempts + 1) waited' left b1)"

definition throttle_snapshot ::
  "(u64 \<Rightarrow> u64 \<Rightarrow> nat) \<Rightarrow> (nat \<Rightarrow> nat) \<Rightarrow> nat \<Rightarrow> u64 \<Rightarrow> token_bucket \<Rightarrow> bool \<times> token_bucket" where
  "throttle_snapshot delay clock timeout amount b = throttle_loop delay clock timeout amount 0 0 3 b"

section \<open>The invariant of the scheduler\<close>

abbreviation burst :: "'a priority_scheduler \<Rightarrow> nat \<Rightarrow> nat" where
  "burst s j \<equiv> max 1 (sc_weights (ps_config s) ! j)"

text \<open>Only the current class can be in the middle of its turn.\<close>

definition mid_turn :: "'a priority_scheduler \<Rightarrow> nat \<Rightarrow> bool" where
  "mid_turn s j \<longleftrightarrow> \<not> ps_should_add_quantum s ! j"

definition sched_ok :: "'a priority_scheduler \<Rightarrow> bool" where
  "sched_ok s \<longleftrightarrow> length (ps_queues s) = 3 \<and> length (ps_deficit_counters s) = 3 \<and>
     length (ps_should_add_quantum s) = 3 \<and> length (ps_served_in_turn s) = 3 \<and>
     length (sc_weights (ps_config s)) = 3 \<and> ps_current s < 3 \<and>
     (\<forall>j<3. sc_weights (ps_config s) ! j < 2 ^ 32 \<and> 0 \<le> ps_deficit_counters s ! j \<and> ps_served_in_turn s ! j < burst s j \<and>
        (mid_turn s j \<longrightarrow> j = ps_current s) \<and> (\<not> mid_turn s j \<longrightarrow> ps_served_in_turn s ! j = 0))"

lemma less_3: "(j :: nat) < 3 \<longleftrightarrow> j = 0 \<or> j = 1 \<or> j = 2"
  by auto

lemma all_less_3: "(\<forall>j<3. P j) \<longleftrightarrow> P 0 \<and> P 1 \<and> P (2 :: nat)"
  by (auto simp: less_3)

lemma scheduler_new_ok:
  "length (sc_weights config) = 3 \<Longrightarrow> list_all (\<lambda>w. w < 2 ^ 32) (sc_weights config) \<Longrightarrow> sched_ok (scheduler_new config)"
  by (auto simp: list_all_length sched_ok_def scheduler_new_def mid_turn_def all_less_3)

lemma priority_index_less [simp]: "priority_index p < 3"
  by (cases p) simp_all

lemma priority_from_index [simp]: "j < 3 \<Longrightarrow> priority_index (priority_from_index j) = j"
  by (auto simp: priority_from_index_def less_3)

lemma scheduler_enqueue_ok:
  assumes "sched_ok s"
  shows "sched_ok (scheduler_enqueue m p s)" "ps_config (scheduler_enqueue m p s) = ps_config s"
    "j < 3 \<Longrightarrow> ps_queues (scheduler_enqueue m p s) ! j =
       ps_queues s ! j @ (if j = priority_index p then [m\<lparr>sm_priority := p\<rparr>] else [])"
  using assms by (auto simp: sched_ok_def scheduler_enqueue_def Let_def mid_turn_def nth_list_update)

text \<open>One visit keeps the invariant; what it serves is the head of the current class.\<close>

lemma add_quantum_ok:
  assumes "sched_ok s" "idx < 3"
  shows "sched_ok (add_quantum idx s)" "ps_queues (add_quantum idx s) = ps_queues s"
    "ps_current (add_quantum idx s) = ps_current s" "ps_config (add_quantum idx s) = ps_config s"
    "ps_served_in_turn (add_quantum idx s) = ps_served_in_turn s"
    "mid_turn (add_quantum idx s) = mid_turn s"
    "ps_deficit_counters (add_quantum idx s) ! j = (if j = idx \<and> \<not> mid_turn s idx
       then ps_deficit_counters s ! idx + int (sc_quantum_bytes (ps_config s) * sc_weights (ps_config s) ! idx)
       else ps_deficit_counters s ! j)"
  using assms by (auto simp: add_quantum_def sched_ok_def mid_turn_def nth_list_update fun_eq_iff)

lemma pass_turn_ok:
  assumes "sched_ok s" "ps_current s = idx"
  shows "sched_ok (pass_turn idx s)" "ps_queues (pass_turn idx s) = ps_queues s"
    "ps_current (pass_turn idx s) = (idx + 1) mod 3" "ps_config (pass_turn idx s) = ps_config s"
    "ps_deficit_counters (pass_turn idx s) = ps_deficit_counters s"
    "ps_served_in_turn (pass_turn idx s) = (ps_served_in_turn s)[idx := 0]"
    "j < 3 \<Longrightarrow> \<not> mid_turn (pass_turn idx s) j"
  using assms by (auto simp: pass_turn_def sched_ok_def mid_turn_def nth_list_update)

lemma serve_ok:
  assumes "sched_ok s" "ps_current s = idx" "int (sm_size_bytes m) \<le> ps_deficit_counters s ! idx"
  shows "sched_ok (serve idx m rest s)" "ps_queues (serve idx m rest s) = (ps_queues s)[idx := rest]"
    "ps_config (serve idx m rest s) = ps_config s"
    "ps_deficit_counters (serve idx m rest s) = (ps_deficit_counters s)[idx := ps_deficit_counters s ! idx - int (sm_size_bytes m)]"
    "ps_current (serve idx m rest s) = (idx + 1) mod 3 \<and> ps_served_in_turn (serve idx m rest s) = (ps_served_in_turn s)[idx := 0] \<and>
       (\<forall>j<3. \<not> mid_turn (serve idx m rest s) j) \<or>
     ps_current (serve idx m rest s) = idx \<and>
       ps_served_in_turn (serve idx m rest s) ! idx = ps_served_in_turn s ! idx + 1 \<and>
       (\<forall>j. j \<noteq> idx \<longrightarrow> ps_served_in_turn (serve idx m rest s) ! j = ps_served_in_turn s ! j)"
proof -
  let ?d = "ps_deficit_counters s ! idx - int (sm_size_bytes m)" and ?n = "ps_served_in_turn s ! idx + 1"
  have idx: "idx < 3" and all: "\<forall>j<3. sc_weights (ps_config s) ! j < 2 ^ 32 \<and> 0 \<le> ps_deficit_counters s ! j \<and>
      ps_served_in_turn s ! j < burst s j \<and> (mid_turn s j \<longrightarrow> j = idx) \<and> (\<not> mid_turn s j \<longrightarrow> ps_served_in_turn s ! j = 0)"
    and len: "length (ps_queues s) = 3" "length (ps_deficit_counters s) = 3" "length (ps_should_add_quantum s) = 3"
      "length (ps_served_in_turn s) = 3" "length (sc_weights (ps_config s)) = 3"
    using assms(1,2) by (simp_all add: sched_ok_def)
  have "sc_weights (ps_config s) ! idx < 2 ^ 32" "ps_served_in_turn s ! idx < burst s idx"
    using all idx by blast+
  then have n: "?n \<le> 2 ^ 32 - 1"
    by auto
  have others: "ps_should_add_quantum s ! j" "ps_served_in_turn s ! j = 0" if "j < 3" "j \<noteq> idx" for j
    using all that by (auto simp: mid_turn_def)
  consider (more) "serve idx m rest s = s\<lparr>ps_queues := (ps_queues s)[idx := rest],
        ps_deficit_counters := (ps_deficit_counters s)[idx := ?d], ps_served_in_turn := (ps_served_in_turn s)[idx := ?n],
        ps_should_add_quantum := (ps_should_add_quantum s)[idx := False]\<rparr>" "?n < burst s idx"
    | (pass) "serve idx m rest s = s\<lparr>ps_queues := (ps_queues s)[idx := rest],
        ps_deficit_counters := (ps_deficit_counters s)[idx := ?d], ps_served_in_turn := (ps_served_in_turn s)[idx := 0],
        ps_should_add_quantum := (ps_should_add_quantum s)[idx := True], ps_current := (idx + 1) mod 3\<rparr>"
  proof (cases "rest \<noteq> [] \<and> 0 < ?d \<and> ?n < burst s idx")
    case True
    moreover have "serve idx m rest s = s\<lparr>ps_queues := (ps_queues s)[idx := rest],
        ps_deficit_counters := (ps_deficit_counters s)[idx := ?d], ps_served_in_turn := (ps_served_in_turn s)[idx := ?n],
        ps_should_add_quantum := (ps_should_add_quantum s)[idx := False]\<rparr>"
      using True n by (auto simp: serve_def Let_def min_absorb2)
    ultimately show thesis
      using more by blast
  next
    case False
    moreover have "serve idx m rest s = s\<lparr>ps_queues := (ps_queues s)[idx := rest],
        ps_deficit_counters := (ps_deficit_counters s)[idx := ?d], ps_served_in_turn := (ps_served_in_turn s)[idx := 0],
        ps_should_add_quantum := (ps_should_add_quantum s)[idx := True], ps_current := (idx + 1) mod 3\<rparr>"
      using False n by (auto simp: serve_def Let_def min_absorb2)
    ultimately show thesis
      using pass by blast
  qed
  note cases = this
  show "sched_ok (serve idx m rest s)"
    using cases
  proof cases
    case more
    have "sc_weights (ps_config s) ! j < 2 ^ 32 \<and> 0 \<le> (ps_deficit_counters s)[idx := ?d] ! j \<and>
        (ps_served_in_turn s)[idx := ?n] ! j < burst s j \<and>
        (\<not> (ps_should_add_quantum s)[idx := False] ! j \<longrightarrow> j = idx) \<and>
        ((ps_should_add_quantum s)[idx := False] ! j \<longrightarrow> (ps_served_in_turn s)[idx := ?n] ! j = 0)" if "j < 3" for j
      using all[rule_format, OF that] others[OF that] len idx assms(3) more(2) by (cases "j = idx") simp_all
    then show ?thesis
      unfolding sched_ok_def more(1) mid_turn_def using len idx assms(2) by simp
  next
    case pass
    have "sc_weights (ps_config s) ! j < 2 ^ 32 \<and> 0 \<le> (ps_deficit_counters s)[idx := ?d] ! j \<and>
        (ps_served_in_turn s)[idx := 0] ! j < burst s j \<and> (ps_should_add_quantum s)[idx := True] ! j \<and>
        (ps_served_in_turn s)[idx := 0] ! j = 0" if "j < 3" for j
      using all[rule_format, OF that] others[OF that] len idx assms(3) by (cases "j = idx") simp_all
    then show ?thesis
      unfolding sched_ok_def pass mid_turn_def using len by (simp add: less_max_iff_disj)
  qed
  show "ps_queues (serve idx m rest s) = (ps_queues s)[idx := rest]" "ps_config (serve idx m rest s) = ps_config s"
    "ps_deficit_counters (serve idx m rest s) = (ps_deficit_counters s)[idx := ?d]"
    using cases by (cases; simp)+
  show "ps_current (serve idx m rest s) = (idx + 1) mod 3 \<and> ps_served_in_turn (serve idx m rest s) = (ps_served_in_turn s)[idx := 0] \<and>
       (\<forall>j<3. \<not> mid_turn (serve idx m rest s) j) \<or>
     ps_current (serve idx m rest s) = idx \<and>
       ps_served_in_turn (serve idx m rest s) ! idx = ps_served_in_turn s ! idx + 1 \<and>
       (\<forall>j. j \<noteq> idx \<longrightarrow> ps_served_in_turn (serve idx m rest s) ! j = ps_served_in_turn s ! j)"
    using cases
  proof cases
    case more
    then show ?thesis
      using len idx assms(2) by simp
  next
    case pass
    then show ?thesis
      using len idx others by (simp add: mid_turn_def nth_list_update)
  qed
qed


lemma reset_deficit_ok:
  assumes "sched_ok s" "idx < 3"
  shows "sched_ok (s\<lparr>ps_deficit_counters := (ps_deficit_counters s)[idx := 0]\<rparr>)"
  using assms by (simp add: sched_ok_def mid_turn_def nth_list_update)

lemma visit_class_ok:
  assumes "sched_ok s" "visit_class s = (r, s')"
  shows "sched_ok s' \<and> ps_config s' = ps_config s \<and>
    (case r of
       None \<Rightarrow> ps_queues s' = ps_queues s
     | Some m \<Rightarrow> \<exists>f rest. ps_queues s ! ps_current s = f # rest \<and> ps_queues s' = (ps_queues s)[ps_current s := rest] \<and>
                 m = f\<lparr>sm_priority := priority_from_index (ps_current s)\<rparr>)"
proof -
  define idx where "idx = ps_current s"
  have idx: "idx < 3"
    using assms(1) by (simp add: idx_def sched_ok_def)
  note aq = add_quantum_ok[OF assms(1) idx]
  have cur: "ps_current (add_quantum idx s) = idx"
    using aq(3) by (simp add: idx_def)
  have zero: "sched_ok ((add_quantum idx s)\<lparr>ps_deficit_counters := (ps_deficit_counters (add_quantum idx s))[idx := 0]\<rparr>)"
    by (rule reset_deficit_ok[OF aq(1) idx])
  show ?thesis
  proof (cases "ps_queues s ! idx")
    case Nil
    then show ?thesis
      using assms(2) aq(2,4) pass_turn_ok[OF zero, of idx] cur
      by (auto simp: visit_class_def Let_def idx_def[symmetric])
  next
    case (Cons f rest)
    then show ?thesis
      using assms(2) aq(2,4) pass_turn_ok[OF aq(1) cur] serve_ok[OF aq(1) cur, of f rest]
      by (auto simp: visit_class_def Let_def idx_def[symmetric] split: if_splits)
  qed
qed

text \<open>Whose turn it is after a visit.\<close>

lemma visit_class_turn:
  assumes "sched_ok s" "visit_class s = (r, s')"
  shows "ps_current s' = (ps_current s + 1) mod 3 \<and> ps_served_in_turn s' = (ps_served_in_turn s)[ps_current s := 0] \<and>
      (\<forall>j<3. \<not> mid_turn s' j) \<or>
    ps_current s' = ps_current s \<and> r \<noteq> None \<and>
      ps_served_in_turn s' ! ps_current s = ps_served_in_turn s ! ps_current s + 1 \<and>
      (\<forall>j. j \<noteq> ps_current s \<longrightarrow> ps_served_in_turn s' ! j = ps_served_in_turn s ! j)"
proof -
  define idx where "idx = ps_current s"
  have idx: "idx < 3"
    using assms(1) by (simp add: idx_def sched_ok_def)
  note aq = add_quantum_ok[OF assms(1) idx]
  have cur: "ps_current (add_quantum idx s) = idx"
    using aq(3) by (simp add: idx_def)
  let ?z = "(add_quantum idx s)\<lparr>ps_deficit_counters := (ps_deficit_counters (add_quantum idx s))[idx := 0]\<rparr>"
  show ?thesis
  proof (cases "ps_queues s ! idx")
    case Nil
    then have "r = None" "s' = pass_turn idx ?z"
      using assms(2) aq(2) by (auto simp: visit_class_def Let_def idx_def[symmetric])
    then show ?thesis
      using pass_turn_ok(3,6,7)[OF reset_deficit_ok[OF aq(1) idx], of idx] cur aq(5)
      by (simp add: idx_def[symmetric])
  next
    case (Cons f rest)
    show ?thesis
    proof (cases "int (sm_size_bytes f) \<le> ps_deficit_counters (add_quantum idx s) ! idx")
      case True
      then have "r \<noteq> None" "s' = serve idx f rest (add_quantum idx s)"
        using assms(2) aq(2) Cons by (auto simp: visit_class_def Let_def idx_def[symmetric])
      then show ?thesis
        using serve_ok(5)[OF aq(1) cur True, of rest] aq(5) by (simp add: idx_def[symmetric])
    next
      case False
      then have "r = None" "s' = pass_turn idx (add_quantum idx s)"
        using assms(2) aq(2) Cons by (auto simp: visit_class_def Let_def idx_def[symmetric])
      then show ?thesis
        using pass_turn_ok(3,6,7)[OF aq(1) cur] aq(5) by (simp add: idx_def[symmetric])
    qed
  qed
qed

lemma dequeue_loop_ok:
  assumes "sched_ok s" "dequeue_loop n s = (r, s')"
  shows "sched_ok s' \<and> ps_config s' = ps_config s \<and>
    (case r of
       None \<Rightarrow> ps_queues s' = ps_queues s
     | Some m \<Rightarrow> \<exists>j f rest. j < 3 \<and> ps_queues s ! j = f # rest \<and> ps_queues s' = (ps_queues s)[j := rest] \<and>
                 m = f\<lparr>sm_priority := priority_from_index j\<rparr>)"
  using assms
proof (induction n arbitrary: s)
  case (Suc n)
  obtain r1 s1 where v: "visit_class s = (r1, s1)"
    by fastforce
  note ok = visit_class_ok[OF Suc.prems(1) v]
  show ?case
  proof (cases r1)
    case None
    then show ?thesis
      using Suc.IH[of s1] Suc.prems v ok by (auto split: option.splits)
  next
    case (Some m)
    have "ps_current s < 3"
      using Suc.prems(1) by (simp add: sched_ok_def)
    then show ?thesis
      using Suc.prems v ok Some by (auto intro!: exI[of _ "ps_current s"])
  qed
qed simp

lemmas scheduler_dequeue_ok = dequeue_loop_ok[where n = 3, folded scheduler_dequeue_def]

section \<open>Service within a bounded number of calls\<close>

text \<open>
  How many messages the other classes can still send before class \<open>i\<close> has its next turn with a fresh quantum;
  \<open>need\<close> is the size of its first message.
\<close>

definition ahead :: "nat \<Rightarrow> nat \<Rightarrow> 'a priority_scheduler \<Rightarrow> nat" where
  "ahead i need s =
     (let a = (i + 1) mod 3; b = (i + 2) mod 3
      in if ps_current s = i
         then (if mid_turn s i \<and> ps_deficit_counters s ! i < int need then burst s a + burst s b else 0)
         else if ps_current s = a then burst s a - ps_served_in_turn s ! a + burst s b
         else burst s b - ps_served_in_turn s ! b)"

lemma ahead_le: "ahead i need s \<le> burst s ((i + 1) mod 3) + burst s ((i + 2) mod 3)"
  by (auto simp: ahead_def Let_def)

lemma visit_current_serves:
  assumes "sched_ok s" "ps_current s = i" "ps_queues s ! i = f # rest"
    and "sm_size_bytes f \<le> sc_quantum_bytes (ps_config s) * sc_weights (ps_config s) ! i"
    and "\<not> (mid_turn s i \<and> ps_deficit_counters s ! i < int (sm_size_bytes f))"
  shows "fst (visit_class s) = Some (f\<lparr>sm_priority := priority_from_index i\<rparr>)"
proof -
  have i: "i < 3" "0 \<le> ps_deficit_counters s ! i"
    using assms(1,2) by (auto simp: sched_ok_def)
  have "int (sm_size_bytes f) \<le> ps_deficit_counters (add_quantum i s) ! i"
    using add_quantum_ok(7)[OF assms(1) i(1), of i] of_nat_mono[OF assms(4), where ?'a = int] assms(5) i(2)
    by (cases "mid_turn s i") simp_all
  then show ?thesis
    using assms(2,3) add_quantum_ok(2)[OF assms(1) i(1)] by (simp add: visit_class_def Let_def)
qed

lemma mod3:
  fixes i :: nat
  assumes "i < 3"
  shows "(i + 1) mod 3 \<noteq> i" "(i + 2) mod 3 \<noteq> i" "(i + 2) mod 3 \<noteq> (i + 1) mod 3"
    "((i + 1) mod 3 + 1) mod 3 = (i + 2) mod 3" "((i + 2) mod 3 + 1) mod 3 = i"
    "c < 3 \<Longrightarrow> c \<noteq> i \<Longrightarrow> c = (i + 1) mod 3 \<or> c = (i + 2) mod 3"
proof -
  consider "i = 0" | "i = 1" | "i = 2"
    using assms by (auto simp: less_3)
  then show "(i + 1) mod 3 \<noteq> i" "(i + 2) mod 3 \<noteq> i" "(i + 2) mod 3 \<noteq> (i + 1) mod 3"
    "((i + 1) mod 3 + 1) mod 3 = (i + 2) mod 3" "((i + 2) mod 3 + 1) mod 3 = i"
    by (cases; simp)+
  show "c < 3 \<Longrightarrow> c \<noteq> i \<Longrightarrow> c = (i + 1) mod 3 \<or> c = (i + 2) mod 3"
    using \<open>i < 3\<close> by (simp add: less_3) (elim disjE; simp)
qed

lemma turn_zero: "sched_ok s \<Longrightarrow> j < 3 \<Longrightarrow> j \<noteq> ps_current s \<Longrightarrow> ps_served_in_turn s ! j = 0"
  unfolding sched_ok_def by blast

lemma visit_progress:
  assumes "sched_ok s" "i < 3" "ps_queues s ! i = f # rest" "visit_class s = (r, s')"
    and "sm_size_bytes f \<le> sc_quantum_bytes (ps_config s) * sc_weights (ps_config s) ! i"
  shows "r = Some (f\<lparr>sm_priority := priority_from_index i\<rparr>) \<or>
    ps_queues s' ! i = f # rest \<and>
     (ahead i (sm_size_bytes f) s' < ahead i (sm_size_bytes f) s \<or>
      r = None \<and> ps_current s = i \<and> ps_current s' \<noteq> i \<and> ahead i (sm_size_bytes f) s' = ahead i (sm_size_bytes f) s)"
proof (cases "ps_current s = i")
  case cur: True
  show ?thesis
  proof (cases "mid_turn s i \<and> ps_deficit_counters s ! i < int (sm_size_bytes f)")
    case False
    then show ?thesis
      using visit_current_serves[OF assms(1) cur assms(3,5)] assms(4) by simp
  next
    case True
    then have "r = None" "s' = pass_turn i s"
      using assms(3,4) cur by (auto simp: visit_class_def Let_def add_quantum_def mid_turn_def)
    moreover note a = mod3(1)[OF assms(2)]
    moreover have "ps_served_in_turn s ! ((i + 1) mod 3) = 0"
      by (rule turn_zero[OF assms(1)]) (use a cur in simp_all)
    ultimately show ?thesis
      using True cur pass_turn_ok[OF assms(1) cur] assms(3) by (auto simp: ahead_def Let_def)
  qed
next
  case False
  define c where "c = ps_current s"
  have c: "c < 3" "c \<noteq> i" "ps_served_in_turn s ! c < burst s c"
    using assms(1) False by (simp_all add: c_def sched_ok_def)
  have zero: "ps_served_in_turn s ! j = 0" if "j < 3" "j \<noteq> c" for j
    using assms(1) that by (auto simp: sched_ok_def c_def)
  have ok': "sched_ok s'" "ps_config s' = ps_config s" "ps_queues s' ! i = f # rest"
    using visit_class_ok[OF assms(1,4)] assms(3) c(2) by (auto simp: c_def split: option.splits)
  have lens: "length (ps_served_in_turn s) = 3"
    using assms(1) by (simp add: sched_ok_def)
  consider "ps_current s' = (c + 1) mod 3" "ps_served_in_turn s' = (ps_served_in_turn s)[c := 0]" "\<forall>j<3. \<not> mid_turn s' j"
    | "ps_current s' = c" "ps_served_in_turn s' ! c = ps_served_in_turn s ! c + 1"
    using visit_class_turn[OF assms(1,4)] by (auto simp: c_def)
  then have "ahead i (sm_size_bytes f) s' < ahead i (sm_size_bytes f) s"
  proof cases
    case 1
    have "c = (i + 1) mod 3 \<or> c = (i + 2) mod 3"
      using mod3(6)[OF assms(2) c(1,2)] .
    then show ?thesis
    proof
      assume a: "c = (i + 1) mod 3"
      have "(i + 2) mod 3 < 3" "(i + 2) mod 3 \<noteq> c" "(c + 1) mod 3 = (i + 2) mod 3" "(i + 2) mod 3 \<noteq> i"
        using a mod3[OF assms(2)] by simp_all
      then have "ahead i (sm_size_bytes f) s' = burst s ((i + 2) mod 3)"
        "ahead i (sm_size_bytes f) s = burst s c - ps_served_in_turn s ! c + burst s ((i + 2) mod 3)"
        using 1 a c(2) zero[of "(i + 2) mod 3"] lens ok'(2) by (simp_all add: ahead_def Let_def c_def[symmetric])
      then show ?thesis
        using c(3) by linarith
    next
      assume b: "c = (i + 2) mod 3"
      have "(c + 1) mod 3 = i" "c \<noteq> (i + 1) mod 3"
        using b mod3[OF assms(2)] by simp_all
      then show ?thesis
        using 1 b c assms(2) by (simp add: ahead_def Let_def c_def[symmetric])
    qed
  next
    case 2
    have less: "burst s c - ps_served_in_turn s' ! c < burst s c - ps_served_in_turn s ! c"
      using 2(2) c(3) by linarith
    from mod3(6)[OF assms(2) c(1,2)] show ?thesis
    proof
      assume "c = (i + 1) mod 3"
      then show ?thesis
        using 2(1) less c(2) ok'(2) by (simp add: ahead_def Let_def c_def[symmetric])
    next
      assume "c = (i + 2) mod 3"
      then show ?thesis
        using 2(1) less c(2) ok'(2) mod3(3)[OF assms(2)] by (simp add: ahead_def Let_def c_def[symmetric])
    qed
  qed
  then show ?thesis
    using ok'(3) by blast
qed

lemma loop_progress:
  assumes "sched_ok s" "i < 3" "ps_queues s ! i = f # rest" "dequeue_loop (Suc n) s = (r, s')"
    and "sm_size_bytes f \<le> sc_quantum_bytes (ps_config s) * sc_weights (ps_config s) ! i"
    and "ps_current s = i \<longrightarrow> 0 < n"
  shows "r = Some (f\<lparr>sm_priority := priority_from_index i\<rparr>) \<or>
    ps_queues s' ! i = f # rest \<and> ahead i (sm_size_bytes f) s' < ahead i (sm_size_bytes f) s"
  using assms
proof (induction n arbitrary: s)
  case 0
  obtain r1 s1 where v: "visit_class s = (r1, s1)"
    by fastforce
  have "r = r1" "s' = s1"
    using 0 v by (auto split: option.splits)
  then show ?case
    using visit_progress[OF 0(1-3) v 0(5)] 0(6) by auto
next
  case (Suc n)
  obtain r1 s1 where v: "visit_class s = (r1, s1)"
    by fastforce
  note ok = visit_class_ok[OF Suc.prems(1) v]
  note pr = visit_progress[OF Suc.prems(1-3) v Suc.prems(5)]
  show ?case
  proof (cases r1)
    case (Some m)
    then have "r = r1" "s' = s1"
      using Suc.prems(4) v by auto
    then show ?thesis
      using pr Some by auto
  next
    case None
    then have d: "dequeue_loop (Suc n) s1 = (r, s')" and q: "ps_queues s1 ! i = f # rest"
      and le: "ahead i (sm_size_bytes f) s1 \<le> ahead i (sm_size_bytes f) s"
      using Suc.prems(4) v pr by (auto simp del: dequeue_loop.simps simp: dequeue_loop.simps(2)[of "Suc n"])
    show ?thesis
    proof (cases "ps_current s1 = i \<and> n = 0")
      case True
      then have lt: "ahead i (sm_size_bytes f) s1 < ahead i (sm_size_bytes f) s"
        using pr None by auto
      obtain r2 s2 where v2: "visit_class s1 = (r2, s2)"
        by fastforce
      have "r = r2" "s' = s2"
        using d True v2 by (auto split: option.splits)
      then show ?thesis
        using visit_progress[OF _ Suc.prems(2) q v2] ok Suc.prems(5) lt by auto
    next
      case False
      then show ?thesis
        using Suc.IH[OF _ Suc.prems(2) q d] ok Suc.prems(5) le by auto
    qed
  qed
qed

text \<open>The results of successive calls.\<close>

fun dequeue_all :: "nat \<Rightarrow> 'a priority_scheduler \<Rightarrow> 'a scheduled_message option list" where
  "dequeue_all 0 s = []"
| "dequeue_all (Suc n) s = (case scheduler_dequeue s of (r, s1) \<Rightarrow> r # dequeue_all n s1)"

lemma dequeue_all_serves:
  assumes "sched_ok s" "i < 3" "ps_queues s ! i = f # rest"
    and "sm_size_bytes f \<le> sc_quantum_bytes (ps_config s) * sc_weights (ps_config s) ! i"
    and "ahead i (sm_size_bytes f) s < n"
  shows "Some (f\<lparr>sm_priority := priority_from_index i\<rparr>) \<in> set (dequeue_all n s)"
  using assms
proof (induction n arbitrary: s)
  case (Suc n)
  obtain r s1 where d: "scheduler_dequeue s = (r, s1)"
    by fastforce
  then have "dequeue_loop (Suc 2) s = (r, s1)"
    by (simp add: scheduler_dequeue_def numeral_3_eq_3)
  from loop_progress[OF Suc.prems(1-3) this Suc.prems(4)] show ?case
    using Suc.IH[of s1] scheduler_dequeue_ok[OF Suc.prems(1) d] Suc.prems d by auto
qed simp

section \<open>Runs of the scheduler\<close>

datatype 'a sched_op = Enq "'a scheduled_message" priority | Deq

fun sched_run ::
  "'a sched_op list \<Rightarrow> 'a priority_scheduler \<Rightarrow> 'a scheduled_message list \<times> 'a priority_scheduler" where
  "sched_run [] s = ([], s)"
| "sched_run (Enq m p # ops) s = sched_run ops (scheduler_enqueue m p s)"
| "sched_run (Deq # ops) s =
     (case scheduler_dequeue s of
        (r, s1) \<Rightarrow> (case sched_run ops s1 of (out, s2) \<Rightarrow> (case r of None \<Rightarrow> out | Some m \<Rightarrow> m # out, s2)))"

fun enqueued :: "nat \<Rightarrow> 'a sched_op list \<Rightarrow> 'a scheduled_message list" where
  "enqueued j [] = []"
| "enqueued j (Enq m p # ops) = (if priority_index p = j then m\<lparr>sm_priority := p\<rparr> # enqueued j ops else enqueued j ops)"
| "enqueued j (Deq # ops) = enqueued j ops"

definition of_class :: "nat \<Rightarrow> 'a scheduled_message list \<Rightarrow> 'a scheduled_message list" where
  "of_class j = filter (\<lambda>m. priority_index (sm_priority m) = j)"

text \<open>Messages carry the priority of the queue they wait in.\<close>

definition tagged :: "'a priority_scheduler \<Rightarrow> bool" where
  "tagged s \<longleftrightarrow> (\<forall>j<3. \<forall>m\<in>set (ps_queues s ! j). sm_priority m = priority_from_index j)"

lemma from_priority_index [simp]: "priority_from_index (priority_index p) = p"
  by (cases p) (simp_all add: priority_from_index_def)

lemma tagged_enqueue: "sched_ok s \<Longrightarrow> tagged s \<Longrightarrow> tagged (scheduler_enqueue m p s)"
  using scheduler_enqueue_ok(3)[where m = m and p = p] by (auto simp: tagged_def)

text \<open>A call serves the head of one class and nothing else.\<close>

lemma dequeue_tagged:
  assumes "sched_ok s" "tagged s" "scheduler_dequeue s = (r, s')"
  shows "sched_ok s' \<and> tagged s' \<and> ps_config s' = ps_config s \<and>
    (\<forall>j<3. (case r of None \<Rightarrow> [] | Some m \<Rightarrow> of_class j [m]) @ ps_queues s' ! j = ps_queues s ! j)"
proof (cases r)
  case None
  then show ?thesis
    using scheduler_dequeue_ok[OF assms(1,3)] assms(2) by (auto simp: tagged_def)
next
  case (Some m)
  obtain k f rest where k: "k < 3" "ps_queues s ! k = f # rest" "ps_queues s' = (ps_queues s)[k := rest]"
    "m = f\<lparr>sm_priority := priority_from_index k\<rparr>" "sched_ok s'" "ps_config s' = ps_config s"
    using scheduler_dequeue_ok[OF assms(1,3)] Some by auto
  have len: "length (ps_queues s) = 3"
    using assms(1) by (simp add: sched_ok_def)
  have "sm_priority f = priority_from_index k"
    using assms(2) k(1,2) by (simp add: tagged_def)
  then have "m = f"
    using k(4) by simp
  moreover have sub: "set (ps_queues s' ! j) \<subseteq> set (ps_queues s ! j)" if "j < 3" for j
    using k(1-3) len that by (cases "j = k") (auto simp: nth_list_update)
  have "tagged s'"
    unfolding tagged_def
  proof (intro allI impI ballI)
    fix j x
    assume "j < 3" "x \<in> set (ps_queues s' ! j)"
    then show "sm_priority x = priority_from_index j"
      using assms(2) sub[of j] unfolding tagged_def by blast
  qed
  moreover have "of_class j [f] @ ps_queues s' ! j = ps_queues s ! j" if "j < 3" for j
    using k len that \<open>sm_priority f = _\<close> by (cases "j = k") (simp_all add: of_class_def)
  ultimately show ?thesis
    using k(5,6) Some by simp
qed

lemma sched_run_ok:
  assumes "sched_ok s" "tagged s" "sched_run ops s = (out, s')"
  shows "sched_ok s' \<and> tagged s' \<and> ps_config s' = ps_config s \<and>
    (\<forall>j<3. of_class j out @ ps_queues s' ! j = ps_queues s ! j @ enqueued j ops)"
  using assms
proof (induction ops s arbitrary: out rule: sched_run.induct)
  case (2 m p ops s)
  then show ?case
    using scheduler_enqueue_ok[OF 2(2), where m = m and p = p] tagged_enqueue[OF 2(2,3)] by simp
next
  case (3 ops s)
  obtain r s1 where d: "scheduler_dequeue s = (r, s1)"
    by fastforce
  obtain out1 where o: "sched_run ops s1 = (out1, s')" "out = (case r of None \<Rightarrow> out1 | Some m \<Rightarrow> m # out1)"
    using 3(4) d by (auto split: prod.splits)
  note dq = dequeue_tagged[OF 3(2,3) d]
  have IH: "sched_ok s' \<and> tagged s' \<and> ps_config s' = ps_config s1 \<and>
      (\<forall>j<3. of_class j out1 @ ps_queues s' ! j = ps_queues s1 ! j @ enqueued j ops)"
    using 3(1)[OF d[symmetric] _ _ o(1)] dq by simp
  have "of_class j out @ ps_queues s' ! j = ps_queues s ! j @ enqueued j (Deq # ops)" if "j < 3" for j
  proof -
    have "of_class j out = (case r of None \<Rightarrow> [] | Some m \<Rightarrow> of_class j [m]) @ of_class j out1"
      by (cases r) (simp_all add: o(2) of_class_def)
    then have "of_class j out @ ps_queues s' ! j =
        (case r of None \<Rightarrow> [] | Some m \<Rightarrow> of_class j [m]) @ ps_queues s1 ! j @ enqueued j ops"
      using IH that by simp
    then show ?thesis
      using dq that by (simp flip: append_assoc)
  qed
  then show ?case
    using IH dq by simp
qed (simp add: of_class_def)

text \<open>Deficits grow by at most one quantum per visit.\<close>

lemma visit_class_deficit:
  assumes "sched_ok s" "j < 3" "visit_class s = (r, s')"
  shows "ps_deficit_counters s' ! j \<le> ps_deficit_counters s ! j +
    int (sc_quantum_bytes (ps_config s) * sc_weights (ps_config s) ! j)"
proof -
  define idx where "idx = ps_current s"
  have idx: "idx < 3" "length (ps_deficit_counters (add_quantum idx s)) = 3"
    using assms(1) add_quantum_ok(1)[OF assms(1), of idx] by (auto simp: idx_def sched_ok_def)
  note aq = add_quantum_ok(7)[OF assms(1) idx(1), of j]
  have nn: "0 \<le> ps_deficit_counters s ! j"
    using assms(1,2) by (simp add: sched_ok_def)
  have "ps_deficit_counters s' ! j \<le> max 0 (ps_deficit_counters (add_quantum idx s) ! j)"
    using assms(2,3) idx
    by (auto simp: visit_class_def Let_def idx_def[symmetric] pass_turn_def serve_def nth_list_update
        split: list.splits if_splits)
  also have "\<dots> \<le> ps_deficit_counters s ! j + int (sc_quantum_bytes (ps_config s) * sc_weights (ps_config s) ! j)"
    using aq nn by auto
  finally show ?thesis .
qed

lemma dequeue_loop_deficit:
  assumes "sched_ok s" "j < 3" "dequeue_loop n s = (r, s')"
  shows "ps_deficit_counters s' ! j \<le> ps_deficit_counters s ! j +
    int n * int (sc_quantum_bytes (ps_config s) * sc_weights (ps_config s) ! j)"
  using assms
proof (induction n arbitrary: s)
  case (Suc n)
  obtain r1 s1 where v: "visit_class s = (r1, s1)"
    by fastforce
  note ok = visit_class_ok[OF Suc.prems(1) v] and d = visit_class_deficit[OF Suc.prems(1,2) v]
  show ?case
  proof (cases r1)
    case None
    then have "dequeue_loop n s1 = (r, s')"
      using Suc.prems(3) v by simp
    then show ?thesis
      using Suc.IH[of s1] ok d Suc.prems(2) by (simp add: algebra_simps)
  next
    case (Some m)
    then have "s' = s1"
      using Suc.prems(3) v by simp
    define K where "K = int (sc_quantum_bytes (ps_config s) * sc_weights (ps_config s) ! j)"
    have "0 \<le> int n * K" "int (Suc n) * K = K + int n * K"
      by (simp_all add: K_def algebra_simps)
    then show ?thesis
      using d unfolding K_def[symmetric] \<open>s' = s1\<close> by linarith
  qed
qed simp

fun dequeues :: "'a sched_op list \<Rightarrow> nat" where
  "dequeues [] = 0"
| "dequeues (Enq m p # ops) = dequeues ops"
| "dequeues (Deq # ops) = Suc (dequeues ops)"

lemma sched_run_deficit:
  assumes "sched_ok s" "tagged s" "j < 3" "sched_run ops s = (out, s')"
  shows "ps_deficit_counters s' ! j \<le> ps_deficit_counters s ! j +
    int (3 * dequeues ops) * int (sc_quantum_bytes (ps_config s) * sc_weights (ps_config s) ! j)"
  using assms
proof (induction ops s arbitrary: out rule: sched_run.induct)
  case (2 m p ops s)
  have "ps_deficit_counters (scheduler_enqueue m p s) = ps_deficit_counters s"
    by (simp add: scheduler_enqueue_def Let_def)
  then show ?case
    using 2 scheduler_enqueue_ok(1,2)[OF 2(2), where m = m and p = p] tagged_enqueue[OF 2(2,3)] by simp
next
  case (3 ops s)
  obtain r s1 where d: "scheduler_dequeue s = (r, s1)"
    by fastforce
  obtain out1 where o: "sched_run ops s1 = (out1, s')"
    using 3(5) d by (auto split: prod.splits)
  note dq = dequeue_tagged[OF 3(2,3) d]
  have "ps_deficit_counters s1 ! j \<le> ps_deficit_counters s ! j +
      3 * int (sc_quantum_bytes (ps_config s) * sc_weights (ps_config s) ! j)"
    using dequeue_loop_deficit[OF 3(2,4), of 3 r s1] d by (simp add: scheduler_dequeue_def)
  then show ?case
    using 3(1)[OF d[symmetric] _ _ 3(4) o] dq by (simp add: algebra_simps)
qed simp

lemma tagged_new: "tagged (scheduler_new config)"
  by (simp add: tagged_def scheduler_new_def all_less_3)

section \<open>Properties\<close>

text \<open>
  (C35) The scheduler loses, duplicates and reorders nothing within a priority: after any sequence of
  calls, what was dequeued of a class followed by what waits in its queue is what was enqueued, in order.
  The deficit of a class is never negative and at most three quanta per call, so it stays far below 64 bits.
\<close>

theorem scheduler_is_fifo_per_class:
  assumes "length (sc_weights config) = 3" "list_all (\<lambda>w. w < 2 ^ 32) (sc_weights config)" "j < 3"
    and "sched_run ops (scheduler_new config) = (out, s)"
  shows "of_class j out @ ps_queues s ! j = enqueued j ops \<and> 0 \<le> ps_deficit_counters s ! j \<and>
    ps_deficit_counters s ! j \<le> int (3 * dequeues ops * (sc_quantum_bytes config * sc_weights config ! j))"
proof -
  let ?n = "scheduler_new config :: 'a priority_scheduler"
  have new: "sched_ok ?n" "tagged ?n" "ps_queues ?n ! j = []" "ps_deficit_counters ?n ! j = 0" "ps_config ?n = config"
    using scheduler_new_ok[OF assms(1,2)] tagged_new assms(3) by (auto simp: scheduler_new_def less_3)
  have "ps_deficit_counters s ! j \<le> int (3 * dequeues ops * (sc_quantum_bytes config * sc_weights config ! j))"
    using sched_run_deficit[OF new(1,2) assms(3,4)] new(4,5) by simp
  then show ?thesis
    using sched_run_ok[OF new(1,2) assms(4)] new(3) assms(3) by (simp add: sched_ok_def)
qed

definition demo_msg :: "nat \<Rightarrow> unit scheduled_message" where
  "demo_msg n = \<lparr>sm_priority = Low, sm_size_bytes = n, sm_payload = ()\<rparr>"

lemma scheduler_dequeue_3: "scheduler_dequeue s = dequeue_loop (Suc (Suc (Suc 0))) s"
  by (simp add: scheduler_dequeue_def numeral_3_eq_3)

lemmas sched_eval = scheduler_new_def scheduler_enqueue_def scheduler_dequeue_3
  visit_class_def add_quantum_def serve_def pass_turn_def Let_def priority_from_index_def

theorem scheduler_is_fifo_per_class_witness:
  "\<exists>out s. sched_run [Enq (demo_msg 10) Low, Enq (demo_msg 20) High, Deq, Enq (demo_msg 30) Low, Deq]
      (scheduler_new scheduler_config_default) = (out, s) \<and>
    of_class 2 out @ ps_queues s ! 2 = [demo_msg 10, demo_msg 30]"
proof -
  obtain out s where r: "sched_run [Enq (demo_msg 10) Low, Enq (demo_msg 20) High, Deq, Enq (demo_msg 30) Low, Deq]
      (scheduler_new scheduler_config_default) = (out, s)"
    by fastforce
  show ?thesis
    using scheduler_is_fifo_per_class[OF _ _ _ r, of 2] r
    by (simp add: scheduler_config_default_def demo_msg_def)
qed

text \<open>
  (C17) No class starves: whatever happened before and whatever the other classes hold, the first message of a
  class is sent within one more call than the other two classes' burst limits together, as long as it fits
  the quantum of its class.
\<close>

theorem scheduler_serves_every_class:
  assumes "length (sc_weights config) = 3" "list_all (\<lambda>w. w < 2 ^ 32) (sc_weights config)" "i < 3"
    and "s = snd (sched_run ops (scheduler_new config))" "ps_queues s ! i = m # rest"
    and "sm_size_bytes m \<le> sc_quantum_bytes config * sc_weights config ! i"
  shows "Some m \<in> set (dequeue_all
    (1 + max 1 (sc_weights config ! ((i + 1) mod 3)) + max 1 (sc_weights config ! ((i + 2) mod 3))) s)"
proof -
  obtain out where r: "sched_run ops (scheduler_new config) = (out, s)"
    using assms(4) by (metis prod.collapse)
  have ok: "sched_ok s" "tagged s" "ps_config s = config"
    using sched_run_ok[OF scheduler_new_ok[OF assms(1,2)] tagged_new r] by (auto simp: scheduler_new_def)
  have "sm_priority m = priority_from_index i"
    using ok(2) assms(3,5) by (simp add: tagged_def)
  then have m: "m\<lparr>sm_priority := priority_from_index i\<rparr> = m"
    by simp
  have lt: "ahead i (sm_size_bytes m) s <
      1 + max 1 (sc_weights config ! ((i + 1) mod 3)) + max 1 (sc_weights config ! ((i + 2) mod 3))"
    using ahead_le[of i "sm_size_bytes m" s] ok(3) by simp
  from dequeue_all_serves[OF ok(1) assms(3,5), unfolded ok(3), OF assms(6) lt] show ?thesis
    unfolding m .
qed

theorem scheduler_serves_every_class_witness:
  "Some (demo_msg 1000) \<in> set (dequeue_all 7 (snd (sched_run
     [Enq (demo_msg 1000) Low, Enq (demo_msg 1) High, Enq (demo_msg 2) High, Enq (demo_msg 5000) Normal]
     (scheduler_new scheduler_config_default))))"
  using scheduler_serves_every_class[OF _ _ _ refl, of scheduler_config_default 2
      "[Enq (demo_msg 1000) Low, Enq (demo_msg 1) High, Enq (demo_msg 2) High, Enq (demo_msg 5000) Normal]" "demo_msg 1000" "[]"]
  by (simp add: scheduler_config_default_def scheduler_new_def scheduler_enqueue_def demo_msg_def)

lemma start_sends_None:
  assumes "fst (scheduler_dequeue (sl_scheduler l)) = None" "0 < n"
  shows "start_sends n l = l\<lparr>sl_scheduler := snd (scheduler_dequeue (sl_scheduler l))\<rparr>"
  using assms by (cases n) (auto split: prod.split)

text \<open>
  (C36) The send loop can stall: a frame larger than 64 KiB times the weight of its class, alone in the
  scheduler, is not started, and with nothing in flight the loop has no event left but further
  commands, so the send hangs until somebody else sends.
\<close>

theorem large_frame_stalls_send_loop:
  assumes "MAX_FRAME_SIZE * weights ! priority_index (kind_priority (stream_kind_for_frame f)) < size_of f"
    and "length weights = 3" "size_of f < 2 ^ 64"
  shows "\<exists>l. send_loop_step size_of True (Commands [Unicast p f]) (send_loop_new weights) = Some l \<and>
    sl_started (start_sends MAX_CONCURRENT_SENDS l) = [] \<and> sl_in_flight l = 0 \<and>
    send_loop_step size_of True SendFinished l = None"
proof -
  obtain w0 w1 w2 where w: "weights = [w0, w1, w2]"
    using assms(2) by (auto simp: length_Suc_conv numeral_3_eq_3)
  define mk where "mk q = \<lparr>ps_queues = q, ps_deficit_counters = [0, 0, 0], ps_should_add_quantum = [True, True, True],
    ps_served_in_turn = [0, 0, 0], ps_current = 0,
    ps_config = \<lparr>sc_weights = weights, sc_quantum_bytes = MAX_FRAME_SIZE\<rparr>\<rparr>" for q :: "send_command scheduled_message list list"
  define l where "l = \<lparr>sl_scheduler = enqueue_send_command size_of (Unicast p f) True (mk [[], [], []]),
    sl_in_flight = 0, sl_started = []\<rparr>"
  have new: "send_loop_new weights = \<lparr>sl_scheduler = mk [[], [], []], sl_in_flight = 0, sl_started = []\<rparr>"
    by (simp add: send_loop_new_def scheduler_new_def mk_def)
  have empty: "scheduler_dequeue (mk [[], [], []]) = (None, mk [[], [], []])"
    by (simp add: mk_def w sched_eval)
  have full: "fst (scheduler_dequeue (sl_scheduler l)) = None"
    using assms(1,3) unfolding l_def enqueue_send_command_def mk_def w
    by (cases "kind_priority (stream_kind_for_frame f)") (simp_all add: sched_eval MAX_FRAME_SIZE_def)
  have "start_sends MAX_CONCURRENT_SENDS (send_loop_new weights) = send_loop_new weights"
    by (subst start_sends_None) (simp_all add: MAX_CONCURRENT_SENDS_def new empty)
  then have "send_loop_step size_of True (Commands [Unicast p f]) (send_loop_new weights) = Some l"
    by (simp add: new l_def)
  moreover have "start_sends MAX_CONCURRENT_SENDS l = l\<lparr>sl_scheduler := snd (scheduler_dequeue (sl_scheduler l))\<rparr>"
    by (rule start_sends_None[OF full]) (simp add: MAX_CONCURRENT_SENDS_def)
  ultimately show ?thesis
    by (simp add: l_def)
qed

theorem large_frame_stalls_send_loop_witness:
  "\<exists>l. send_loop_step (\<lambda>_. 70000) True (Commands [Unicast demo_peer (User [])]) (send_loop_new [4, 2, 1]) = Some l \<and>
     send_loop_step (\<lambda>_. 70000) True SendFinished l = None"
  using large_frame_stalls_send_loop[of "[4, 2, 1]" "User []" "\<lambda>_. 70000" demo_peer]
  by (auto simp: MAX_FRAME_SIZE_def)

fun bucket_run :: "(u64 \<times> nat) list \<Rightarrow> token_bucket \<Rightarrow> nat \<times> token_bucket" where
  "bucket_run [] b = (0, b)"
| "bucket_run ((amount, now) # rs) b =
     (case try_consume amount now b of
        (r, b1) \<Rightarrow> (case bucket_run rs b1 of
           (admitted, b2) \<Rightarrow> (case r of Inl _ \<Rightarrow> admitted | Inr _ \<Rightarrow> unat amount + admitted, b2)))"

text \<open>
  Since \<open>t0\<close> no more than the capacity and what the rate yields was admitted or is in the bucket; \<open>g\<close> is what was
  admitted before.
\<close>

definition bucket_inv :: "nat \<Rightarrow> nat \<Rightarrow> token_bucket \<Rightarrow> bool" where
  "bucket_inv t0 g b \<longleftrightarrow> t0 \<le> tb_last_refill b \<and> tb_tokens b \<le> tb_capacity b \<and>
     (g + unat (tb_tokens b)) * 10 ^ 9 \<le>
       unat (tb_capacity b) * 10 ^ 9 + unat (tb_refill_rate b) * (tb_last_refill b - t0)"

lemma refill_amount: "unat (of_nat ((r :: nat) * (e div 1000) div 1000000) :: u64) * 10 ^ 9 \<le> r * e"
proof -
  have "unat (of_nat (r * (e div 1000) div 1000000) :: u64) \<le> r * (e div 1000) div 1000000"
    by (simp add: unat_of_nat)
  then have "unat (of_nat (r * (e div 1000) div 1000000) :: u64) * 10 ^ 9 \<le> (r * (e div 1000) div 1000000) * 1000000 * 1000"
    by simp
  also have "\<dots> \<le> r * (e div 1000) * 1000"
    by simp
  also have "\<dots> \<le> r * e"
    by (simp add: mult.assoc)
  finally show ?thesis .
qed

lemma bucket_refill_fields:
  "tb_capacity (bucket_refill now b) = tb_capacity b" "tb_refill_rate (bucket_refill now b) = tb_refill_rate b"
  "tb_last_refill b \<le> now \<Longrightarrow> tb_last_refill (bucket_refill now b) \<le> now"
  by (auto simp: bucket_refill_def Let_def)

lemma bucket_refill_inv:
  assumes "bucket_inv t0 g b" "tb_last_refill b \<le> now"
  shows "bucket_inv t0 g (bucket_refill now b)"
proof -
  define e where "e = now - tb_last_refill b"
  define add where "add = (of_nat (unat (tb_refill_rate b) * (e div 1000) div 1000000) :: u64)"
  show ?thesis
  proof (cases "e = 0 \<or> \<not> add > 0")
    case True
    then have "bucket_refill now b = b"
      by (auto simp: bucket_refill_def Let_def e_def[symmetric] add_def[symmetric])
    then show ?thesis
      using assms(1) by simp
  next
    case False
    then have b: "bucket_refill now b = b\<lparr>tb_tokens := min (tb_tokens b + add) (tb_capacity b), tb_last_refill := now\<rparr>"
      by (simp add: bucket_refill_def Let_def e_def[symmetric] add_def[symmetric])
    have "unat (min (tb_tokens b + add) (tb_capacity b)) \<le> unat (tb_tokens b + add)"
      by (simp add: min_def word_le_nat_alt)
    also have "\<dots> \<le> unat (tb_tokens b) + unat add"
      by (simp add: unat_word_ariths)
    finally have "(g + unat (min (tb_tokens b + add) (tb_capacity b))) * 10 ^ 9 \<le>
        (g + unat (tb_tokens b)) * 10 ^ 9 + unat add * 10 ^ 9"
      by simp
    also have "\<dots> \<le> unat (tb_capacity b) * 10 ^ 9 + unat (tb_refill_rate b) * (tb_last_refill b - t0) +
        unat (tb_refill_rate b) * e"
      using assms(1) refill_amount[of "unat (tb_refill_rate b)" e] unfolding bucket_inv_def add_def by linarith
    also have "\<dots> = unat (tb_capacity b) * 10 ^ 9 + unat (tb_refill_rate b) * (now - t0)"
    proof -
      have "now - t0 = tb_last_refill b - t0 + e"
        using assms by (simp add: bucket_inv_def e_def)
      then show ?thesis
        by (simp add: distrib_left)
    qed
    finally show ?thesis
      using assms unfolding b bucket_inv_def by simp
  qed
qed

lemma try_consume_inv:
  assumes "bucket_inv t0 g b" "tb_last_refill b \<le> now" "try_consume amount now b = (r, b')"
  shows "bucket_inv t0 (case r of Inl _ \<Rightarrow> g | Inr _ \<Rightarrow> g + unat amount) b' \<and> tb_last_refill b' \<le> now \<and>
    tb_capacity b' = tb_capacity b \<and> tb_refill_rate b' = tb_refill_rate b"
proof -
  define b1 where "b1 = bucket_refill now b"
  have inv: "bucket_inv t0 g b1" and f: "tb_last_refill b1 \<le> now" "tb_capacity b1 = tb_capacity b"
    "tb_refill_rate b1 = tb_refill_rate b"
    using bucket_refill_inv[OF assms(1,2)] bucket_refill_fields(1,2) bucket_refill_fields(3)[OF assms(2)]
    by (simp_all add: b1_def)
  show ?thesis
  proof (cases "tb_tokens b1 < amount")
    case True
    then show ?thesis
      using assms(3) inv f by (auto simp: try_consume_def Let_def b1_def[symmetric])
  next
    case False
    then have le: "unat amount \<le> unat (tb_tokens b1)"
      by (simp add: word_le_nat_alt not_less)
    then have sub: "unat (tb_tokens b1 - amount) = unat (tb_tokens b1) - unat amount"
      by (simp add: unat_sub word_le_nat_alt)
    then have "tb_tokens b1 - amount \<le> tb_capacity b1"
      using inv unfolding bucket_inv_def word_le_nat_alt by linarith
    then have "bucket_inv t0 (g + unat amount) (b1\<lparr>tb_tokens := tb_tokens b1 - amount\<rparr>)"
      using inv le sub by (simp add: bucket_inv_def)
    then show ?thesis
      using assms(3) f False by (auto simp: try_consume_def Let_def b1_def[symmetric])
  qed
qed

lemma bucket_run_inv:
  assumes "bucket_inv t0 g b" "sorted (tb_last_refill b # map snd rs)" "bucket_run rs b = (n, b')"
  shows "bucket_inv t0 (g + n) b' \<and> tb_last_refill b' \<le> last (tb_last_refill b # map snd rs) \<and>
    tb_capacity b' = tb_capacity b \<and> tb_refill_rate b' = tb_refill_rate b"
  using assms
proof (induction rs arbitrary: g b n)
  case (Cons a rs)
  obtain amount now where a: "a = (amount, now)"
    by fastforce
  obtain r b1 where c: "try_consume amount now b = (r, b1)"
    by fastforce
  obtain n1 where n1: "bucket_run rs b1 = (n1, b')" "n = (case r of Inl _ \<Rightarrow> n1 | Inr _ \<Rightarrow> unat amount + n1)"
    using Cons.prems(3) c by (auto simp: a split: prod.splits)
  note inv = try_consume_inv[OF Cons.prems(1) _ c]
  have now: "tb_last_refill b \<le> now" "sorted (tb_last_refill b1 # map snd rs)"
    using Cons.prems(2) inv by (auto simp: a)
  define g1 where "g1 = (case r of Inl _ \<Rightarrow> g | Inr _ \<Rightarrow> g + unat amount)"
  have IH: "bucket_inv t0 (g1 + n1) b' \<and> tb_last_refill b' \<le> last (tb_last_refill b1 # map snd rs) \<and>
      tb_capacity b' = tb_capacity b1 \<and> tb_refill_rate b' = tb_refill_rate b1"
  proof -
    have "bucket_inv t0 g1 b1"
      using inv now(1) by (simp add: g1_def)
    from Cons.IH[OF this now(2) n1(1)] show ?thesis .
  qed
  moreover have "g1 + n1 = g + n"
    by (cases r) (simp_all add: g1_def n1(2))
  moreover have "last (tb_last_refill b1 # map snd rs) \<le> last (tb_last_refill b # map snd (a # rs))"
    using inv now(1) by (simp add: a)
  ultimately show ?case
    using inv now(1) by auto
qed simp



end
