(* ===== verification/Wal_Format.thy ===== *)
theory Wal_Format
  imports Chirps_Prelude
begin

text \<open>
  The on-disk formats of \<^verbatim>\<open>chirps-raft-storage/src/wal_storage.rs\<close>: the length and checksum
  framing of WAL records (\<^verbatim>\<open>append_record\<close>, \<^verbatim>\<open>validate_wal_framing\<close>), the checksummed frame inside a
  record (\<^verbatim>\<open>encode_frame\<close>, \<^verbatim>\<open>decode_frame\<close>) and the chunked snapshot file
  (\<^verbatim>\<open>encode_snapshot_file\<close> and the reader in \<^verbatim>\<open>get_current_snapshot\<close>).  The checksum
  (\<^verbatim>\<open>crc32fast::hash\<close>) is the parameter \<open>crc\<close>; nothing is assumed about it.
\<close>

section \<open>WAL records\<close>

definition append_record :: "(bytes \<Rightarrow> u32) \<Rightarrow> bytes \<Rightarrow> bytes" where
  "append_record crc data =
     to_le_bytes (of_nat (length data) :: u32) @ to_le_bytes (crc data) @ data"

datatype framing_error = TruncatedHeader nat | TruncatedBody nat nat nat | ChecksumMismatch nat

text \<open>The scan, on the bytes from \<open>offset\<close> to the end of the file.\<close>

function validate_framing_from :: "(bytes \<Rightarrow> u32) \<Rightarrow> nat \<Rightarrow> bytes \<Rightarrow> framing_error + unit" where
  "validate_framing_from crc offset bs =
     (if bs = [] then Ok ()
      else if length bs < 8 then Err (TruncatedHeader offset)
      else
        let record_len = unat (from_le_bytes (slice_range bs 0 4) :: u32);
            expected = from_le_bytes (slice_range bs 4 8) :: u32;
            rest = drop 8 bs
        in if record_len > length rest then Err (TruncatedBody (offset + 8) record_len (length rest))
           else if crc (take record_len rest) \<noteq> expected
           then Err (ChecksumMismatch (offset + 8 + record_len))
           else validate_framing_from crc (offset + 8 + record_len) (drop record_len rest))"
  by pat_completeness auto
termination
  by (relation "measure (\<lambda>(_, _, bs). length bs)") (auto simp: not_less)

declare validate_framing_from.simps [simp del]

definition validate_wal_framing :: "(bytes \<Rightarrow> u32) \<Rightarrow> bytes \<Rightarrow> framing_error + unit" where
  "validate_wal_framing crc file = validate_framing_from crc 0 file"

section \<open>Frames\<close>

definition encode_frame :: "(bytes \<Rightarrow> u32) \<Rightarrow> ('a \<Rightarrow> string + bytes) \<Rightarrow> 'a \<Rightarrow> string + bytes" where
  "encode_frame crc ser value =
     and_then (ser value) (\<lambda>payload. Ok (to_le_bytes (crc payload) @ payload))"

definition decode_frame :: "(bytes \<Rightarrow> u32) \<Rightarrow> (bytes \<Rightarrow> string + 'a) \<Rightarrow> bytes \<Rightarrow> string + 'a" where
  "decode_frame crc de bs =
     (if length bs < 4 then Err ''frame too small''
      else if (from_le_bytes (slice_range bs 0 4) :: u32) \<noteq> crc (drop 4 bs) then Err ''checksum mismatch''
      else de (drop 4 bs))"

section \<open>Snapshot files\<close>

definition SNAP_MAGIC :: bytes where
  "SNAP_MAGIC = [0x53, 0x4E, 0x41, 0x50]"

definition SNAP_VERSION :: u32 where
  "SNAP_VERSION = 1"

definition snapshot_block :: "(bytes \<Rightarrow> u32) \<Rightarrow> bytes \<Rightarrow> bytes \<Rightarrow> bytes" where
  "snapshot_block crc meta_part data_part =
     to_le_bytes (of_nat (length meta_part) :: u32) @ to_le_bytes (of_nat (length data_part) :: u32)
     @ to_le_bytes (crc (meta_part @ data_part)) @ meta_part @ data_part"

text \<open>The loop that writes blocks; \<open>data\<close> is what is left from the current offset.\<close>

function snapshot_blocks :: "(bytes \<Rightarrow> u32) \<Rightarrow> nat \<Rightarrow> bytes \<Rightarrow> bytes \<Rightarrow> bytes" where
  "snapshot_blocks crc chunk_size meta_part data =
     (let take_len = min (max chunk_size 1) (length data)
      in snapshot_block crc meta_part (take take_len data)
         @ (if take_len \<ge> length data then []
            else snapshot_blocks crc chunk_size [] (drop take_len data)))"
  by pat_completeness auto
termination
  by (relation "measure (\<lambda>(_, _, _, data). length data)") auto

declare snapshot_blocks.simps [simp del]

definition snapshot_terminator :: bytes where
  "snapshot_terminator = to_le_bytes (0 :: u32) @ to_le_bytes (0 :: u32) @ to_le_bytes (0 :: u32)"

definition encode_snapshot_file :: "(bytes \<Rightarrow> u32) \<Rightarrow> bytes \<Rightarrow> bytes \<Rightarrow> nat \<Rightarrow> bytes" where
  "encode_snapshot_file crc meta_bytes data chunk_size =
     SNAP_MAGIC @ to_le_bytes SNAP_VERSION @ snapshot_blocks crc chunk_size meta_bytes data
     @ snapshot_terminator"

datatype snapshot_error =
  InvalidHeader | VersionMismatch u32 | SnapshotTruncated | InvalidTerminator
  | SnapshotChecksum | TrailingBytes | MetaMissing

text \<open>The loop that reads blocks, returning the meta bytes, the data and what follows the terminator.\<close>

function read_blocks ::
  "(bytes \<Rightarrow> u32) \<Rightarrow> bytes \<Rightarrow> bytes option \<Rightarrow> bytes \<Rightarrow> snapshot_error + (bytes option \<times> bytes \<times> bytes)" where
  "read_blocks crc bs meta data =
     (if length bs < 12 then Err SnapshotTruncated
      else
        let meta_len = unat (from_le_bytes (slice_range bs 0 4) :: u32);
            data_len = unat (from_le_bytes (slice_range bs 4 8) :: u32);
            checksum = from_le_bytes (slice_range bs 8 12) :: u32;
            rest = drop 12 bs
        in if meta_len = 0 \<and> data_len = 0
           then (if checksum \<noteq> 0 then Err InvalidTerminator else Ok (meta, data, rest))
           else if length rest < meta_len + data_len then Err SnapshotTruncated
           else
             let body = take (meta_len + data_len) rest
             in if crc body \<noteq> checksum then Err SnapshotChecksum
                else read_blocks crc (drop (meta_len + data_len) rest)
                       (if meta_len > 0 then Some (take meta_len body) else meta)
                       (data @ drop meta_len body))"
  by pat_completeness auto
termination
  by (relation "measure (\<lambda>(_, bs, _, _). length bs)") (auto simp: not_less)

declare read_blocks.simps [simp del]

definition read_snapshot_file :: "(bytes \<Rightarrow> u32) \<Rightarrow> bytes \<Rightarrow> snapshot_error + (bytes \<times> bytes)" where
  "read_snapshot_file crc bs =
     (if length bs < 20 \<or> take 4 bs \<noteq> SNAP_MAGIC then Err InvalidHeader
      else
        let version = from_le_bytes (slice_range bs 4 8) :: u32
        in if version \<noteq> SNAP_VERSION then Err (VersionMismatch version)
           else and_then (read_blocks crc (drop 8 bs) None []) (\<lambda>(meta, data, rest).
                  if rest \<noteq> [] then Err TrailingBytes
                  else case meta of None \<Rightarrow> Err MetaMissing | Some m \<Rightarrow> Ok (m, data)))"

section \<open>Framing lemmas\<close>

lemma unat_of_nat_u32: "n < 2 ^ 32 \<Longrightarrow> unat (of_nat n :: u32) = n"
  by (simp add: unat_of_nat)

lemma length_append_record [simp]: "length (append_record crc data) = 8 + length data"
  by (simp add: append_record_def)

lemma append_record_not_Nil [simp]: "append_record crc data \<noteq> []"
  by (auto dest: arg_cong[where f = length])

lemma append_record_header:
  assumes "length data < 2 ^ 32"
  shows "from_le_bytes (slice_range (append_record crc data @ rest) 0 4) = (of_nat (length data) :: u32)"
    and "from_le_bytes (slice_range (append_record crc data @ rest) 4 8) = crc data"
    and "drop 8 (append_record crc data @ rest) = data @ rest"
  by (simp_all add: append_record_def slice_range_def)

lemma validate_record:
  assumes "length data < 2 ^ 32"
  shows "validate_framing_from crc off (append_record crc data @ rest) =
    validate_framing_from crc (off + 8 + length data) rest"
proof -
  have "append_record crc data @ rest \<noteq> []" "\<not> length (append_record crc data @ rest) < 8"
    by simp_all
  then show ?thesis
    using append_record_header[OF assms, of crc rest] assms
    by (subst validate_framing_from.simps) (simp add: Let_def unat_of_nat_u32)
qed

lemma validate_records:
  assumes "\<forall>r\<in>set rs. length r < 2 ^ 32"
  shows "\<exists>off'. validate_framing_from crc off (concat (map (append_record crc) rs) @ rest) =
    validate_framing_from crc off' rest"
  using assms
proof (induction rs arbitrary: off)
  case (Cons r rs)
  then show ?case
    using validate_record[of r crc off "concat (map (append_record crc) rs) @ rest"] by auto
qed auto

lemma validate_whole_records:
  assumes "\<forall>r\<in>set rs. length r < 2 ^ 32"
  shows "validate_wal_framing crc (concat (map (append_record crc) rs)) = Ok ()"
proof -
  obtain off where "validate_framing_from crc 0 (concat (map (append_record crc) rs) @ []) =
      validate_framing_from crc off []"
    using validate_records[OF assms] by blast
  then show ?thesis
    by (simp add: validate_wal_framing_def validate_framing_from.simps)
qed

lemma validate_torn_record:
  assumes "length data < 2 ^ 32" "0 < k" "k < length (append_record crc data)"
  shows "\<exists>e. validate_framing_from crc off (take k (append_record crc data)) = Err e"
proof (cases "k < 8")
  case True
  then show ?thesis
    using assms by (subst validate_framing_from.simps) auto
next
  case False
  let ?bs = "take k (append_record crc data)"
  have hdr: "slice_range ?bs 0 4 = slice_range (append_record crc data @ []) 0 4"
    using False by (simp add: slice_range_def min_def)
  have "length ?bs = k" "length (drop 8 ?bs) < length data"
    using assms False by simp_all
  then show ?thesis
    using False assms append_record_header(1)[OF assms(1), of crc "[]"]
    by (subst validate_framing_from.simps) (auto simp: Let_def hdr unat_of_nat_u32)
qed

lemma decode_encode_frame:
  assumes "encode_frame crc ser x = Ok bs"
  shows "\<exists>payload. ser x = Ok payload \<and> decode_frame crc de bs = de payload"
  using assms by (auto simp: encode_frame_def and_then_eq_Ok decode_frame_def slice_range_def)

section \<open>Snapshot file lemmas\<close>

lemma length_snapshot_block [simp]:
  "length (snapshot_block crc mp dp) = 12 + length mp + length dp"
  by (simp add: snapshot_block_def)

lemma snapshot_block_fields:
  "slice_range (snapshot_block crc mp dp @ rest) 0 4 = to_le_bytes (of_nat (length mp) :: u32)"
  "slice_range (snapshot_block crc mp dp @ rest) 4 8 = to_le_bytes (of_nat (length dp) :: u32)"
  "slice_range (snapshot_block crc mp dp @ rest) 8 12 = to_le_bytes (crc (mp @ dp))"
  "drop 12 (snapshot_block crc mp dp @ rest) = mp @ dp @ rest"
  by (simp_all add: snapshot_block_def slice_range_def)

lemma drop_snapshot_block [simp]:
  "drop 12 (snapshot_block crc mp dp) = mp @ dp"
  "drop (length mp + 12) (snapshot_block crc mp dp) = dp"
  by (simp_all add: snapshot_block_def)

lemma read_block:
  assumes "length mp < 2 ^ 32" "length dp < 2 ^ 32" "mp \<noteq> [] \<or> dp \<noteq> []"
  shows "read_blocks crc (snapshot_block crc mp dp @ rest) meta data =
    read_blocks crc rest (if mp \<noteq> [] then Some mp else meta) (data @ dp)"
proof -
  let ?b = "snapshot_block crc mp dp @ rest"
  have "\<not> length ?b < 12"
    by simp
  moreover have "unat (from_le_bytes (slice_range ?b 0 4) :: u32) = length mp"
    "unat (from_le_bytes (slice_range ?b 4 8) :: u32) = length dp"
    "from_le_bytes (slice_range ?b 8 12) = crc (mp @ dp)"
    using assms by (simp_all only: snapshot_block_fields from_to_bytes_u32 unat_of_nat_u32)
  moreover have "\<not> (length mp = 0 \<and> length dp = 0)"
    using assms(3) by auto
  ultimately show ?thesis
    by (subst read_blocks.simps) (simp add: Let_def snapshot_block_fields)
qed

lemma read_torn_block:
  assumes "length mp < 2 ^ 32" "length dp < 2 ^ 32" "mp \<noteq> [] \<or> dp \<noteq> []"
    and "k < length (snapshot_block crc mp dp)"
  shows "read_blocks crc (take k (snapshot_block crc mp dp)) meta data = Err SnapshotTruncated"
proof (cases "k < 12")
  case True
  then show ?thesis
    by (subst read_blocks.simps) simp
next
  case False
  let ?b = "snapshot_block crc mp dp"
  have "slice_range (take k ?b) 0 4 = slice_range (?b @ []) 0 4"
    "slice_range (take k ?b) 4 8 = slice_range (?b @ []) 4 8"
    using False by (simp_all add: slice_range_def min_def drop_take)
  then have "unat (from_le_bytes (slice_range (take k ?b) 0 4) :: u32) = length mp"
    "unat (from_le_bytes (slice_range (take k ?b) 4 8) :: u32) = length dp"
    using assms(1,2) by (simp_all only: snapshot_block_fields from_to_bytes_u32 unat_of_nat_u32)
  moreover have "k - 12 < length mp + length dp" "\<not> length (take k ?b) < 12"
    using assms(4) False by simp_all
  moreover have "\<not> (length mp = 0 \<and> length dp = 0)"
    using assms(3) by auto
  ultimately show ?thesis
    by (subst read_blocks.simps) (simp add: Let_def)
qed

lemma read_terminator:
  "read_blocks crc (snapshot_terminator @ rest) meta data = Ok (meta, data, rest)"
  by (subst read_blocks.simps) (simp add: snapshot_terminator_def Let_def slice_range_def)

lemma length_snapshot_terminator [simp]: "length snapshot_terminator = 12"
  by (simp add: snapshot_terminator_def)

text \<open>Reading the blocks back, and reading any proper prefix of blocks and terminator.\<close>

lemma read_snapshot_blocks:
  assumes "length mp < 2 ^ 32" "max cs 1 < 2 ^ 32" "mp \<noteq> [] \<or> data \<noteq> []"
  shows "read_blocks crc (snapshot_blocks crc cs mp data @ rest) meta acc =
    read_blocks crc rest (if mp \<noteq> [] then Some mp else meta) (acc @ data)"
  using assms
proof (induction crc cs mp data arbitrary: meta acc rule: snapshot_blocks.induct)
  case (1 crc cs mp data)
  define n where "n = min (max cs 1) (length data)"
  have n: "length (take n data) < 2 ^ 32" "mp \<noteq> [] \<or> take n data \<noteq> []"
    using 1(3,4) by (auto simp: n_def)
  note unfold = snapshot_blocks.simps[of crc cs mp data, unfolded Let_def, folded n_def]
  show ?case
  proof (cases "n \<ge> length data")
    case True
    then show ?thesis
      using read_block[OF 1(2) n, of crc rest meta acc] by (simp add: unfold)
  next
    case False
    then have "drop n data \<noteq> []"
      by simp
    then have "read_blocks crc (snapshot_blocks crc cs [] (drop n data) @ rest) m' a'
        = read_blocks crc rest m' (a' @ drop n data)" for m' a'
      using 1(1)[OF n_def, of m' a'] False 1(3) by simp
    then show ?thesis
      using False read_block[OF 1(2) n, of crc "snapshot_blocks crc cs [] (drop n data) @ rest" meta acc]
      by (simp add: unfold)
  qed
qed

lemma take_append_cases:
  "take k (xs @ ys) = (if k < length xs then take k xs else xs @ take (k - length xs) ys)"
  by simp

lemma read_torn_blocks:
  assumes "length mp < 2 ^ 32" "max cs 1 < 2 ^ 32" "mp \<noteq> [] \<or> data \<noteq> []"
    and "k < length (snapshot_blocks crc cs mp data) + 12"
  shows "read_blocks crc (take k (snapshot_blocks crc cs mp data @ snapshot_terminator)) meta acc
    = Err SnapshotTruncated"
  using assms
proof (induction crc cs mp data arbitrary: k meta acc rule: snapshot_blocks.induct)
  case (1 crc cs mp data)
  define n where "n = min (max cs 1) (length data)"
  have n: "length (take n data) < 2 ^ 32" "mp \<noteq> [] \<or> take n data \<noteq> []"
    using 1(3,4) by (auto simp: n_def)
  let ?b = "snapshot_block crc mp (take n data)"
  let ?tl = "(if n \<ge> length data then [] else snapshot_blocks crc cs [] (drop n data)) @ snapshot_terminator"
  have split: "snapshot_blocks crc cs mp data @ snapshot_terminator = ?b @ ?tl"
    using snapshot_blocks.simps[of crc cs mp data, unfolded Let_def, folded n_def] by simp
  show ?case
  proof (cases "k < length ?b")
    case True
    then show ?thesis
      unfolding split using read_torn_block[OF 1(2) n True] by (simp add: take_append_cases)
  next
    case False
    have len: "k - length ?b < length ?tl"
      using 1(5) False arg_cong[OF split, of length] by simp
    have "read_blocks crc (take (k - length ?b) ?tl) m' a' = Err SnapshotTruncated" for m' a'
    proof (cases "n \<ge> length data")
      case True
      then show ?thesis
        using len by (subst read_blocks.simps) simp
    next
      case False
      then have "drop n data \<noteq> []"
        by simp
      then show ?thesis
        using 1(1)[OF n_def, of "k - length ?b" m' a'] False 1(3) len by simp
    qed
    then show ?thesis
      unfolding split using False read_block[OF 1(2) n] by (simp add: take_append_cases)
  qed
qed

lemma read_encode_snapshot_file:
  assumes "meta \<noteq> []" "length meta < 2 ^ 32" "chunk_size < 2 ^ 32"
  shows "read_snapshot_file crc (encode_snapshot_file crc meta data chunk_size) = Ok (meta, data)"
proof -
  let ?f = "encode_snapshot_file crc meta data chunk_size"
  have "read_blocks crc (drop 8 ?f) None [] = Ok (Some meta, data, [])"
    using read_snapshot_blocks[of meta chunk_size data crc "snapshot_terminator @ []" None "[]"]
      read_terminator[of crc "[]" "Some meta" data] assms
    by (simp add: encode_snapshot_file_def SNAP_MAGIC_def)
  moreover have "\<not> length ?f < 20" "take 4 ?f = SNAP_MAGIC"
    "(from_le_bytes (slice_range ?f 4 8) :: u32) = SNAP_VERSION"
    by (simp_all add: encode_snapshot_file_def SNAP_MAGIC_def slice_range_def)
  ultimately show ?thesis
    by (simp add: read_snapshot_file_def Let_def)
qed

section \<open>Properties\<close>

text \<open>
  (C25) Crash detection in the WAL: a file of whole records passes the framing check, and a file
  cut anywhere inside its last record is rejected.
\<close>

theorem wal_framing_detects_torn_tail:
  assumes "\<forall>r\<in>set rs. length r < 2 ^ 32" "length r < 2 ^ 32"
    and "0 < k" "k < length (append_record crc r)"
  shows "validate_wal_framing crc (concat (map (append_record crc) rs)) = Ok ()
    \<and> (\<exists>e. validate_wal_framing crc (concat (map (append_record crc) rs) @ take k (append_record crc r)) = Err e)"
proof -
  obtain off' where "validate_framing_from crc 0
      (concat (map (append_record crc) rs) @ take k (append_record crc r)) =
      validate_framing_from crc off' (take k (append_record crc r))"
    using validate_records[OF assms(1)] by blast
  then show ?thesis
    using validate_whole_records[OF assms(1)] validate_torn_record[OF assms(2-4), of off']
    by (simp add: validate_wal_framing_def)
qed

theorem wal_framing_detects_torn_tail_witness:
  "\<exists>e. validate_wal_framing (\<lambda>bs. of_nat (length bs)) (append_record (\<lambda>bs. of_nat (length bs)) [1, 2, 3]
      @ take 9 (append_record (\<lambda>bs. of_nat (length bs)) [4, 5])) = Err e"
  using wal_framing_detects_torn_tail[of "[[1, 2, 3]]" "[4, 5]" 9 "\<lambda>bs. of_nat (length bs)"] by simp

text \<open>
  (C26) A snapshot file reads back as exactly the meta bytes and the data it was written from,
  for every chunk size.
\<close>

theorem snapshot_file_roundtrip:
  assumes "meta \<noteq> []" "length meta < 2 ^ 32" "chunk_size < 2 ^ 32"
  shows "read_snapshot_file crc (encode_snapshot_file crc meta data chunk_size) = Ok (meta, data)"
  using assms by (rule read_encode_snapshot_file)

theorem snapshot_file_roundtrip_witness:
  "read_snapshot_file (\<lambda>bs. of_nat (length bs)) (encode_snapshot_file (\<lambda>bs. of_nat (length bs)) [9] [1, 2, 3, 4, 5] 2)
     = Ok ([9], [1, 2, 3, 4, 5])"
  by (rule snapshot_file_roundtrip) simp_all

text \<open>
  A snapshot file cut short anywhere is refused: no proper prefix of it reads as a snapshot.
\<close>

theorem truncated_snapshot_is_refused:
  assumes "meta \<noteq> []" "length meta < 2 ^ 32" "chunk_size < 2 ^ 32"
    and "k < length (encode_snapshot_file crc meta data chunk_size)"
  shows "read_snapshot_file crc (take k (encode_snapshot_file crc meta data chunk_size))
    = Err (if k < 20 then InvalidHeader else SnapshotTruncated)"
proof (cases "k < 20")
  case True
  then show ?thesis
    by (simp add: read_snapshot_file_def min_less_iff_disj)
next
  case False
  let ?f = "encode_snapshot_file crc meta data chunk_size"
  have d: "drop 8 (take k ?f) = take (k - 8) (snapshot_blocks crc chunk_size meta data @ snapshot_terminator)"
    by (simp add: encode_snapshot_file_def SNAP_MAGIC_def drop_take)
  have "k - 8 < length (snapshot_blocks crc chunk_size meta data) + 12"
    using assms(4) False by (simp add: encode_snapshot_file_def SNAP_MAGIC_def)
  then have "read_blocks crc (drop 8 (take k ?f)) None [] = Err SnapshotTruncated"
    unfolding d using assms(1-3) by (intro read_torn_blocks) simp_all
  moreover have "take 4 (take k ?f) = SNAP_MAGIC"
    "(from_le_bytes (slice_range (take k ?f) 4 8) :: u32) = SNAP_VERSION"
    using False
    by (simp_all add: encode_snapshot_file_def SNAP_MAGIC_def slice_range_def min_def drop_take)
  moreover have "length (take k ?f) = k"
    using assms(4) by simp
  ultimately show ?thesis
    using False by (simp add: read_snapshot_file_def Let_def del: take_take length_take)
qed

theorem truncated_snapshot_is_refused_witness:
  "read_snapshot_file (\<lambda>bs. of_nat (length bs))
     (take 30 (encode_snapshot_file (\<lambda>bs. of_nat (length bs)) [9] [1, 2, 3, 4, 5] 2))
     = Err SnapshotTruncated"
proof -
  have "30 < length (encode_snapshot_file (\<lambda>bs. of_nat (length bs)) [9] [1, 2, 3, 4, 5] 2)"
    by (simp add: encode_snapshot_file_def snapshot_blocks.simps SNAP_MAGIC_def)
  from truncated_snapshot_is_refused[OF _ _ _ this] show ?thesis
    by simp
qed

end
