(* ===== verification/Tso.thy ===== *)
theory Tso
  imports Wire "HOL-Library.AList"
begin

text \<open>
  The timestamp oracle (\<^verbatim>\<open>alopex-chirps/src/tso\<close>): the replicated state machine
  (\<^verbatim>\<open>state_machine.rs\<close>), the leader-side facade (\<^verbatim>\<open>oracle.rs\<close>), the authenticating service
  (\<^verbatim>\<open>service.rs\<close>) and the caching client with its mesh transport (\<^verbatim>\<open>client.rs\<close>).

  Parameters: the serialiser (\<open>ser_*\<close>, \<open>de_*\<close>), the Raft group the oracle proposes to
  (\<open>metrics\<close>, \<open>propose\<close> over an arbitrary state of the environment), the authenticator, and on
  the client side the answers of the transport (\<open>rpc n\<close> and \<open>discover n\<close> for the \<open>n\<close>-th call).
\<close>

section \<open>State machine\<close>

datatype group_id = GroupId u64

record tso_state =
  ts_last :: "hybrid_timestamp option"
  ts_lease_owner :: "u64 option"
  ts_lease_expires_at_ms :: u64
  ts_committed_ranges :: u64

definition tso_state_default :: tso_state where
  "tso_state_default =
     \<lparr>ts_last = None, ts_lease_owner = None, ts_lease_expires_at_ms = 0, ts_committed_ranges = 0\<rparr>"

datatype tso_command =
    AcquireLease (c_leader_id: u64) (c_now_ms: u64) (c_lease_duration_ms: u64)
  | Allocate (c_leader_id: u64) (c_lease_now_ms: u64) (c_physical_ms: u64) (c_count: u32)

datatype tso_response =
    LeaseAcquired u64
  | LeasePending u64
  | Allocated timestamp_range
  | RInvalidCount
  | RTimestampOverflow

fun tso_transition :: "tso_state \<Rightarrow> tso_command \<Rightarrow> tso_response \<times> tso_state" where
  "tso_transition s (AcquireLease leader now dur) =
     (if (\<exists>owner. ts_lease_owner s = Some owner \<and> owner \<noteq> leader) \<and> now < ts_lease_expires_at_ms s
      then (LeasePending (ts_lease_expires_at_ms s), s)
      else if ts_lease_owner s = Some leader \<and> now < ts_lease_expires_at_ms s
      then (LeaseAcquired (ts_lease_expires_at_ms s), s)
      else case checked_add now dur of
             None \<Rightarrow> (RTimestampOverflow, s)
           | Some expires \<Rightarrow>
               (LeaseAcquired expires, s\<lparr>ts_lease_owner := Some leader, ts_lease_expires_at_ms := expires\<rparr>))"
| "tso_transition s (Allocate leader lease_now phys count) =
     (if count = 0 then (RInvalidCount, s)
      else if ts_lease_owner s \<noteq> Some leader \<or> lease_now \<ge> ts_lease_expires_at_ms s
      then (LeasePending (ts_lease_expires_at_ms s), s)
      else
        let start = (case ts_last s of
                       Some prev \<Rightarrow> if phys \<le> physical prev then ts_checked_next prev
                                    else Ok (HybridTimestamp phys 0)
                     | None \<Rightarrow> Ok (HybridTimestamp phys 0))
        in case start of
             Inl _ \<Rightarrow> (RTimestampOverflow, s)
           | Inr st \<Rightarrow>
               (case range_from_start st count of
                  Inl _ \<Rightarrow> (RTimestampOverflow, s)
                | Inr rng \<Rightarrow>
                    (Allocated rng,
                     s\<lparr>ts_last := Some (tr_end rng),
                       ts_committed_ranges := saturating_add (ts_committed_ranges s) 1\<rparr>)))"

definition tso_apply ::
  "(bytes \<Rightarrow> string + tso_command) \<Rightarrow> (tso_response \<Rightarrow> string + bytes)
     \<Rightarrow> tso_state \<Rightarrow> bytes \<Rightarrow> (string + bytes) \<times> tso_state" where
  "tso_apply de_cmd ser_resp s command =
     (case de_cmd command of
        Inl e \<Rightarrow> (Err e, s)
      | Inr c \<Rightarrow> (let (response, s') = tso_transition s c in (ser_resp response, s')))"

definition tso_snapshot :: "(tso_state \<Rightarrow> string + bytes) \<Rightarrow> tso_state \<Rightarrow> string + bytes" where
  "tso_snapshot ser_state s = ser_state s"

definition tso_restore ::
  "(bytes \<Rightarrow> string + tso_state) \<Rightarrow> bytes \<Rightarrow> tso_state \<Rightarrow> (string + unit) \<times> tso_state" where
  "tso_restore de_state bs s =
     (case de_state bs of Inl e \<Rightarrow> (Err e, s) | Inr restored \<Rightarrow> (Ok (), restored))"

text \<open>The committed log of the group: commands applied in order, each with its response.\<close>

primrec tso_run :: "tso_state \<Rightarrow> tso_command list \<Rightarrow> tso_response list \<times> tso_state" where
  "tso_run s [] = ([], s)"
| "tso_run s (c # cs) =
     (let (r, s1) = tso_transition s c; (rs, s2) = tso_run s1 cs in (r # rs, s2))"

text \<open>The individual timestamps of a range, and of all ranges allocated in a list of responses.\<close>

definition range_elems :: "timestamp_range \<Rightarrow> hybrid_timestamp list" where
  "range_elems r = map (\<lambda>i. the (range_at r (of_nat i))) [0..<unat (tr_count r)]"

fun response_elems :: "tso_response \<Rightarrow> hybrid_timestamp list" where
  "response_elems (Allocated r) = range_elems r"
| "response_elems _ = []"

definition allocated :: "tso_response list \<Rightarrow> hybrid_timestamp list" where
  "allocated rs = concat (map response_elems rs)"

section \<open>Oracle facade\<close>

datatype tso_error =
    InvalidCount
  | InvalidTsoGroup group_id group_id
  | NotLeader "u64 option"
  | LeaseNotReady u64
  | Unauthenticated u64
  | Transport string
  | RaftError string
  | Codec string
  | TimestampOverflow
  | NonMonotonicResponse
  | InvalidConfig string

definition TSO_GROUP_ID :: group_id where
  "TSO_GROUP_ID = GroupId (- 1)"

record tso_config =
  tco_batch_size :: u32
  tco_prefetch_threshold :: u32
  tco_timestamp_ttl_ms :: nat

record timestamp_oracle =
  or_node_id :: u64
  or_lease_expiry :: "u64 option"
  or_lease_duration_ms :: u64

definition oracle_new :: "u64 \<Rightarrow> group_id \<Rightarrow> tso_config \<Rightarrow> tso_error + timestamp_oracle" where
  "oracle_new node grp cfg =
     (if grp \<noteq> TSO_GROUP_ID then Err (InvalidTsoGroup TSO_GROUP_ID grp)
      else if tco_batch_size cfg = 0 then Err (InvalidConfig ''batch_size must be greater than zero'')
      else if tco_prefetch_threshold cfg > tco_batch_size cfg
      then Err (InvalidConfig ''prefetch_threshold must not exceed batch_size'')
      else if tco_timestamp_ttl_ms cfg \<ge> 2 ^ 64
      then Err (InvalidConfig ''timestamp_ttl exceeds u64 milliseconds'')
      else if tco_timestamp_ttl_ms cfg = 0
      then Err (InvalidConfig ''timestamp_ttl must be greater than zero'')
      else Ok \<lparr>or_node_id = node, or_lease_expiry = None,
               or_lease_duration_ms = of_nat (tco_timestamp_ttl_ms cfg)\<rparr>)"

text \<open>
  The group: \<open>metrics g\<close> is the identity and the current leader its metrics show in the
  environment state \<open>g\<close>; \<open>propose bytes g\<close> commits a command and returns the response bytes.
\<close>

type_synonym 'g metrics_fn = "'g \<Rightarrow> u64 \<times> u64 option"
type_synonym 'g propose_fn = "bytes \<Rightarrow> 'g \<Rightarrow> (string + bytes) \<times> 'g"

definition oracle_is_leader :: "'g metrics_fn \<Rightarrow> timestamp_oracle \<Rightarrow> 'g \<Rightarrow> bool" where
  "oracle_is_leader metrics orc g \<longleftrightarrow>
     fst (metrics g) = or_node_id orc \<and> snd (metrics g) = Some (or_node_id orc)"

definition require_leader :: "'g metrics_fn \<Rightarrow> timestamp_oracle \<Rightarrow> 'g \<Rightarrow> tso_error + unit" where
  "require_leader metrics orc g =
     (if oracle_is_leader metrics orc g then Ok () else Err (NotLeader (snd (metrics g))))"

definition oracle_propose ::
  "(tso_command \<Rightarrow> string + bytes) \<Rightarrow> (bytes \<Rightarrow> string + tso_response)
     \<Rightarrow> 'g metrics_fn \<Rightarrow> 'g propose_fn \<Rightarrow> timestamp_oracle \<Rightarrow> tso_command \<Rightarrow> 'g
     \<Rightarrow> (tso_error + tso_response) \<times> 'g" where
  "oracle_propose ser_cmd de_resp metrics propose orc cmd g =
     (case require_leader metrics orc g of
        Inl e \<Rightarrow> (Err e, g)
      | Inr _ \<Rightarrow>
          (case ser_cmd cmd of
             Inl e \<Rightarrow> (Err (Codec e), g)
           | Inr bs \<Rightarrow>
               (let (r, g') = propose bs g
                in case r of
                     Inl reason \<Rightarrow>
                       (if \<not> oracle_is_leader metrics orc g' then (Err (NotLeader (snd (metrics g'))), g')
                        else (Err (RaftError reason), g'))
                   | Inr resp \<Rightarrow>
                       (case de_resp resp of Inl e \<Rightarrow> (Err (Codec e), g') | Inr x \<Rightarrow> (Ok x, g')))))"

definition ensure_lease ::
  "(tso_command \<Rightarrow> string + bytes) \<Rightarrow> (bytes \<Rightarrow> string + tso_response)
     \<Rightarrow> 'g metrics_fn \<Rightarrow> 'g propose_fn \<Rightarrow> u64 \<Rightarrow> timestamp_oracle \<times> 'g
     \<Rightarrow> (tso_error + unit) \<times> timestamp_oracle \<times> 'g" where
  "ensure_lease ser_cmd de_resp metrics propose now st =
     (let (orc, g) = st
      in if (case or_lease_expiry orc of None \<Rightarrow> False | Some expires \<Rightarrow> now < expires) then (Ok (), orc, g)
         else
           (let (r, g') = oracle_propose ser_cmd de_resp metrics propose orc
                  (AcquireLease (or_node_id orc) now (or_lease_duration_ms orc)) g
            in case r of
                 Inl e \<Rightarrow> (Err e, orc, g')
               | Inr (LeaseAcquired expires) \<Rightarrow> (Ok (), orc\<lparr>or_lease_expiry := Some expires\<rparr>, g')
               | Inr (LeasePending nb) \<Rightarrow> (Err (LeaseNotReady nb), orc, g')
               | Inr RTimestampOverflow \<Rightarrow> (Err TimestampOverflow, orc, g')
               | Inr _ \<Rightarrow> (Err (Codec ''lease acquisition returned an allocation response''), orc, g')))"

definition oracle_get_timestamps ::
  "(tso_command \<Rightarrow> string + bytes) \<Rightarrow> (bytes \<Rightarrow> string + tso_response)
     \<Rightarrow> 'g metrics_fn \<Rightarrow> 'g propose_fn \<Rightarrow> u64 \<Rightarrow> u64 \<Rightarrow> u32 \<Rightarrow> timestamp_oracle \<times> 'g
     \<Rightarrow> (tso_error + timestamp_range) \<times> timestamp_oracle \<times> 'g" where
  "oracle_get_timestamps ser_cmd de_resp metrics propose phys lease_now count st =
     (if count = 0 then (Err InvalidCount, st)
      else case require_leader metrics (fst st) (snd st) of
        Inl e \<Rightarrow> (Err e, st)
      | Inr _ \<Rightarrow>
          (let (lease, orc, g) = ensure_lease ser_cmd de_resp metrics propose lease_now st
           in case lease of
                Inl e \<Rightarrow> (Err e, orc, g)
              | Inr _ \<Rightarrow>
                  (let (r, g') = oracle_propose ser_cmd de_resp metrics propose orc
                         (Allocate (or_node_id orc) lease_now phys count) g
                   in case r of
                        Inl e \<Rightarrow> (Err e, orc, g')
                      | Inr (Allocated rng) \<Rightarrow> (Ok rng, orc, g')
                      | Inr (LeasePending nb) \<Rightarrow> (Err (LeaseNotReady nb), orc\<lparr>or_lease_expiry := None\<rparr>, g')
                      | Inr RInvalidCount \<Rightarrow> (Err InvalidCount, orc, g')
                      | Inr RTimestampOverflow \<Rightarrow> (Err TimestampOverflow, orc, g')
                      | Inr (LeaseAcquired _) \<Rightarrow> (Err (Codec ''allocation returned a lease response''), orc, g'))))"

fun metric_result :: "tso_error \<Rightarrow> string" where
  "metric_result InvalidCount = ''invalid_count''"
| "metric_result (InvalidTsoGroup _ _) = ''invalid_config''"
| "metric_result (InvalidConfig _) = ''invalid_config''"
| "metric_result (NotLeader _) = ''not_leader''"
| "metric_result (LeaseNotReady _) = ''lease_not_ready''"
| "metric_result (Unauthenticated _) = ''unauthorized''"
| "metric_result (Transport _) = ''transport_error''"
| "metric_result (RaftError _) = ''raft_error''"
| "metric_result (Codec _) = ''codec_error''"
| "metric_result TimestampOverflow = ''overflow''"
| "metric_result NonMonotonicResponse = ''non_monotonic''"

section \<open>Service\<close>

record tso_request =
  rq_requester :: u64
  rq_credential :: bytes
  rq_count :: u32

datatype tso_frame =
    TsoRequestFrame u64 tso_request
  | DiscoverLeader u64 u64 bytes
  | TimestampResponse u64 "tso_error + timestamp_range"
  | LeaderResponse u64 "tso_error + u64"

text \<open>\<open>oracle_call\<close> is \<^const>\<open>oracle_get_timestamps\<close> with its environment fixed.\<close>

definition service_get_timestamps ::
  "(u64 \<Rightarrow> bytes \<Rightarrow> bool) \<Rightarrow> (u32 \<Rightarrow> 's \<Rightarrow> (tso_error + timestamp_range) \<times> 's)
     \<Rightarrow> tso_request \<Rightarrow> 's \<Rightarrow> (tso_error + timestamp_range) \<times> 's" where
  "service_get_timestamps authenticate oracle_call req s =
     (if \<not> authenticate (rq_requester req) (rq_credential req)
      then (Err (Unauthenticated (rq_requester req)), s)
      else oracle_call (rq_count req) s)"

definition service_handle_frame ::
  "(bytes \<Rightarrow> string + tso_frame) \<Rightarrow> (tso_frame \<Rightarrow> string + bytes) \<Rightarrow> (u64 \<Rightarrow> bytes \<Rightarrow> bool)
     \<Rightarrow> (u32 \<Rightarrow> 's \<Rightarrow> (tso_error + timestamp_range) \<times> 's) \<Rightarrow> ('s \<Rightarrow> u64 option) \<Rightarrow> u64
     \<Rightarrow> frame \<Rightarrow> 's \<Rightarrow> frame option \<times> 's" where
  "service_handle_frame de ser authenticate oracle_call leader_of node f s =
     (case f of
        User payload \<Rightarrow>
          (case de payload of
             Inl _ \<Rightarrow> (None, s)
           | Inr message \<Rightarrow>
               (let (response, s') =
                  (case message of
                     TsoRequestFrame corr request \<Rightarrow>
                       (let (r, s') = service_get_timestamps authenticate oracle_call request s
                        in (Some (TimestampResponse corr r), s'))
                   | DiscoverLeader corr requester credential \<Rightarrow>
                       (Some (LeaderResponse corr
                          (if \<not> authenticate requester credential then Err (Unauthenticated requester)
                           else Ok (case leader_of s of Some l \<Rightarrow> l | None \<Rightarrow> node))), s)
                   | _ \<Rightarrow> (None, s))
                in case response of
                     None \<Rightarrow> (None, s')
                   | Some resp \<Rightarrow>
                       (case ser resp of Inl _ \<Rightarrow> (None, s') | Inr bs \<Rightarrow> (Some (User bs), s'))))
      | _ \<Rightarrow> (None, s))"

section \<open>Client\<close>

record tso_client_config =
  cc_batch_size :: u32
  cc_prefetch_threshold :: u32
  cc_max_retries :: nat
  cc_initial_backoff :: nat
  cc_max_backoff :: nat

record cached_range =
  cr_range :: timestamp_range
  cr_next_offset :: u32

text \<open>\<open>cl_calls\<close> counts the calls of the transport, \<open>cl_slept\<close> records the back-off delays.\<close>

record tso_client =
  cl_requester :: u64
  cl_credential :: bytes
  cl_leader :: "u64 option"
  cl_config :: tso_client_config
  cl_cache :: "cached_range list"
  cl_last_returned :: "hybrid_timestamp option"
  cl_calls :: nat
  cl_slept :: "nat list"

type_synonym rpc_fn = "nat \<Rightarrow> u64 \<Rightarrow> tso_request \<Rightarrow> tso_error + timestamp_range"
type_synonym discover_fn = "nat \<Rightarrow> tso_error + u64"

definition client_new ::
  "u64 \<Rightarrow> bytes \<Rightarrow> u64 option \<Rightarrow> tso_client_config \<Rightarrow> tso_error + tso_client" where
  "client_new requester credential leader cfg =
     (if cc_batch_size cfg = 0 then Err (InvalidConfig ''client batch_size must be greater than zero'')
      else if cc_initial_backoff cfg = 0 \<or> cc_initial_backoff cfg > cc_max_backoff cfg
      then Err (InvalidConfig ''initial_backoff must be non-zero and no greater than max_backoff'')
      else Ok \<lparr>cl_requester = requester, cl_credential = credential, cl_leader = leader, cl_config = cfg,
               cl_cache = [], cl_last_returned = None, cl_calls = 0, cl_slept = []\<rparr>)"

definition cached_pop :: "cached_range \<Rightarrow> (hybrid_timestamp \<times> cached_range) option" where
  "cached_pop c =
     (case range_at (cr_range c) (cr_next_offset c) of
        None \<Rightarrow> None
      | Some v \<Rightarrow> Some (v, c\<lparr>cr_next_offset := cr_next_offset c + 1\<rparr>))"

definition cached_exhausted :: "cached_range \<Rightarrow> bool" where
  "cached_exhausted c \<longleftrightarrow> cr_next_offset c \<ge> tr_count (cr_range c)"

definition refresh_leader :: "discover_fn \<Rightarrow> tso_client \<Rightarrow> (tso_error + u64) \<times> tso_client" where
  "refresh_leader discover c =
     (let c1 = c\<lparr>cl_calls := Suc (cl_calls c)\<rparr>
      in case discover (cl_calls c) of
           Inl e \<Rightarrow> (Err e, c1)
         | Inr l \<Rightarrow> (Ok l, c1\<lparr>cl_leader := Some l\<rparr>))"

definition pop_cache :: "tso_client \<Rightarrow> (tso_error + hybrid_timestamp option) \<times> tso_client" where
  "pop_cache c =
     (let cache = dropWhile cached_exhausted (cl_cache c); c1 = c\<lparr>cl_cache := cache\<rparr>
      in case cache of
           [] \<Rightarrow> (Ok None, c1)
         | front # rest \<Rightarrow>
             (case cached_pop front of
                None \<Rightarrow> (Ok None, c1)
              | Some (value, front') \<Rightarrow>
                  (case cl_last_returned c of
                     Some prev \<Rightarrow>
                       if value \<le> prev then (Err NonMonotonicResponse, c1\<lparr>cl_cache := []\<rparr>)
                       else (Ok (Some value), c1\<lparr>cl_cache := front' # rest, cl_last_returned := Some value\<rparr>)
                   | None \<Rightarrow>
                       (Ok (Some value), c1\<lparr>cl_cache := front' # rest, cl_last_returned := Some value\<rparr>))))"

definition cache_remaining :: "tso_client \<Rightarrow> nat" where
  "cache_remaining c =
     sum_list (map (\<lambda>r. unat (saturating_sub (tr_count (cr_range r)) (cr_next_offset r))) (cl_cache c))"

definition backoff :: "tso_client \<Rightarrow> nat \<Rightarrow> nat" where
  "backoff c failures =
     min (cc_initial_backoff (cl_config c) * 2 ^ min failures 31) (cc_max_backoff (cl_config c))"

text \<open>
  The retry loop.  Every iteration that does not return adds one to \<open>failures\<close>, so the recursion is
  on how many failures are left; \<^verbatim>\<open>failures\<close> stays below \<open>max_retries + 2\<close>.
\<close>

function refill_loop ::
  "rpc_fn \<Rightarrow> discover_fn \<Rightarrow> u32 \<Rightarrow> nat \<Rightarrow> nat \<Rightarrow> tso_client \<Rightarrow> (tso_error + unit) \<times> tso_client" where
  "refill_loop rpc discover count max_retries failures c =
     (let (target, c1) = (case cl_leader c of Some l \<Rightarrow> (Ok l, c) | None \<Rightarrow> refresh_leader discover c)
      in case target of
           Inl (Transport e) \<Rightarrow>
             (if failures \<ge> max_retries then (Err (Transport e), c1)
              else refill_loop rpc discover count max_retries (failures + 1)
                     (c1\<lparr>cl_slept := cl_slept c1 @ [backoff c1 failures]\<rparr>))
         | Inl e \<Rightarrow> (Err e, c1)
         | Inr leader \<Rightarrow>
             (let request = \<lparr>rq_requester = cl_requester c1, rq_credential = cl_credential c1, rq_count = count\<rparr>;
                  c2 = c1\<lparr>cl_calls := Suc (cl_calls c1)\<rparr>
              in case rpc (cl_calls c1) leader request of
                   Inr rng \<Rightarrow>
                     (if tr_count rng \<noteq> count \<or> range_at rng (count - 1) \<noteq> Some (tr_end rng)
                      then (Err (Codec ''server returned a non-contiguous or wrong-sized range''), c2)
                      else (Ok (), c2\<lparr>cl_cache := cl_cache c2 @ [\<lparr>cr_range = rng, cr_next_offset = 0\<rparr>]\<rparr>))
                 | Inl (NotLeader hint) \<Rightarrow>
                     (if failures + 1 > max_retries then (Err (NotLeader hint), c2\<lparr>cl_leader := hint\<rparr>)
                      else refill_loop rpc discover count max_retries (failures + 1) (c2\<lparr>cl_leader := hint\<rparr>))
                 | Inl (Transport e) \<Rightarrow>
                     (if failures \<ge> max_retries then (Err (Transport e), c2)
                      else refill_loop rpc discover count max_retries (failures + 1)
                             (c2\<lparr>cl_slept := cl_slept c2 @ [backoff c2 failures]\<rparr>))
                 | Inl (LeaseNotReady nb) \<Rightarrow>
                     (if failures \<ge> max_retries then (Err (LeaseNotReady nb), c2)
                      else refill_loop rpc discover count max_retries (failures + 1)
                             (c2\<lparr>cl_slept := cl_slept c2 @ [backoff c2 failures]\<rparr>))
                 | Inl e \<Rightarrow> (Err e, c2)))"
  by pat_completeness auto
termination
  by (relation "measure (\<lambda>(_, _, _, m, f, _). Suc m - f)") auto

definition refill ::
  "rpc_fn \<Rightarrow> discover_fn \<Rightarrow> u32 \<Rightarrow> tso_client \<Rightarrow> (tso_error + unit) \<times> tso_client" where
  "refill rpc discover count c = refill_loop rpc discover count (cc_max_retries (cl_config c)) 0 c"

text \<open>
  The request loop, with fuel: \<^const>\<open>None\<close> is running out of it.  Lemma \<open>get_timestamps_total\<close> shows
  that \<open>2 * count\<close> is always enough.
\<close>

fun get_timestamps_loop ::
  "nat \<Rightarrow> rpc_fn \<Rightarrow> discover_fn \<Rightarrow> nat \<Rightarrow> hybrid_timestamp list \<Rightarrow> tso_client
     \<Rightarrow> ((tso_error + hybrid_timestamp list) \<times> tso_client) option" where
  "get_timestamps_loop fuel rpc discover count values c =
     (if \<not> length values < count then Some (Ok values, c)
      else case fuel of
        0 \<Rightarrow> None
      | Suc fuel' \<Rightarrow>
          (let (pre, c1) =
             (if cache_remaining c > 0 \<and> cache_remaining c \<le> unat (cc_prefetch_threshold (cl_config c))
              then refill rpc discover (cc_batch_size (cl_config c)) c else (Ok (), c))
           in case pre of
                Inl e \<Rightarrow> Some (Err e, c1)
              | Inr _ \<Rightarrow>
                  (let (popped, c2) = pop_cache c1
                   in case popped of
                        Inl e \<Rightarrow> Some (Err e, c2)
                      | Inr (Some value) \<Rightarrow>
                          get_timestamps_loop fuel' rpc discover count (values @ [value]) c2
                      | Inr None \<Rightarrow>
                          (let remaining = of_nat (count - length values) :: u32;
                               (r, c3) = refill rpc discover (max (cc_batch_size (cl_config c2)) remaining) c2
                           in case r of
                                Inl e \<Rightarrow> Some (Err e, c3)
                              | Inr _ \<Rightarrow> get_timestamps_loop fuel' rpc discover count values c3))))"

declare get_timestamps_loop.simps [simp del]

definition client_get_timestamps ::
  "rpc_fn \<Rightarrow> discover_fn \<Rightarrow> u32 \<Rightarrow> tso_client
     \<Rightarrow> ((tso_error + hybrid_timestamp list) \<times> tso_client) option" where
  "client_get_timestamps rpc discover count c =
     (if count = 0 then Some (Err InvalidCount, c)
      else get_timestamps_loop (2 * unat count) rpc discover (unat count) [] c)"

definition canonical_node_id :: "u64 \<Rightarrow> node_id" where
  "canonical_node_id i = NodeId (replicate 8 0 @ to_be_bytes i)"

subsection \<open>Mesh transport of the client\<close>

text \<open>
  The task that routes responses to waiting requests.  It is a \<^verbatim>\<open>while let\<close> whose pattern only
  matches user frames, so the first other frame ends it.  \<open>pending\<close> holds the correlation ids
  of waiting requests; the result lists what was delivered and who is still waiting.
\<close>

fun tso_receive_loop ::
  "(bytes \<Rightarrow> string + tso_frame) \<Rightarrow> (node_id \<times> frame) list \<Rightarrow> u64 list
     \<Rightarrow> (u64 \<times> tso_frame) list \<times> u64 list" where
  "tso_receive_loop de [] pending = ([], pending)"
| "tso_receive_loop de ((_, User payload) # rest) pending =
     (let deliver = (\<lambda>corr message.
            (if corr \<in> set pending
             then let (ds, p) = tso_receive_loop de rest (filter (\<lambda>x. x \<noteq> corr) pending)
                  in ((corr, message) # ds, p)
             else tso_receive_loop de rest pending))
      in case de payload of
           Inl _ \<Rightarrow> tso_receive_loop de rest pending
         | Inr (TimestampResponse corr r) \<Rightarrow> deliver corr (TimestampResponse corr r)
         | Inr (LeaderResponse corr r) \<Rightarrow> deliver corr (LeaderResponse corr r)
         | Inr _ \<Rightarrow> tso_receive_loop de rest pending)"
| "tso_receive_loop de (_ # rest) pending = ([], pending)"

declare refill_loop.simps [simp del]

section \<open>Allocation\<close>

lemma map_ts_index_range_elems:
  assumes "range_from_start s n = Ok r"
  shows "map ts_index (range_elems r) = [ts_index s ..< ts_index s + unat n]"
proof -
  have n: "tr_count r = n"
    using assms by (simp add: range_from_start_Ok_iff)
  have "ts_index (the (range_at r (of_nat i))) = ts_index s + i" if "i < unat n" for i
  proof -
    have i: "unat (of_nat i :: u32) = i"
      using that unat_bound[of n] by (simp add: unat_of_nat)
    have "ts_index s + i < 2 ^ 96"
      using that assms ts_index_bound[of "tr_end r"] by (simp add: range_from_start_Ok_iff)
    then obtain t where "ts_index t = ts_index s + i"
      using ts_of_index by blast
    then have "range_at r (of_nat i) = Some t"
      using range_at_eq_Some[OF assms, of "of_nat i" t] that i by (simp add: word_less_nat_alt)
    then show ?thesis
      using \<open>ts_index t = ts_index s + i\<close> by simp
  qed
  then have "map ts_index (range_elems r) = map (\<lambda>i. ts_index s + i) [0..<unat n]"
    by (simp add: range_elems_def n)
  then show ?thesis
    by (simp add: map_add_upt add.commute)
qed

lemma range_elems_sorted:
  assumes "range_from_start s n = Ok r"
  shows "sorted_wrt (<) (range_elems r)"
    and "x \<in> set (range_elems r) \<Longrightarrow> s \<le> x \<and> x \<le> tr_end r"
    and "length (range_elems r) = unat n"
proof -
  note m = map_ts_index_range_elems[OF assms]
  have "sorted_wrt (<) (map ts_index (range_elems r))"
    unfolding m by simp
  then show "sorted_wrt (<) (range_elems r)"
    by (simp add: sorted_wrt_map less_iff_ts_index [symmetric])
  show "length (range_elems r) = unat n"
    using arg_cong[OF m, of length] by simp
  assume "x \<in> set (range_elems r)"
  then have "ts_index x \<in> set (map ts_index (range_elems r))"
    by simp
  then have "ts_index s \<le> ts_index x" "ts_index x < ts_index s + unat n"
    unfolding m by simp_all
  then show "s \<le> x \<and> x \<le> tr_end r"
    using assms by (simp add: le_iff_ts_index range_from_start_Ok_iff)
qed

definition beyond :: "hybrid_timestamp option \<Rightarrow> hybrid_timestamp \<Rightarrow> bool" where
  "beyond l x = (case l of None \<Rightarrow> True | Some y \<Rightarrow> y < x)"

lemma tso_transition_Allocated:
  assumes "tso_transition s c = (Allocated r, s')"
  obtains st where "range_from_start st (c_count c) = Ok r" "beyond (ts_last s) st"
    "ts_last s' = Some (tr_end r)" "ts_lease_owner s = Some (c_leader_id c)"
    "c_lease_now_ms c < ts_lease_expires_at_ms s" "\<exists>l n p k. c = Allocate l n p k"
proof (cases c)
  case (Allocate leader now phys count)
  have nxt: "t < u" if "ts_checked_next t = Ok u" for t u
    using that ts_checked_add_Ok_iff[of 1 t u] by (simp add: ts_checked_next_def less_iff_ts_index)
  have phys: "t < HybridTimestamp phys 0" if "\<not> phys \<le> physical t" for t
    using that by (simp add: less_hybrid_timestamp_def)
  from assms that show ?thesis
    by (auto simp: Allocate Let_def beyond_def not_le nxt phys
        split: if_splits option.splits sum.splits)
qed (use assms in \<open>auto split: if_splits option.splits\<close>)

lemma tso_transition_last:
  assumes "tso_transition s c = (r, s')"
  shows "(\<exists>rng. r = Allocated rng) \<or> ts_last s' = ts_last s"
  using assms by (cases c) (auto simp: Let_def split: if_splits option.splits sum.splits)

lemma beyond_trans: "beyond l x \<Longrightarrow> x \<le> y \<Longrightarrow> beyond l y"
  by (auto simp: beyond_def split: option.splits)

lemma tso_transition_elems:
  assumes "tso_transition s c = (r, s')"
  shows "sorted_wrt (<) (response_elems r)"
    and "x \<in> set (response_elems r) \<Longrightarrow> beyond (ts_last s) x"
    and "x \<in> set (response_elems r) \<Longrightarrow> beyond (ts_last s') y \<Longrightarrow> x < y"
    and "beyond (ts_last s') y \<Longrightarrow> beyond (ts_last s) y"
proof -
  consider (alloc) rng where "r = Allocated rng" | (other) "response_elems r = []" "ts_last s' = ts_last s"
    using tso_transition_last[OF assms] by (cases r) auto
  then have all: "sorted_wrt (<) (response_elems r) \<and>
    (x \<in> set (response_elems r) \<longrightarrow> beyond (ts_last s) x \<and> (beyond (ts_last s') y \<longrightarrow> x < y)) \<and>
    (beyond (ts_last s') y \<longrightarrow> beyond (ts_last s) y)" for x y
  proof cases
    case alloc
    with assms obtain st where st: "range_from_start st (c_count c) = Ok rng" "beyond (ts_last s) st"
      "ts_last s' = Some (tr_end rng)"
      using tso_transition_Allocated by metis
    have "st \<le> tr_end rng"
      using st(1) unat_gt_0[of "c_count c"] by (auto simp: range_from_start_Ok_iff le_iff_ts_index)
    then have "beyond (ts_last s') y \<Longrightarrow> beyond (ts_last s) y"
      using st beyond_trans[OF st(2), of y] by (simp add: beyond_def)
    moreover have "x \<in> set (range_elems rng) \<Longrightarrow> beyond (ts_last s) x"
      using range_elems_sorted(2)[OF st(1)] beyond_trans[OF st(2)] by blast
    moreover have "x \<in> set (range_elems rng) \<Longrightarrow> beyond (ts_last s') y \<Longrightarrow> x < y"
      using range_elems_sorted(2)[OF st(1), of x] st(3) by (auto simp: beyond_def)
    ultimately show ?thesis
      using alloc range_elems_sorted(1)[OF st(1)] by simp
  qed simp
  then show "sorted_wrt (<) (response_elems r)"
    "x \<in> set (response_elems r) \<Longrightarrow> beyond (ts_last s) x"
    "x \<in> set (response_elems r) \<Longrightarrow> beyond (ts_last s') y \<Longrightarrow> x < y"
    "beyond (ts_last s') y \<Longrightarrow> beyond (ts_last s) y"
    by blast+
qed

lemma tso_run_sorted:
  "sorted_wrt (<) (allocated (fst (tso_run s cs))) \<and>
   (\<forall>x\<in>set (allocated (fst (tso_run s cs))). beyond (ts_last s) x)"
proof (induction cs arbitrary: s)
  case (Cons c cs)
  obtain r s1 where t: "tso_transition s c = (r, s1)"
    by fastforce
  have IH: "sorted_wrt (<) (allocated (fst (tso_run s1 cs)))"
    "\<And>x. x \<in> set (allocated (fst (tso_run s1 cs))) \<Longrightarrow> beyond (ts_last s1) x"
    using Cons.IH[of s1] by auto
  have "allocated (fst (tso_run s (c # cs))) = response_elems r @ allocated (fst (tso_run s1 cs))"
    by (simp add: t allocated_def case_prod_unfold Let_def)
  then show ?case
    using tso_transition_elems[OF t] IH by (auto simp: sorted_wrt_append)
qed (simp add: allocated_def)

lemma tso_run_append:
  "tso_run s (xs @ ys) =
     (let (r1, s1) = tso_run s xs; (r2, s2) = tso_run s1 ys in (r1 @ r2, s2))"
  by (induction xs arbitrary: s) (simp_all add: case_prod_unfold Let_def)

lemma tso_run_beyond: "beyond (ts_last (snd (tso_run s cs))) y \<Longrightarrow> beyond (ts_last s) y"
proof (induction cs arbitrary: s)
  case (Cons c cs)
  obtain r s1 where t: "tso_transition s c = (r, s1)"
    by fastforce
  with Cons tso_transition_elems(4)[OF t] show ?case
    by (simp add: case_prod_unfold Let_def)
qed simp

section \<open>Leases\<close>

definition renewals_before :: "u64 \<Rightarrow> tso_command list \<Rightarrow> bool" where
  "renewals_before e cs \<longleftrightarrow>
     list_all (\<lambda>c. case c of AcquireLease _ now _ \<Rightarrow> now < e | Allocate _ _ _ _ \<Rightarrow> True) cs"

lemma lease_kept:
  assumes "ts_lease_owner s = Some a" "ts_lease_expires_at_ms s = e" "renewals_before e [c]"
  shows "ts_lease_owner (snd (tso_transition s c)) = Some a"
    and "ts_lease_expires_at_ms (snd (tso_transition s c)) = e"
  using assms by (cases c; auto simp: renewals_before_def Let_def split: option.splits sum.splits)+

definition granted_to :: "u64 \<Rightarrow> u64 \<Rightarrow> tso_command \<Rightarrow> tso_response \<Rightarrow> bool" where
  "granted_to a e c r \<longleftrightarrow>
     (case r of
        Allocated _ \<Rightarrow> c_leader_id c = a \<and> c_lease_now_ms c < e
      | LeaseAcquired e' \<Rightarrow> c_leader_id c = a \<and> e' = e
      | LeasePending e' \<Rightarrow> e' = e
      | _ \<Rightarrow> True)"

lemma lease_step:
  assumes "ts_lease_owner s = Some a" "ts_lease_expires_at_ms s = e" "renewals_before e [c]"
  shows "granted_to a e c (fst (tso_transition s c))"
  using assms
  by (cases c) (auto simp: granted_to_def renewals_before_def Let_def split: option.splits sum.splits)

lemma lease_exclusive_run:
  assumes "ts_lease_owner s = Some a" "ts_lease_expires_at_ms s = e" "renewals_before e cs"
  shows "list_all2 (granted_to a e) cs (fst (tso_run s cs))"
  using assms
proof (induction cs arbitrary: s)
  case (Cons c cs)
  then have c: "renewals_before e [c]" "renewals_before e cs"
    by (simp_all add: renewals_before_def)
  show ?case
    using Cons.IH[OF lease_kept[OF Cons.prems(1,2) c(1)] c(2)] lease_step[OF Cons.prems(1,2) c(1)]
    by (simp add: case_prod_unfold Let_def)
qed simp

section \<open>The oracle over a replicated group\<close>

text \<open>
  What the oracle relies on: a proposal that succeeds was applied to the replicated state after
  whatever other commands were committed before it, and returns the response of that
  application; a proposal that fails may still let other commands be committed.
\<close>

locale tso_group =
  fixes de_cmd :: "bytes \<Rightarrow> string + tso_command"
    and ser_resp :: "tso_response \<Rightarrow> string + bytes"
    and propose :: "'g propose_fn"
    and state_of :: "'g \<Rightarrow> tso_state"
  assumes propose_Ok: "propose bs g = (Ok resp, g') \<Longrightarrow>
      \<exists>before c r. de_cmd bs = Ok c \<and> ser_resp r = Ok resp \<and>
        tso_transition (snd (tso_run (state_of g) before)) c = (r, state_of g')"
    and propose_Err: "propose bs g = (Err e, g') \<Longrightarrow>
      \<exists>others. state_of g' = snd (tso_run (state_of g) others)"
begin

lemma propose_beyond:
  assumes "propose bs g = (r, g')" "beyond (ts_last (state_of g')) y"
  shows "beyond (ts_last (state_of g)) y"
proof (cases r)
  case (Inl e)
  then show ?thesis
    using assms propose_Err tso_run_beyond by metis
next
  case (Inr resp)
  then obtain before c r' where
    "tso_transition (snd (tso_run (state_of g) before)) c = (r', state_of g')"
    using assms(1) propose_Ok by metis
  then show ?thesis
    using assms(2) tso_transition_elems(4) tso_run_beyond by metis
qed

lemma oracle_propose_beyond:
  assumes "oracle_propose ser_cmd de_resp metrics propose orc c g = (r, g')"
    and "beyond (ts_last (state_of g')) y"
  shows "beyond (ts_last (state_of g)) y"
  using assms propose_beyond
  by (auto simp: oracle_propose_def case_prod_unfold Let_def split: sum.splits if_splits)
    (metis prod.collapse)+

lemma ensure_lease_beyond:
  assumes "ensure_lease ser_cmd de_resp metrics propose now (orc, g) = (r, orc', g')"
    and "beyond (ts_last (state_of g')) y"
  shows "beyond (ts_last (state_of g)) y"
  using assms oracle_propose_beyond
  by (auto simp: ensure_lease_def case_prod_unfold Let_def
      split: sum.splits if_splits tso_response.splits) (metis prod.collapse)+

lemma oracle_propose_Allocated:
  assumes codec: "\<And>c bs. ser_cmd c = Ok bs \<Longrightarrow> de_cmd bs = Ok c"
    "\<And>x bs. ser_resp x = Ok bs \<Longrightarrow> de_resp bs = Ok x"
    and r: "oracle_propose ser_cmd de_resp metrics propose orc c g = (Ok (Allocated rng), g')"
  shows "sorted_wrt (<) (range_elems rng) \<and> length (range_elems rng) = unat (c_count c) \<and>
    (\<forall>x\<in>set (range_elems rng). beyond (ts_last (state_of g)) x \<and>
      (\<forall>y. beyond (ts_last (state_of g')) y \<longrightarrow> x < y))"
proof -
  obtain bs resp where p: "ser_cmd c = Ok bs" "propose bs g = (Ok resp, g')" "de_resp resp = Ok (Allocated rng)"
    using r by (auto simp: oracle_propose_def case_prod_unfold Let_def
        split: sum.splits if_splits) (metis prod.collapse)
  obtain before c' r' where q: "de_cmd bs = Ok c'" "ser_resp r' = Ok resp"
    "tso_transition (snd (tso_run (state_of g) before)) c' = (r', state_of g')"
    using propose_Ok[OF p(2)] by blast
  have c: "c' = c" "r' = Allocated rng"
    using codec p q by auto
  note t = q(3)[unfolded c]
  obtain st where st: "range_from_start st (c_count c) = Ok rng"
    using tso_transition_Allocated[OF t] by blast
  note e = tso_transition_elems[OF t, simplified]
  show ?thesis
    using range_elems_sorted[OF st] e(2,3) tso_run_beyond[of "state_of g" before] by blast
qed

lemma oracle_get_timestamps_fresh:
  assumes codec: "\<And>c bs. ser_cmd c = Ok bs \<Longrightarrow> de_cmd bs = Ok c"
    "\<And>x bs. ser_resp x = Ok bs \<Longrightarrow> de_resp bs = Ok x"
    and r: "oracle_get_timestamps ser_cmd de_resp metrics propose phys now count (orc, g)
      = (Ok rng, orc', g')"
  shows "sorted_wrt (<) (range_elems rng) \<and> length (range_elems rng) = unat count \<and>
    (\<forall>x\<in>set (range_elems rng). beyond (ts_last (state_of g)) x \<and>
      (\<forall>y. beyond (ts_last (state_of g')) y \<longrightarrow> x < y))"
proof -
  obtain lease orc1 g1 where l: "ensure_lease ser_cmd de_resp metrics propose now (orc, g) = (lease, orc1, g1)"
    by (metis prod.collapse)
  obtain res g2 where p: "oracle_propose ser_cmd de_resp metrics propose orc1
      (Allocate (or_node_id orc1) now phys count) g1 = (res, g2)"
    by fastforce
  have a: "res = Ok (Allocated rng)" "g2 = g'"
    using r by (auto simp: oracle_get_timestamps_def l p Let_def
        split: if_splits sum.splits tso_response.splits)
  have alloc: "sorted_wrt (<) (range_elems rng) \<and> length (range_elems rng) = unat count \<and>
    (\<forall>x\<in>set (range_elems rng). beyond (ts_last (state_of g1)) x \<and>
      (\<forall>y. beyond (ts_last (state_of g')) y \<longrightarrow> x < y))"
    using oracle_propose_Allocated[OF codec p[unfolded a]] by simp
  then show ?thesis
    using ensure_lease_beyond[OF l] by blast
qed

end

text \<open>The replicated state machine itself, as the single voter of its group.\<close>

definition local_propose ::
  "(bytes \<Rightarrow> string + tso_command) \<Rightarrow> (tso_response \<Rightarrow> string + bytes) \<Rightarrow> tso_state propose_fn" where
  "local_propose de_cmd ser_resp bs s = tso_apply de_cmd ser_resp s bs"

interpretation local_group: tso_group de_cmd ser_resp "local_propose de_cmd ser_resp" "\<lambda>s. s"
proof
  show "\<exists>before c r. de_cmd bs = Ok c \<and> ser_resp r = Ok resp \<and>
      tso_transition (snd (tso_run g before)) c = (r, g')"
    if "local_propose de_cmd ser_resp bs g = (Ok resp, g')" for bs g resp g'
  proof -
    from that obtain c where c: "de_cmd bs = Ok c" "ser_resp (fst (tso_transition g c)) = Ok resp"
      "g' = snd (tso_transition g c)"
      by (auto simp: local_propose_def tso_apply_def case_prod_unfold Let_def split: sum.splits)
    then have "tso_transition (snd (tso_run g [])) c = (fst (tso_transition g c), g')"
      by simp
    with c show ?thesis
      by blast
  qed
  show "\<exists>others. g' = snd (tso_run g others)"
    if "local_propose de_cmd ser_resp bs g = (Err e, g')" for bs g e g'
  proof (cases "de_cmd bs")
    case (Inl er)
    then have "g' = snd (tso_run g [])"
      using that by (simp add: local_propose_def tso_apply_def)
    then show ?thesis
      by blast
  next
    case (Inr c)
    then have "g' = snd (tso_run g [c])"
      using that by (simp add: local_propose_def tso_apply_def case_prod_unfold Let_def)
    then show ?thesis
      by blast
  qed
qed

section \<open>Client\<close>

definition valid_range :: "timestamp_range \<Rightarrow> bool" where
  "valid_range r \<longleftrightarrow> range_at r (tr_count r - 1) = Some (tr_end r)"

definition cache_ok :: "tso_client \<Rightarrow> bool" where
  "cache_ok c \<longleftrightarrow> list_all (\<lambda>r. valid_range (cr_range r)) (cl_cache c)"

lemma valid_range_at:
  assumes "valid_range r" "i < tr_count r"
  obtains t where "range_at r i = Some t"
proof -
  have i: "unat i < 2 ^ 32" and n: "unat (tr_count r - 1) < 2 ^ 32"
    using unat_bound[of i] unat_bound[of "tr_count r - 1"] by simp_all
  have "ts_checked_add (tr_start r) (ucast (tr_count r - 1)) = Ok (tr_end r)"
    using assms(1) by (auto simp: valid_range_def range_at_def split: if_splits sum.splits)
  then have e: "ts_index (tr_end r) = ts_index (tr_start r) + unat (tr_count r - 1)"
    using n by (simp add: ts_checked_add_Ok_iff)
  have "tr_count r \<noteq> 0"
    using assms(2) by auto
  then have "unat (tr_count r - 1) = unat (tr_count r) - 1"
    by (rule unat_minus_one)
  then have "i \<le> tr_count r - 1"
    using assms(2) by (simp add: word_less_nat_alt word_le_nat_alt)
  then have "ts_index (tr_start r) + unat i < 2 ^ 96"
    using e ts_index_bound[of "tr_end r"] by (simp add: word_le_nat_alt)
  then obtain t where "ts_index t = ts_index (tr_start r) + unat i"
    using ts_of_index by blast
  then have "ts_checked_add (tr_start r) (ucast i) = Ok t"
    using i by (simp add: ts_checked_add_Ok_iff)
  then show thesis
    using that[of t] assms(2) by (simp add: range_at_def not_le [symmetric])
qed

text \<open>The three outcomes of taking a timestamp from the cache.\<close>

lemma pop_cache_cases:
  assumes "cache_ok c" "pop_cache c = (r, c')"
  obtains (empty) "r = Ok None" "cl_cache c' = []" "list_all cached_exhausted (cl_cache c)"
      "cl_last_returned c' = cl_last_returned c"
    | (popped) v where "r = Ok (Some v)" "beyond (cl_last_returned c) v"
      "cl_last_returned c' = Some v" "cache_ok c'"
    | (stale) "r = Err NonMonotonicResponse" "cl_cache c' = []"
proof (cases "dropWhile cached_exhausted (cl_cache c)")
  case Nil
  moreover have "list_all cached_exhausted (cl_cache c)"
    using Nil dropWhile_eq_Nil_conv[of cached_exhausted "cl_cache c"] by (simp add: list_all_iff)
  ultimately show thesis
    using assms(2) empty by (auto simp: pop_cache_def Let_def simp del: dropWhile_eq_Nil_conv)
next
  case (Cons front rest)
  have "\<not> cached_exhausted front"
    using Cons hd_dropWhile[of cached_exhausted "cl_cache c"] by auto
  moreover have "set (front # rest) \<subseteq> set (cl_cache c)"
    using set_dropWhileD[of _ cached_exhausted "cl_cache c"] Cons by (metis subsetI)
  then have ok: "valid_range (cr_range front)" "\<forall>x\<in>set rest. valid_range (cr_range x)"
    using assms(1) by (auto simp: cache_ok_def list_all_iff)
  ultimately obtain v where "range_at (cr_range front) (cr_next_offset front) = Some v"
    using valid_range_at[of "cr_range front" "cr_next_offset front"]
    by (auto simp: cached_exhausted_def not_le)
  then have pop: "cached_pop front = Some (v, front\<lparr>cr_next_offset := cr_next_offset front + 1\<rparr>)"
    by (simp add: cached_pop_def)
  show thesis
  proof (cases "beyond (cl_last_returned c) v")
    case True
    then show thesis
      using assms(2) pop ok popped[of v]
      by (auto simp: pop_cache_def Let_def Cons beyond_def cache_ok_def list_all_iff
          split: option.splits if_splits)
  next
    case False
    then show thesis
      using assms(2) pop stale
      by (auto simp: pop_cache_def Let_def Cons beyond_def not_less split: option.splits if_splits)
  qed
qed

text \<open>What a refill changes: on success one validated range of the requested size is appended.\<close>

definition refill_ok :: "u32 \<Rightarrow> tso_client \<Rightarrow> (tso_error + unit) \<times> tso_client \<Rightarrow> bool" where
  "refill_ok count c res \<longleftrightarrow>
     cl_last_returned (snd res) = cl_last_returned c \<and> cl_config (snd res) = cl_config c \<and>
     (case fst res of
        Inl _ \<Rightarrow> cl_cache (snd res) = cl_cache c
      | Inr _ \<Rightarrow> (\<exists>rng. cl_cache (snd res) = cl_cache c @ [\<lparr>cr_range = rng, cr_next_offset = 0\<rparr>]
                    \<and> tr_count rng = count \<and> valid_range rng))"

lemma refill_ok_trans:
  assumes "refill_ok count c1 res" "cl_cache c1 = cl_cache c"
    "cl_last_returned c1 = cl_last_returned c" "cl_config c1 = cl_config c"
  shows "refill_ok count c res"
  using assms unfolding refill_ok_def by (simp split: sum.splits)

lemma refill_ok_Err [simp]:
  "refill_ok count c (Err e, c') \<longleftrightarrow> cl_last_returned c' = cl_last_returned c \<and>
     cl_config c' = cl_config c \<and> cl_cache c' = cl_cache c"
  by (auto simp: refill_ok_def)

lemma refill_loop_ok: "refill_ok count c (refill_loop rpc discover count m f c)"
proof (induction rpc discover count m f c rule: refill_loop.induct)
  case (1 rpc discover count m f c)
  obtain target c1 where t: "(case cl_leader c of Some l \<Rightarrow> (Ok l, c) | None \<Rightarrow> refresh_leader discover c)
      = (target, c1)"
    by fastforce
  then have c1: "cl_cache c1 = cl_cache c" "cl_last_returned c1 = cl_last_returned c"
    "cl_config c1 = cl_config c"
    by (auto simp: refresh_leader_def Let_def split: option.splits sum.splits)
  show ?case
  proof (cases target)
    case (Inl e)
    then show ?thesis
      using 1(1)[OF t[symmetric] refl] t c1
      by (subst refill_loop.simps) (cases e; auto simp: Let_def intro: refill_ok_trans)
  next
    case (Inr l)
    note IH = 1(2-4)[OF t[symmetric] refl Inr refl refl]
    show ?thesis
    proof (cases "rpc (cl_calls c1) l \<lparr>rq_requester = cl_requester c1, rq_credential = cl_credential c1,
        rq_count = count\<rparr>")
      case (Inl e)
      then show ?thesis
        using IH t c1 Inr
        by (subst refill_loop.simps) (cases e; auto simp: Let_def intro: refill_ok_trans)
    next
      case (Inr rng)
      then show ?thesis
        using t c1 \<open>target = Inr l\<close>
        by (subst refill_loop.simps) (auto simp: refill_ok_def Let_def valid_range_def)
    qed
  qed
qed

lemma refill_refill_ok: "refill_ok count c (refill rpc discover count c)"
  by (simp add: refill_def refill_loop_ok)

lemma pop_cache_config [simp]: "cl_config (snd (pop_cache c)) = cl_config c"
  by (auto simp: pop_cache_def Let_def split: list.splits option.splits)

definition has_values :: "tso_client \<Rightarrow> bool" where
  "has_values c \<longleftrightarrow> \<not> list_all cached_exhausted (cl_cache c)"

lemma refill_Ok_cache:
  assumes "refill rpc discover count c = (Ok u, c')" "cache_ok c" "count \<noteq> 0"
  shows "cache_ok c'" "has_values c'"
  using assms refill_refill_ok[of count c rpc discover]
  by (auto simp: refill_ok_def cache_ok_def has_values_def list_all_iff cached_exhausted_def)

lemma pop_cache_not_empty:
  assumes "cache_ok c" "pop_cache c = (Ok None, c')"
  shows "\<not> has_values c" "cache_ok c'"
  by (rule pop_cache_cases[OF assms]; simp add: has_values_def cache_ok_def)+

text \<open>Fuel: two units per timestamp still to return, one less when the cache already has one.\<close>

definition loop_need :: "nat \<Rightarrow> hybrid_timestamp list \<Rightarrow> tso_client \<Rightarrow> nat" where
  "loop_need count vs c = 2 * (count - length vs) - (if has_values c then 1 else 0)"

lemma prefetch_step:
  assumes "cache_ok c" "cc_batch_size (cl_config c) \<noteq> 0"
    and "(if cache_remaining c > 0 \<and> cache_remaining c \<le> unat (cc_prefetch_threshold (cl_config c))
          then refill rpc discover (cc_batch_size (cl_config c)) c else (Ok (), c)) = (Ok u, c1)"
  shows "cache_ok c1" "cl_config c1 = cl_config c" "cl_last_returned c1 = cl_last_returned c"
    "has_values c \<Longrightarrow> has_values c1"
  using assms refill_Ok_cache[of rpc discover "cc_batch_size (cl_config c)" c]
    refill_refill_ok[of "cc_batch_size (cl_config c)" c rpc discover]
  by (auto simp: refill_ok_def has_values_def split: if_splits)

text \<open>
  With enough fuel the loop returns; a successful result has exactly the requested number of
  timestamps, strictly increasing and beyond everything returned before.
\<close>

definition loop_result ::
  "nat \<Rightarrow> hybrid_timestamp list \<Rightarrow> tso_client \<Rightarrow> (tso_error + hybrid_timestamp list) \<times> tso_client \<Rightarrow> bool" where
  "loop_result count vs c res \<longleftrightarrow>
     (case fst res of
        Inl _ \<Rightarrow> True
      | Inr out \<Rightarrow> (\<exists>new. out = vs @ new \<and> length out = max count (length vs) \<and> sorted_wrt (<) new \<and>
          list_all (beyond (cl_last_returned c)) new \<and>
          cl_last_returned (snd res) = (if new = [] then cl_last_returned c else Some (last new))))"

lemma beyond_Some: "beyond (Some y) x \<longleftrightarrow> y < x"
  by (simp add: beyond_def)

lemma loop_result_cong:
  assumes "loop_result count vs c res" "cl_last_returned c = cl_last_returned c'"
  shows "loop_result count vs c' res"
  using assms(1) unfolding loop_result_def assms(2) .

lemma loop_result_push:
  assumes "loop_result count (vs @ [v]) c2 res" "length vs < count"
    and "beyond (cl_last_returned c) v" "cl_last_returned c2 = Some v"
  shows "loop_result count vs c res"
proof (cases "fst res")
  case (Inr out)
  then obtain new where new: "out = (vs @ [v]) @ new" "length out = max count (length (vs @ [v]))"
    "sorted_wrt (<) new" "list_all (beyond (Some v)) new"
    "cl_last_returned (snd res) = (if new = [] then Some v else Some (last new))"
    using assms(1,4) by (auto simp: loop_result_def)
  have "list_all (beyond (cl_last_returned c)) new"
    using new(4) beyond_trans[OF assms(3)] by (simp add: list_all_iff beyond_Some less_imp_le)
  then have "out = vs @ (v # new) \<and> length out = max count (length vs) \<and> sorted_wrt (<) (v # new) \<and>
      list_all (beyond (cl_last_returned c)) (v # new) \<and>
      cl_last_returned (snd res) = (if v # new = [] then cl_last_returned c else Some (last (v # new)))"
    using new assms(2,3) by (simp add: list_all_iff beyond_Some)
  then show ?thesis
    unfolding loop_result_def Inr sum.case by blast
qed (simp add: loop_result_def)

lemma get_timestamps_loop_total:
  assumes "cache_ok c" "cc_batch_size (cl_config c) \<noteq> 0" "loop_need count vs c \<le> fuel"
  shows "\<exists>res. get_timestamps_loop fuel rpc discover count vs c = Some res \<and> loop_result count vs c res"
  using assms
proof (induction fuel arbitrary: vs c)
  case 0
  then have "\<not> length vs < count"
    by (auto simp: loop_need_def split: if_splits)
  then show ?case
    by (subst get_timestamps_loop.simps) (auto simp: loop_result_def)
next
  case (Suc fuel)
  show ?case
  proof (cases "length vs < count")
    case False
    then show ?thesis
      by (subst get_timestamps_loop.simps) (auto simp: loop_result_def)
  next
    case True
    obtain pre c1 where pre: "(if cache_remaining c > 0 \<and>
        cache_remaining c \<le> unat (cc_prefetch_threshold (cl_config c))
        then refill rpc discover (cc_batch_size (cl_config c)) c else (Ok (), c)) = (pre, c1)"
      by (metis prod.collapse)
    obtain r c2 where pop: "pop_cache c1 = (r, c2)"
      by fastforce
    note unfold = get_timestamps_loop.simps[of "Suc fuel" rpc discover count vs c]
    show ?thesis
    proof (cases pre)
      case (Inl e)
      then show ?thesis
        using True pre unfold by (simp add: Let_def loop_result_def)
    next
      case (Inr u)
      note c1 = prefetch_step[OF Suc.prems(1,2) pre[unfolded Inr]]
      from c1(1) pop show ?thesis
      proof (cases rule: pop_cache_cases)
        case (popped v)
        have "cl_config c2 = cl_config c"
          using pop_cache_config[of c1] c1(2) pop by simp
        moreover have "loop_need count (vs @ [v]) c2 \<le> fuel"
          using Suc.prems(3) True by (auto simp: loop_need_def split: if_splits)
        ultimately obtain res where
          "get_timestamps_loop fuel rpc discover count (vs @ [v]) c2 = Some res"
          "loop_result count (vs @ [v]) c2 res"
          using Suc.IH[of c2 "vs @ [v]"] popped(4) Suc.prems(2) by auto
        then show ?thesis
          using True pre pop popped Inr c1(3) unfold loop_result_push[of count vs v c2 res c]
          by (simp add: Let_def)
      next
        case stale
        then show ?thesis
          using True pre pop Inr unfold by (simp add: Let_def loop_result_def)
      next
        case empty
        let ?k = "max (cc_batch_size (cl_config c2)) (of_nat (count - length vs))"
        obtain r3 c3 where rf: "refill rpc discover ?k c2 = (r3, c3)"
          by fastforce
        have cfg: "cl_config c2 = cl_config c"
          using pop_cache_config[of c1] c1(2) pop by simp
        then have "?k \<noteq> 0"
          using Suc.prems(2) by (metis max_def word_le_0_iff)
        show ?thesis
        proof (cases r3)
          case (Inl e)
          then show ?thesis
            using True pre pop empty \<open>pre = Inr u\<close> rf unfold by (simp add: Let_def loop_result_def)
        next
          case (Inr u3)
          have ok2: "cache_ok c2" "\<not> has_values c1"
            using pop_cache_not_empty[OF c1(1)] pop empty by auto
          note c3 = refill_Ok_cache[OF rf[unfolded Inr] ok2(1) \<open>?k \<noteq> 0\<close>]
          have keep: "cl_config c3 = cl_config c" "cl_last_returned c3 = cl_last_returned c"
            using refill_refill_ok[of ?k c2 rpc discover] rf cfg empty(4) c1(3)
            by (auto simp: refill_ok_def)
          have "\<not> has_values c"
            using ok2(2) c1(4) by blast
          then have "loop_need count vs c3 \<le> fuel"
            using Suc.prems(3) True c3(2) by (simp add: loop_need_def)
          then obtain res where
            "get_timestamps_loop fuel rpc discover count vs c3 = Some res" "loop_result count vs c3 res"
            using Suc.IH[of c3 vs] c3(1) keep Suc.prems(2) by auto
          then show ?thesis
            using True pre pop empty \<open>pre = Inr u\<close> rf Inr unfold
              loop_result_cong[OF _ keep(2), of count vs res]
            by (simp add: Let_def)
        qed
      qed
    qed
  qed
qed

subsection \<open>Retries\<close>

definition retries_bounded :: "nat \<Rightarrow> tso_client \<Rightarrow> tso_client \<Rightarrow> bool" where
  "retries_bounded n c c' \<longleftrightarrow>
     (\<exists>ds. cl_slept c' = cl_slept c @ ds \<and> length ds \<le> n \<and>
        list_all (\<lambda>d. d \<le> cc_max_backoff (cl_config c)) ds) \<and>
     cl_calls c' \<le> cl_calls c + 2 * Suc n"

lemma backoff_le_max [simp]: "backoff c f \<le> cc_max_backoff (cl_config c)"
  by (simp add: backoff_def)

lemma retries_bounded_refl: "cl_slept c' = cl_slept c \<Longrightarrow> cl_calls c' \<le> cl_calls c + 2 \<Longrightarrow> retries_bounded n c c'"
  by (simp add: retries_bounded_def)

lemma retries_bounded_step:
  assumes "retries_bounded n c2 c'" "cl_config c2 = cl_config c" "cl_calls c2 \<le> cl_calls c + 2"
    and "cl_slept c2 = cl_slept c @ ds" "length ds \<le> 1" "list_all (\<lambda>d. d \<le> cc_max_backoff (cl_config c)) ds"
  shows "retries_bounded (Suc n) c c'"
proof -
  obtain es where es: "cl_slept c' = cl_slept c2 @ es" "length es \<le> n"
    "list_all (\<lambda>d. d \<le> cc_max_backoff (cl_config c)) es" "cl_calls c' \<le> cl_calls c2 + 2 * Suc n"
    using assms(1,2) by (auto simp: retries_bounded_def)
  then have "cl_slept c' = cl_slept c @ (ds @ es) \<and> length (ds @ es) \<le> Suc n \<and>
      list_all (\<lambda>d. d \<le> cc_max_backoff (cl_config c)) (ds @ es)"
    using assms(4-6) by simp
  then show ?thesis
    using es(4) assms(3) unfolding retries_bounded_def by auto
qed

lemma refill_loop_retries: "retries_bounded (m - f) c (snd (refill_loop rpc discover count m f c))"
proof (induction rpc discover count m f c rule: refill_loop.induct)
  case (1 rpc discover count m f c)
  obtain target c1 where t: "(case cl_leader c of Some l \<Rightarrow> (Ok l, c) | None \<Rightarrow> refresh_leader discover c)
      = (target, c1)"
    by fastforce
  then have c1: "cl_slept c1 = cl_slept c" "cl_calls c1 \<le> Suc (cl_calls c)" "cl_config c1 = cl_config c"
    by (auto simp: refresh_leader_def Let_def split: option.splits sum.splits)
  have sleep: "retries_bounded (m - f) c c'"
    if "\<not> m \<le> f" "retries_bounded (m - Suc f) c2 c'" "cl_slept c2 = cl_slept c @ [d]"
      "d \<le> cc_max_backoff (cl_config c)" "cl_calls c2 \<le> cl_calls c + 2" "cl_config c2 = cl_config c"
    for c2 c' d
    using that retries_bounded_step[OF that(2), of c "[d]"] by (simp add: Suc_diff_Suc)
  have bo: "backoff c2 f \<le> cc_max_backoff (cl_config c)" if "cl_config c2 = cl_config c" for c2
    using backoff_le_max[of c2 f] that by simp
  have again: "retries_bounded (m - f) c c'"
    if "\<not> m < Suc f" "retries_bounded (m - Suc f) c2 c'"
      "cl_slept c2 = cl_slept c" "cl_calls c2 \<le> cl_calls c + 2" "cl_config c2 = cl_config c" for c2 c'
    using that retries_bounded_step[OF that(2), of c "[]"] by (simp add: Suc_diff_Suc)
  show ?case
  proof (cases target)
    case (Inl e)
    then show ?thesis
      using 1(1)[OF t[symmetric] refl] t c1
      by (subst refill_loop.simps) (cases e; auto simp: Let_def bo intro: sleep retries_bounded_refl)
  next
    case (Inr l)
    note IH = 1(2-4)[OF t[symmetric] refl Inr refl refl]
    then show ?thesis
      using t c1 Inr
      by (subst refill_loop.simps)
        (auto simp: Let_def bo intro: sleep again retries_bounded_refl split: sum.split tso_error.split)
  qed
qed

subsection \<open>Response routing\<close>

lemma tso_receive_loop_stops:
  assumes "\<And>payload. f \<noteq> User payload"
  shows "tso_receive_loop de (xs @ (n, f) # ys) pending = tso_receive_loop de (xs @ [(n, f)]) pending"
proof -
  have stop: "tso_receive_loop de ((n, f) # zs) p = ([], p)" for zs p
    using assms by (cases f) auto
  show ?thesis
  proof (induction xs arbitrary: pending)
    case (Cons x xs)
    obtain m g where x: "x = (m, g)"
      by fastforce
    show ?case
    proof (cases "\<exists>payload. g = User payload")
      case True
      then show ?thesis
        using Cons.IH by (auto simp: x Let_def split: sum.split tso_frame.split)
    next
      case False
      then show ?thesis
        by (cases g) (auto simp: x)
    qed
  qed (simp add: stop)
qed

section \<open>Properties\<close>

text \<open>
  (C16) Over any committed log, the timestamps of all allocated ranges, listed in commit order, are
  strictly increasing, and all lie beyond what the state had allocated before; clock readings in
  the commands may go backwards.
\<close>

theorem tso_allocations_strictly_increase:
  "sorted_wrt (<) (allocated (fst (tso_run s cs))) \<and>
   list_all (beyond (ts_last s)) (allocated (fst (tso_run s cs)))"
  using tso_run_sorted[of s cs] by (simp add: list_all_iff)




definition example_oracle :: timestamp_oracle where
  "example_oracle = \<lparr>or_node_id = 1, or_lease_expiry = Some 110, or_lease_duration_ms = 100\<rparr>"

definition example_tso :: "u64 \<Rightarrow> tso_state" where
  "example_tso k = \<lparr>ts_last = Some (HybridTimestamp 5 (2 * ucast k)), ts_lease_owner = Some 1,
     ts_lease_expires_at_ms = 110, ts_committed_ranges = k\<rparr>"

definition example_range :: "u64 \<Rightarrow> timestamp_range" where
  "example_range k = \<lparr>tr_start = HybridTimestamp 5 (2 * ucast k + 1),
     tr_end = HybridTimestamp 5 (2 * ucast k + 2), tr_count = 2\<rparr>"

definition example_ser_cmd :: "tso_command \<Rightarrow> string + bytes" where
  "example_ser_cmd c = (if c = Allocate 1 20 5 2 then Ok [7] else Err [])"

definition example_de_cmd :: "bytes \<Rightarrow> string + tso_command" where
  "example_de_cmd bs = (if bs = [7] then Ok (Allocate 1 20 5 2) else Err [])"

definition example_ser_resp :: "tso_response \<Rightarrow> string + bytes" where
  "example_ser_resp r = (if r = Allocated (example_range 0) then Ok [0]
     else if r = Allocated (example_range 1) then Ok [1] else Err [])"

definition example_de_resp :: "bytes \<Rightarrow> string + tso_response" where
  "example_de_resp bs = (if bs = [0] then Ok (Allocated (example_range 0))
     else if bs = [1] then Ok (Allocated (example_range 1)) else Err [])"

lemma example_oracle_call:
  "oracle_get_timestamps example_ser_cmd example_de_resp (\<lambda>_. (1, Some 1))
     (local_propose example_de_cmd example_ser_resp) 5 20 2 (example_oracle, example_tso k)
   = (Ok (example_range k), example_oracle, example_tso (k + 1))"
  if "k = 0 \<or> k = 1"
  using that
  by (auto simp: oracle_get_timestamps_def require_leader_def oracle_is_leader_def ensure_lease_def
      oracle_propose_def local_propose_def tso_apply_def example_oracle_def example_tso_def
      example_ser_cmd_def example_de_cmd_def example_ser_resp_def example_de_resp_def
      example_range_def ts_checked_next_def ts_checked_add_def range_from_start_def
      LOGICAL_CARDINALITY_def checked_add_def saturating_add_def Let_def)


text \<open>
  (C24) A client request always returns, whatever the servers answer, and what it returns is
  either an error or exactly the requested number of timestamps, strictly increasing and beyond
  every timestamp this client handed out before.
\<close>

theorem client_timestamps_monotone:
  assumes "cache_ok c" "cc_batch_size (cl_config c) \<noteq> 0" "count \<noteq> 0"
  shows "\<exists>r c'. client_get_timestamps rpc discover count c = Some (r, c') \<and>
    (case r of
       Inl _ \<Rightarrow> True
     | Inr vs \<Rightarrow> length vs = unat count \<and> sorted_wrt (<) vs \<and>
         list_all (beyond (cl_last_returned c)) vs \<and> cl_last_returned c' = Some (last vs))"
proof -
  have "loop_need (unat count) [] c \<le> 2 * unat count"
    by (simp add: loop_need_def)
  from get_timestamps_loop_total[OF assms(1,2) this, of rpc discover]
  obtain r c' where r: "get_timestamps_loop (2 * unat count) rpc discover (unat count) [] c = Some (r, c')"
    "loop_result (unat count) [] c (r, c')"
    by auto
  have "0 < unat count"
    using assms(3) by (simp add: unat_gt_0)
  then have "case r of Inl _ \<Rightarrow> True
     | Inr vs \<Rightarrow> length vs = unat count \<and> sorted_wrt (<) vs \<and>
         list_all (beyond (cl_last_returned c)) vs \<and> cl_last_returned c' = Some (last vs)"
    using r(2) by (auto simp: loop_result_def split: sum.splits)
  then show ?thesis
    using r(1) assms(3) by (auto simp: client_get_timestamps_def)
qed

definition example_client :: tso_client where
  "example_client = \<lparr>cl_requester = 9, cl_credential = [], cl_leader = Some 1,
     cl_config = \<lparr>cc_batch_size = 2, cc_prefetch_threshold = 0, cc_max_retries = 3,
       cc_initial_backoff = 10, cc_max_backoff = 25\<rparr>,
     cl_cache = [], cl_last_returned = None, cl_calls = 0, cl_slept = []\<rparr>"

theorem client_timestamps_monotone_witness:
  "\<exists>r c'. client_get_timestamps (\<lambda>n l q. Ok (example_range 0)) (\<lambda>n. Ok 1) 2 example_client = Some (r, c') \<and>
    (case r of
       Inl _ \<Rightarrow> True
     | Inr vs \<Rightarrow> length vs = unat (2 :: u32) \<and> sorted_wrt (<) vs \<and>
         list_all (beyond (cl_last_returned example_client)) vs \<and> cl_last_returned c' = Some (last vs))"
  by (rule client_timestamps_monotone) (simp_all add: example_client_def cache_ok_def)

text \<open>
  A refill gives up after a bounded effort: it sleeps at most \<open>max_retries\<close> times, never
  longer than \<open>max_backoff\<close>, and calls the transport at most \<open>2 * (max_retries + 1)\<close> times.
\<close>

theorem refill_effort_bounded:
  "retries_bounded (cc_max_retries (cl_config c)) c (snd (refill rpc discover count c))"
  using refill_loop_retries[of "cc_max_retries (cl_config c)" 0 c rpc discover count]
  by (simp add: refill_def)

text \<open>
  The response router of the client transport stops at the first frame that is not a user
  frame: whatever arrives later, responses included, is never delivered to the waiting requests.
\<close>

theorem tso_response_router_stops_at_foreign_frame:
  "tso_receive_loop de (xs @ (n, FileTransfer sid msg) # ys) pending
     = tso_receive_loop de (xs @ [(n, FileTransfer sid msg)]) pending"
  by (rule tso_receive_loop_stops) simp

end
