(* ===== verification/Wal_Storage.thy ===== *)
theory Wal_Storage
  imports Std_Maps Wal_Format Tso
begin

text \<open>
  The Raft log storage of \<^verbatim>\<open>chirps-raft-storage/src/wal_storage.rs\<close> over a write-ahead log.

  The types of openraft that the records carry (log identifiers, votes, entries, snapshot meta
  data) are modelled by their documented fields; a membership is the type variable \<open>'m\<close>.
  The environment \<open>wal_env\<close> collects what is not in the repository or is an injected
  dependency: the serialiser, the checksum, the WAL sink (trait \<^verbatim>\<open>WalSink\<close>) with the size and
  framing checks and the reader of its file, and
  the user's state machine.  Operations return \<^const>\<open>None\<close> where the code would not return
  normally: the eviction loop without a candidate, or a panicking range query.
\<close>

section \<open>Types\<close>

datatype log_id = LogId (li_term: u64) (li_node: u64) (li_index: u64)

record vote =
  vt_term :: u64
  vt_node :: u64
  vt_committed :: bool

datatype 'm entry_payload = Blank | Normal bytes | Membership 'm

record 'm entry =
  en_log_id :: log_id
  en_payload :: "'m entry_payload"

type_synonym 'm stored_membership = "log_id option \<times> 'm"

record 'm snapshot_meta =
  sm_last_log_id :: "log_id option"
  sm_last_membership :: "'m stored_membership"
  sm_snapshot_id :: string

record wal_header =
  wh_magic :: bytes
  wh_format_version :: u32
  wh_group_id :: group_id
  wh_node_id :: u64
  wh_created_at :: u64
  wh_reserved :: bytes

datatype 'm raft_wal_record =
    AppendLog "'m entry"
  | VoteRecord vote
  | SnapshotApplied "'m snapshot_meta"
  | Truncate log_id
  | Purge log_id

datatype 'm wal_frame = Header wal_header | Record "'m raft_wal_record"

definition WAL_MAGIC :: bytes where
  "WAL_MAGIC = [0x52, 0x57, 0x41, 0x4C]"

datatype range_bound = Included u64 | Excluded u64 | Unbounded

type_synonym index_range = "range_bound \<times> range_bound"

definition range_contains :: "index_range \<Rightarrow> u64 \<Rightarrow> bool" where
  "range_contains rg value =
     (let start_ok = (case fst rg of Included v \<Rightarrow> value \<ge> v | Excluded v \<Rightarrow> value > v | Unbounded \<Rightarrow> True);
          end_ok = (case snd rg of Included v \<Rightarrow> value \<le> v | Excluded v \<Rightarrow> value < v | Unbounded \<Rightarrow> True)
      in start_ok \<and> end_ok)"

text \<open>\<^verbatim>\<open>BTreeMap::range\<close> panics on an inverted range and on an empty one excluded at both ends.\<close>

fun range_panics :: "index_range \<Rightarrow> bool" where
  "range_panics (Included a, Included b) = (a > b)"
| "range_panics (Included a, Excluded b) = (a > b)"
| "range_panics (Excluded a, Included b) = (a > b)"
| "range_panics (Excluded a, Excluded b) = (a \<ge> b)"
| "range_panics _ = False"

section \<open>The entry cache\<close>

record 'm log_cache =
  lc_map :: "(u64 \<times> 'm entry) list"
  lc_order :: "u64 list"

definition entry_index :: "'m entry \<Rightarrow> u64" where
  "entry_index e = li_index (en_log_id e)"

definition touch_cache :: "u64 \<Rightarrow> 'm log_cache \<Rightarrow> 'm log_cache" where
  "touch_cache index c =
     (let order = filter (\<lambda>cached. cached \<noteq> index) (lc_order c)
      in c\<lparr>lc_order := (if map_of (lc_map c) index \<noteq> None then order @ [index] else order)\<rparr>)"

text \<open>The eviction loop; with no candidate left it would spin, which is \<^const>\<open>None\<close>.\<close>

fun evict_loop :: "nat \<Rightarrow> u64 list \<Rightarrow> (u64 \<times> 'm entry) list \<Rightarrow> 'm log_cache option" where
  "evict_loop cap order m =
     (if length m \<le> cap then Some \<lparr>lc_map = m, lc_order = order\<rparr>
      else case order of [] \<Rightarrow> None | lru # rest \<Rightarrow> evict_loop cap rest (bt_remove lru m))"

declare evict_loop.simps [simp del]

definition insert_entry :: "nat \<Rightarrow> 'm entry \<Rightarrow> 'm log_cache \<Rightarrow> 'm log_cache option" where
  "insert_entry cap e c =
     (let c1 = touch_cache (entry_index e) (c\<lparr>lc_map := bt_insert (entry_index e) e (lc_map c)\<rparr>)
      in evict_loop cap (lc_order c1) (lc_map c1))"

definition truncate_cache :: "u64 \<Rightarrow> 'm log_cache \<Rightarrow> 'm log_cache" where
  "truncate_cache index c =
     (let keys = map fst (bt_range (\<lambda>k. k \<ge> index + 1) (lc_map c))
      in c\<lparr>lc_map := fold bt_remove keys (lc_map c), lc_order := filter (\<lambda>i. i \<le> index) (lc_order c)\<rparr>)"

definition purge_cache :: "u64 \<Rightarrow> 'm log_cache \<Rightarrow> 'm log_cache" where
  "purge_cache index c =
     (let keys = map fst (bt_range (\<lambda>k. k \<le> index) (lc_map c))
      in c\<lparr>lc_map := fold bt_remove keys (lc_map c), lc_order := filter (\<lambda>i. i > index) (lc_order c)\<rparr>)"

section \<open>Storage\<close>

text \<open>
  Replacing a snapshot file writes and syncs a temporary file, renames it over the target and syncs
  the directory.  A failure before the rename leaves the old file, a failure of the last sync
  leaves the new one.
\<close>

datatype replace_fault = NoFault | BeforeRename string | AfterRename string

fun durably_replace ::
  "replace_fault \<Rightarrow> string \<Rightarrow> bytes \<Rightarrow> (string \<Rightarrow> bytes option) \<Rightarrow> (string + unit) \<times> (string \<Rightarrow> bytes option)" where
  "durably_replace NoFault path bs files = (Ok (), files(path \<mapsto> bs))"
| "durably_replace (BeforeRename e) path bs files = (Err e, files)"
| "durably_replace (AfterRename e) path bs files = (Err e, files(path \<mapsto> bs))"

fun group_num :: "group_id \<Rightarrow> u64" where
  "group_num (GroupId g) = g"

definition snapshot_path :: "group_id \<Rightarrow> string \<Rightarrow> string" where
  "snapshot_path g snapshot_id =
     ''snapshot-'' @ decimal (unat (group_num g)) @ ''-'' @ snapshot_id @ ''.alopex''"

definition wal_path :: "group_id \<Rightarrow> u64 \<Rightarrow> string" where
  "wal_path g n = ''raft-'' @ decimal (unat (group_num g)) @ ''-'' @ decimal (unat n) @ ''.wal''"

record ('m, 's, 'sm) wal_env =
  we_ser :: "'m wal_frame \<Rightarrow> string + bytes"
  we_de :: "bytes \<Rightarrow> string + 'm wal_frame"
  we_ser_meta :: "'m snapshot_meta \<Rightarrow> string + bytes"
  we_de_meta :: "bytes \<Rightarrow> string + 'm snapshot_meta"
  we_crc :: "bytes \<Rightarrow> u32"
  we_append :: "bytes \<Rightarrow> bool \<Rightarrow> 's \<Rightarrow> (string + unit) \<times> 's"
  we_sync :: "'s \<Rightarrow> (string + unit) \<times> 's"
  we_empty :: "'s \<Rightarrow> bool"
  we_validate :: "'s \<Rightarrow> string + unit"
  we_read :: "'s \<Rightarrow> bytes list"
  we_sm_apply :: "log_id \<Rightarrow> bytes \<Rightarrow> 'sm \<Rightarrow> (string + bytes) \<times> 'sm"
  we_sm_restore :: "bytes \<Rightarrow> 'sm \<Rightarrow> (string + unit) \<times> 'sm"
  we_sm_snapshot :: "'sm \<Rightarrow> string + bytes"
  we_fault :: "string \<Rightarrow> bytes \<Rightarrow> replace_fault"

record ('m, 's, 'sm) wal_storage =
  st_log_cache_size :: nat
  st_fsync_interval :: nat
  st_format_version :: u32
  st_snapshot_chunk_size :: nat
  st_group_id :: group_id
  st_node_id :: u64
  st_sink :: 's
  st_vote :: "vote option"
  st_cache :: "'m log_cache"
  st_pending_unsynced :: nat
  st_last_purged_log_id :: "log_id option"
  st_purgeable_horizon :: "log_id option"
  st_last_applied :: "log_id option"
  st_last_membership :: "'m stored_membership"
  st_snapshot_meta :: "'m snapshot_meta option"
  st_snapshot_path :: "string option"
  st_files :: "string \<Rightarrow> bytes option"
  st_state_machine :: 'sm
  st_completed :: "(string \<times> nat) list"

definition write_frame ::
  "('m, 's, 'sm) wal_env \<Rightarrow> 'm wal_frame \<Rightarrow> bool \<Rightarrow> ('m, 's, 'sm) wal_storage
     \<Rightarrow> (string + unit) \<times> ('m, 's, 'sm) wal_storage" where
  "write_frame env f sync_now s =
     (case encode_frame (we_crc env) (we_ser env) f of
        Inl e \<Rightarrow> (Err e, s)
      | Inr bs \<Rightarrow>
          (let (r, sink) = we_append env bs sync_now (st_sink s); s1 = s\<lparr>st_sink := sink\<rparr>
           in case r of
                Inl e \<Rightarrow> (Err e, s1)
              | Inr _ \<Rightarrow>
                  (Ok (), s1\<lparr>st_pending_unsynced :=
                             (if sync_now then 0 else st_pending_unsynced s + 1)\<rparr>)))"

definition sync_wal ::
  "('m, 's, 'sm) wal_env \<Rightarrow> ('m, 's, 'sm) wal_storage \<Rightarrow> (string + unit) \<times> ('m, 's, 'sm) wal_storage" where
  "sync_wal env s =
     (let (r, sink) = we_sync env (st_sink s); s1 = s\<lparr>st_sink := sink\<rparr>
      in case r of Inl e \<Rightarrow> (Err e, s1) | Inr _ \<Rightarrow> (Ok (), s1\<lparr>st_pending_unsynced := 0\<rparr>))"

definition last_log_id :: "('m, 's, 'sm) wal_storage \<Rightarrow> log_id option" where
  "last_log_id s = map_option (\<lambda>(_, e). en_log_id e) (bt_last (lc_map (st_cache s)))"

definition get_log_state :: "('m, 's, 'sm) wal_storage \<Rightarrow> log_id option \<times> log_id option" where
  "get_log_state s = (st_last_purged_log_id s, last_log_id s)"

definition remember_entry :: "'m entry \<Rightarrow> ('m, 's, 'sm) wal_storage \<Rightarrow> ('m, 's, 'sm) wal_storage" where
  "remember_entry e s =
     (let s1 = s\<lparr>st_last_applied := Some (en_log_id e)\<rparr>
      in case en_payload e of
           Membership m \<Rightarrow> s1\<lparr>st_last_membership := (Some (en_log_id e), m)\<rparr>
         | _ \<Rightarrow> s1)"

definition storage_insert ::
  "'m entry \<Rightarrow> ('m, 's, 'sm) wal_storage \<Rightarrow> ('m, 's, 'sm) wal_storage option" where
  "storage_insert e s =
     map_option (\<lambda>c. s\<lparr>st_cache := c\<rparr>) (insert_entry (st_log_cache_size s) e (st_cache s))"

definition append_entry_with_sync ::
  "('m, 's, 'sm) wal_env \<Rightarrow> 'm entry \<Rightarrow> bool \<Rightarrow> ('m, 's, 'sm) wal_storage
     \<Rightarrow> ((string + unit) \<times> ('m, 's, 'sm) wal_storage) option" where
  "append_entry_with_sync env e sync_now s =
     (let (r, s1) = write_frame env (Record (AppendLog e)) sync_now s
      in case r of
           Inl er \<Rightarrow> Some (Err er, s1)
         | Inr _ \<Rightarrow>
             (case storage_insert e (remember_entry e s1) of
                None \<Rightarrow> None
              | Some s2 \<Rightarrow>
                  Some (if \<not> sync_now \<and> st_fsync_interval s2 > 0
                            \<and> st_pending_unsynced s2 \<ge> st_fsync_interval s2
                        then sync_wal env s2 else (Ok (), s2))))"

fun append_entries ::
  "('m, 's, 'sm) wal_env \<Rightarrow> 'm entry list \<Rightarrow> ('m, 's, 'sm) wal_storage
     \<Rightarrow> ((string + unit) \<times> ('m, 's, 'sm) wal_storage) option" where
  "append_entries env [] s = Some (Ok (), s)"
| "append_entries env (e # es) s =
     (case append_entry_with_sync env e False s of
        None \<Rightarrow> None
      | Some (Inl er, s1) \<Rightarrow> Some (Err er, s1)
      | Some (Inr _, s1) \<Rightarrow> append_entries env es s1)"

text \<open>\<^verbatim>\<open>append\<close>; the result is what the completion callback receives.\<close>

definition storage_append ::
  "('m, 's, 'sm) wal_env \<Rightarrow> 'm entry list \<Rightarrow> ('m, 's, 'sm) wal_storage
     \<Rightarrow> ((string + unit) \<times> ('m, 's, 'sm) wal_storage) option" where
  "storage_append env es s =
     (if es = [] then Some (Ok (), s)
      else case append_entries env es s of
        None \<Rightarrow> None
      | Some (Inl er, s1) \<Rightarrow> Some (Err er, s1)
      | Some (Inr _, s1) \<Rightarrow>
          Some (let (r, s2) = (if st_fsync_interval s1 = 0 then sync_wal env s1 else (Ok (), s1))
                in case r of
                     Inl er \<Rightarrow> (Err er, s2)
                   | Inr _ \<Rightarrow>
                       if st_fsync_interval s2 > 0 \<and> st_pending_unsynced s2 > 0 then sync_wal env s2
                       else (Ok (), s2)))"

definition storage_truncate ::
  "('m, 's, 'sm) wal_env \<Rightarrow> log_id \<Rightarrow> ('m, 's, 'sm) wal_storage
     \<Rightarrow> (string + unit) \<times> ('m, 's, 'sm) wal_storage" where
  "storage_truncate env lid s =
     (let (r, s1) = write_frame env (Record (Truncate lid)) True s
      in case r of
           Inl er \<Rightarrow> (Err er, s1)
         | Inr _ \<Rightarrow> (Ok (), s1\<lparr>st_cache := truncate_cache (li_index lid) (st_cache s1)\<rparr>))"

definition storage_purge ::
  "('m, 's, 'sm) wal_env \<Rightarrow> log_id \<Rightarrow> ('m, 's, 'sm) wal_storage
     \<Rightarrow> (string + unit) \<times> ('m, 's, 'sm) wal_storage" where
  "storage_purge env lid s =
     (let (r, s1) = write_frame env (Record (Purge lid)) True s
      in case r of
           Inl er \<Rightarrow> (Err er, s1)
         | Inr _ \<Rightarrow> (Ok (), s1\<lparr>st_cache := purge_cache (li_index lid) (st_cache s1),
                             st_last_purged_log_id := Some lid\<rparr>))"

definition save_vote ::
  "('m, 's, 'sm) wal_env \<Rightarrow> vote \<Rightarrow> ('m, 's, 'sm) wal_storage
     \<Rightarrow> (string + unit) \<times> ('m, 's, 'sm) wal_storage" where
  "save_vote env v s =
     (let (r, s1) = write_frame env (Record (VoteRecord v)) True s
      in case r of Inl er \<Rightarrow> (Err er, s1) | Inr _ \<Rightarrow> (Ok (), s1\<lparr>st_vote := Some v\<rparr>))"

definition read_vote :: "('m, 's, 'sm) wal_storage \<Rightarrow> vote option" where
  "read_vote s = st_vote s"

definition applied_state :: "('m, 's, 'sm) wal_storage \<Rightarrow> log_id option \<times> 'm stored_membership" where
  "applied_state s = (st_last_applied s, st_last_membership s)"

fun storage_apply ::
  "('m, 's, 'sm) wal_env \<Rightarrow> 'm entry list \<Rightarrow> ('m, 's, 'sm) wal_storage
     \<Rightarrow> (string + bytes list) \<times> ('m, 's, 'sm) wal_storage" where
  "storage_apply env [] s = (Ok [], s)"
| "storage_apply env (e # es) s =
     (let s1 = s\<lparr>st_last_applied := Some (en_log_id e)\<rparr>;
          (r, s2) = (case en_payload e of
             Normal cmd \<Rightarrow>
               (let (resp, sm) = we_sm_apply env (en_log_id e) cmd (st_state_machine s1)
                in (resp, s1\<lparr>st_state_machine := sm\<rparr>))
           | Membership m \<Rightarrow> (Ok [], s1\<lparr>st_last_membership := (Some (en_log_id e), m)\<rparr>)
           | Blank \<Rightarrow> (Ok [], s1))
      in case r of
           Inl er \<Rightarrow> (Err er, s2)
         | Inr resp \<Rightarrow>
             (let (rs, s3) = storage_apply env es s2
              in (case rs of Inl er \<Rightarrow> Err er | Inr l \<Rightarrow> Ok (resp # l), s3)))"

section \<open>Reading\<close>

fun decode_all :: "('m, 's, 'sm) wal_env \<Rightarrow> bytes list \<Rightarrow> string + 'm wal_frame list" where
  "decode_all env [] = Ok []"
| "decode_all env (b # bs) =
     and_then (decode_frame (we_crc env) (we_de env) b) (\<lambda>f.
       and_then (decode_all env bs) (\<lambda>fs. Ok (f # fs)))"

definition remove_keys :: "(u64 \<Rightarrow> bool) \<Rightarrow> (u64 \<times> 'm entry) list \<Rightarrow> (u64 \<times> 'm entry) list" where
  "remove_keys P m = fold bt_remove (map fst (bt_range P m)) m"

fun scan_frame ::
  "index_range \<Rightarrow> 'm wal_frame \<Rightarrow> (u64 \<times> 'm entry) list \<Rightarrow> (u64 \<times> 'm entry) list" where
  "scan_frame rg (Record (AppendLog e)) m =
     (if range_contains rg (entry_index e) then bt_insert (entry_index e) e m else m)"
| "scan_frame rg (Record (Truncate lid)) m = remove_keys (\<lambda>k. k \<ge> li_index lid + 1) m"
| "scan_frame rg (Record (Purge lid)) m = remove_keys (\<lambda>k. k \<le> li_index lid) m"
| "scan_frame rg (Record (SnapshotApplied meta)) m =
     (case sm_last_log_id meta of None \<Rightarrow> m | Some lid \<Rightarrow> remove_keys (\<lambda>k. k \<le> li_index lid) m)"
| "scan_frame rg _ m = m"

definition read_entries_from_wal ::
  "('m, 's, 'sm) wal_env \<Rightarrow> index_range \<Rightarrow> ('m, 's, 'sm) wal_storage \<Rightarrow> string + 'm entry list" where
  "read_entries_from_wal env rg s =
     and_then (decode_all env (we_read env (st_sink s))) (\<lambda>frames.
       Ok (filter (\<lambda>e. range_contains rg (entry_index e)) (map snd (fold (scan_frame rg) frames []))))"

text \<open>The loop over the entries found in the WAL: unseen ones enter the cache and the result.\<close>

fun merge_wal_entries ::
  "'m entry list \<Rightarrow> u64 list \<Rightarrow> 'm entry list \<Rightarrow> ('m, 's, 'sm) wal_storage
     \<Rightarrow> ('m entry list \<times> ('m, 's, 'sm) wal_storage) option" where
  "merge_wal_entries [] seen entries s = Some (entries, s)"
| "merge_wal_entries (e # es) seen entries s =
     (if entry_index e \<in> set seen then merge_wal_entries es seen entries s
      else case storage_insert e s of
             None \<Rightarrow> None
           | Some s1 \<Rightarrow> merge_wal_entries es (entry_index e # seen) (entries @ [e]) s1)"

definition try_get_log_entries ::
  "('m, 's, 'sm) wal_env \<Rightarrow> index_range \<Rightarrow> ('m, 's, 'sm) wal_storage
     \<Rightarrow> ((string + 'm entry list) \<times> ('m, 's, 'sm) wal_storage) option" where
  "try_get_log_entries env rg s =
     (if range_panics rg then None
      else
        let cached = map snd (bt_range (range_contains rg) (lc_map (st_cache s)))
        in case read_entries_from_wal env rg s of
             Inl er \<Rightarrow> Some (Err er, s)
           | Inr wal_entries \<Rightarrow>
               (case merge_wal_entries wal_entries (map entry_index cached) cached s of
                  None \<Rightarrow> None
                | Some (entries, s1) \<Rightarrow>
                    let sorted_entries = sort_key entry_index entries;
                        c = fold (\<lambda>e. touch_cache (entry_index e)) sorted_entries (st_cache s1)
                    in Some (Ok sorted_entries, s1\<lparr>st_cache := c\<rparr>)))"

section \<open>Recovery\<close>

definition apply_wal_record ::
  "('m, 's, 'sm) wal_env \<Rightarrow> 'm raft_wal_record \<Rightarrow> ('m, 's, 'sm) wal_storage
     \<Rightarrow> ((string + unit) \<times> ('m, 's, 'sm) wal_storage) option" where
  "apply_wal_record env rec s =
     (case rec of
        AppendLog e \<Rightarrow> map_option (Pair (Ok ())) (storage_insert e (remember_entry e s))
      | VoteRecord v \<Rightarrow> Some (Ok (), s\<lparr>st_vote := Some v\<rparr>)
      | SnapshotApplied meta \<Rightarrow>
          (let path = snapshot_path (st_group_id s) (sm_snapshot_id meta)
           in if st_files s path = None
              then Some (Err ''snapshot WAL checkpoint references missing file'', s)
              else Some (Ok (), s\<lparr>st_last_applied := sm_last_log_id meta,
                     st_last_membership := sm_last_membership meta,
                     st_snapshot_meta := Some meta, st_snapshot_path := Some path\<rparr>))
      | Truncate lid \<Rightarrow> Some (Ok (), s\<lparr>st_cache := truncate_cache (li_index lid) (st_cache s)\<rparr>)
      | Purge lid \<Rightarrow> Some (Ok (), s\<lparr>st_cache := purge_cache (li_index lid) (st_cache s),
                             st_last_purged_log_id := Some lid\<rparr>))"

definition replay_frame ::
  "('m, 's, 'sm) wal_env \<Rightarrow> 'm wal_frame \<Rightarrow> ('m, 's, 'sm) wal_storage
     \<Rightarrow> ((string + unit) \<times> ('m, 's, 'sm) wal_storage) option" where
  "replay_frame env f s =
     (case f of
        Header h \<Rightarrow>
          Some (if wh_magic h \<noteq> WAL_MAGIC then (Err ''invalid wal magic'', s)
                else if wh_format_version h \<noteq> st_format_version s
                then (Err ''wal format version mismatch'', s) else (Ok (), s))
      | Record rec \<Rightarrow> apply_wal_record env rec s)"

fun replay_records ::
  "('m, 's, 'sm) wal_env \<Rightarrow> bytes list \<Rightarrow> ('m, 's, 'sm) wal_storage
     \<Rightarrow> ((string + unit) \<times> ('m, 's, 'sm) wal_storage) option" where
  "replay_records env [] s = Some (Ok (), s)"
| "replay_records env (b # bs) s =
     (case decode_frame (we_crc env) (we_de env) b of
        Inl e \<Rightarrow> Some (Err e, s)
      | Inr f \<Rightarrow>
          (case replay_frame env f s of
             None \<Rightarrow> None
           | Some (Inl e, s1) \<Rightarrow> Some (Err e, s1)
           | Some (Inr _, s1) \<Rightarrow> replay_records env bs s1))"

text \<open>\<^verbatim>\<open>replay_wal\<close>: the framing of the whole file is checked before any record is read.\<close>

definition replay_wal ::
  "('m, 's, 'sm) wal_env \<Rightarrow> ('m, 's, 'sm) wal_storage
     \<Rightarrow> ((string + unit) \<times> ('m, 's, 'sm) wal_storage) option" where
  "replay_wal env s =
     (case we_validate env (st_sink s) of
        Inl e \<Rightarrow> Some (Err e, s)
      | Inr _ \<Rightarrow> replay_records env (we_read env (st_sink s)) s)"

definition build_header :: "u64 \<Rightarrow> ('m, 's, 'sm) wal_storage \<Rightarrow> wal_header" where
  "build_header now s =
     \<lparr>wh_magic = WAL_MAGIC, wh_format_version = st_format_version s, wh_group_id = st_group_id s,
      wh_node_id = st_node_id s, wh_created_at = now, wh_reserved = replicate 40 0\<rparr>"

text \<open>
  \<^verbatim>\<open>recover_with_sink\<close> on a storage that holds the configuration, the sink and the snapshot
  directory, and nothing else yet.
\<close>

definition fresh_storage ::
  "'m stored_membership \<Rightarrow> ('m, 's, 'sm) wal_storage \<Rightarrow> ('m, 's, 'sm) wal_storage" where
  "fresh_storage default_membership s =
     s\<lparr>st_vote := None, st_cache := \<lparr>lc_map = [], lc_order = []\<rparr>, st_pending_unsynced := 0,
       st_last_purged_log_id := None, st_purgeable_horizon := None, st_last_applied := None,
       st_last_membership := default_membership, st_snapshot_meta := None,
       st_snapshot_path := None, st_completed := []\<rparr>"

definition recover_with_sink ::
  "('m, 's, 'sm) wal_env \<Rightarrow> u64 \<Rightarrow> 'm stored_membership \<Rightarrow> ('m, 's, 'sm) wal_storage
     \<Rightarrow> ((string + unit) \<times> ('m, 's, 'sm) wal_storage) option" where
  "recover_with_sink env now default_membership s0 =
     (let s = fresh_storage default_membership s0
      in if we_empty env (st_sink s) then Some (write_frame env (Header (build_header now s)) True s)
         else replay_wal env s)"

section \<open>Snapshots\<close>

definition install_snapshot ::
  "('m, 's, 'sm) wal_env \<Rightarrow> 'm snapshot_meta \<Rightarrow> bytes \<Rightarrow> ('m, 's, 'sm) wal_storage
     \<Rightarrow> (string + unit) \<times> ('m, 's, 'sm) wal_storage" where
  "install_snapshot env meta data s =
     (let path = snapshot_path (st_group_id s) (sm_snapshot_id meta)
      in case we_ser_meta env meta of
           Inl e \<Rightarrow> (Err e, s)
         | Inr meta_bytes \<Rightarrow>
             (let encoded = encode_snapshot_file (we_crc env) meta_bytes data (st_snapshot_chunk_size s);
                  (r, files) = durably_replace (we_fault env path encoded) path encoded (st_files s);
                  s1 = s\<lparr>st_files := files\<rparr>
              in case r of
                   Inl e \<Rightarrow> (Err e, s1)
                 | Inr _ \<Rightarrow>
                     (let (r2, sm) = we_sm_restore env data (st_state_machine s1);
                          s2 = s1\<lparr>st_state_machine := sm\<rparr>
                      in case r2 of
                           Inl e \<Rightarrow> (Err e, s2)
                         | Inr _ \<Rightarrow>
                             (let (r3, s3) = write_frame env (Record (SnapshotApplied meta)) True s2
                              in case r3 of
                                   Inl e \<Rightarrow> (Err e, s3)
                                 | Inr _ \<Rightarrow>
                                     (Ok (), s3\<lparr>st_snapshot_meta := Some meta, st_snapshot_path := Some path,
                                        st_last_applied := sm_last_log_id meta,
                                        st_last_membership := sm_last_membership meta,
                                        st_completed := st_completed s3 @ [(sm_snapshot_id meta, length data)]\<rparr>)))))"

definition get_current_snapshot ::
  "('m, 's, 'sm) wal_env \<Rightarrow> ('m, 's, 'sm) wal_storage \<Rightarrow> string + ('m snapshot_meta \<times> bytes) option" where
  "get_current_snapshot env s =
     (case (st_snapshot_meta s, st_snapshot_path s) of
        (Some _, Some path) \<Rightarrow>
          (case st_files s path of
             None \<Rightarrow> Err ''read snapshot''
           | Some bs \<Rightarrow>
               (case read_snapshot_file (we_crc env) bs of
                  Inl _ \<Rightarrow> Err ''invalid snapshot''
                | Inr (meta_bytes, data) \<Rightarrow>
                    and_then (we_de_meta env meta_bytes) (\<lambda>meta. Ok (Some (meta, data)))))
      | _ \<Rightarrow> Ok None)"

record 'm snapshot_builder =
  sb_meta :: "'m snapshot_meta"
  sb_data :: bytes
  sb_path :: string
  sb_chunk_size :: nat

text \<open>A state machine that cannot produce its snapshot panics the caller.\<close>

definition get_snapshot_builder ::
  "('m, 's, 'sm) wal_env \<Rightarrow> u64 \<Rightarrow> ('m, 's, 'sm) wal_storage \<Rightarrow> 'm snapshot_builder option" where
  "get_snapshot_builder env now s =
     (case we_sm_snapshot env (st_state_machine s) of
        Inl _ \<Rightarrow> None
      | Inr data \<Rightarrow>
          (let meta = \<lparr>sm_last_log_id = st_last_applied s, sm_last_membership = st_last_membership s,
                       sm_snapshot_id = ''snapshot-'' @ decimal (unat now)\<rparr>
           in Some \<lparr>sb_meta = meta, sb_data = data,
                    sb_path = snapshot_path (st_group_id s) (sm_snapshot_id meta),
                    sb_chunk_size = st_snapshot_chunk_size s\<rparr>))"

text \<open>The builder runs apart from the storage; of it only the snapshot directory and the hook change.\<close>

definition build_snapshot ::
  "('m, 's, 'sm) wal_env \<Rightarrow> 'm snapshot_builder \<Rightarrow> ('m, 's, 'sm) wal_storage
     \<Rightarrow> (string + ('m snapshot_meta \<times> bytes)) \<times> ('m, 's, 'sm) wal_storage" where
  "build_snapshot env b s =
     (case we_ser_meta env (sb_meta b) of
        Inl e \<Rightarrow> (Err e, s)
      | Inr meta_bytes \<Rightarrow>
          (let encoded = encode_snapshot_file (we_crc env) meta_bytes (sb_data b) (sb_chunk_size b);
               (r, files) = durably_replace (we_fault env (sb_path b) encoded) (sb_path b) encoded (st_files s);
               s1 = s\<lparr>st_files := files\<rparr>
           in case r of
                Inl e \<Rightarrow> (Err e, s1)
              | Inr _ \<Rightarrow>
                  (Ok (sb_meta b, sb_data b),
                   s1\<lparr>st_completed := st_completed s1 @ [(sm_snapshot_id (sb_meta b), length (sb_data b))]\<rparr>)))"

section \<open>Cache invariant\<close>

text \<open>
  The recency order lists exactly the cached indices, once each; every entry is filed under its
  own index; the cache never exceeds its capacity.
\<close>

definition cache_wf :: "'m log_cache \<Rightarrow> bool" where
  "cache_wf c \<longleftrightarrow> bt_inv (lc_map c) \<and> distinct (lc_order c) \<and>
     set (lc_order c) = dom (map_of (lc_map c)) \<and>
     (\<forall>k e. map_of (lc_map c) k = Some e \<longrightarrow> entry_index e = k)"

definition cache_inv :: "nat \<Rightarrow> 'm log_cache \<Rightarrow> bool" where
  "cache_inv cap c \<longleftrightarrow> cache_wf c \<and> length (lc_map c) \<le> cap"

lemma touch_cache_map [simp]: "lc_map (touch_cache i c) = lc_map c"
  by (simp add: touch_cache_def Let_def)

lemma touch_cache_wf [intro]: "cache_wf c \<Longrightarrow> cache_wf (touch_cache i c)"
  by (auto simp: cache_wf_def touch_cache_def Let_def)

lemma evict_loop_ok:
  assumes "bt_inv m" "distinct order" "set order = dom (map_of m)"
    and "\<forall>k e. map_of m k = Some e \<longrightarrow> entry_index e = k"
  shows "\<exists>c. evict_loop cap order m = Some c \<and> cache_inv cap c \<and> map_of (lc_map c) \<subseteq>\<^sub>m map_of m"
  using assms
proof (induction order arbitrary: m)
  case Nil
  then have "m = []"
    by (cases m) auto
  then show ?case
    by (auto simp: evict_loop.simps cache_inv_def cache_wf_def bt_inv_def)
next
  case (Cons x xs)
  show ?case
  proof (cases "length m \<le> cap")
    case True
    then show ?thesis
      using Cons.prems by (auto simp: evict_loop.simps cache_inv_def cache_wf_def)
  next
    case False
    have sub: "map_of (bt_remove x m) \<subseteq>\<^sub>m map_of m"
      by (simp add: map_of_bt_remove map_le_def)
    have "set xs = dom (map_of (bt_remove x m))"
      using Cons.prems by (auto simp: map_of_bt_remove)
    moreover have "\<forall>k e. map_of (bt_remove x m) k = Some e \<longrightarrow> entry_index e = k"
      using Cons.prems(4) by (auto simp: map_of_bt_remove)
    ultimately obtain c where "evict_loop cap xs (bt_remove x m) = Some c" "cache_inv cap c"
      "map_of (lc_map c) \<subseteq>\<^sub>m map_of (bt_remove x m)"
      using Cons.IH[of "bt_remove x m"] Cons.prems(1,2) by auto
    then show ?thesis
      using False sub map_le_trans by (auto simp: evict_loop.simps[of cap "x # xs" m])
  qed
qed

lemma insert_entry_ok:
  assumes "cache_wf c"
  shows "\<exists>c'. insert_entry cap e c = Some c' \<and> cache_inv cap c' \<and>
    map_of (lc_map c') \<subseteq>\<^sub>m (map_of (lc_map c))(entry_index e \<mapsto> e)"
proof -
  let ?c1 = "touch_cache (entry_index e) (c\<lparr>lc_map := bt_insert (entry_index e) e (lc_map c)\<rparr>)"
  have m: "map_of (lc_map ?c1) = (map_of (lc_map c))(entry_index e \<mapsto> e)"
    using assms by (simp add: cache_wf_def map_of_bt_insert)
  have "set (lc_order ?c1) = dom (map_of (lc_map ?c1))" "distinct (lc_order ?c1)"
    using assms by (auto simp: touch_cache_def Let_def cache_wf_def map_of_bt_insert)
  moreover have "bt_inv (lc_map ?c1)"
    using assms by (simp add: cache_wf_def)
  moreover have "\<forall>k e'. map_of (lc_map ?c1) k = Some e' \<longrightarrow> entry_index e' = k"
    unfolding m using assms by (simp add: cache_wf_def)
  ultimately obtain c' where "evict_loop cap (lc_order ?c1) (lc_map ?c1) = Some c'" "cache_inv cap c'"
    "map_of (lc_map c') \<subseteq>\<^sub>m map_of (lc_map ?c1)"
    using evict_loop_ok[of "lc_map ?c1" "lc_order ?c1" cap] by blast
  then show ?thesis
    unfolding insert_entry_def Let_def m by blast
qed

lemma map_of_remove_keys:
  assumes "bt_inv m"
  shows "map_of (remove_keys P m) = map_of m |` {k. \<not> P k}" "bt_inv (remove_keys P m)"
proof -
  have "map_of m k = None" if "P k" "k \<notin> set (map fst (bt_range P m))" for k
    using that by (auto simp: bt_range_def map_of_eq_None_iff)
  then show "map_of (remove_keys P m) = map_of m |` {k. \<not> P k}"
    using btree.get_fold_remove[OF assms, of "map fst (bt_range P m)"]
    by (auto simp: remove_keys_def restrict_map_def fun_eq_iff bt_range_def)
  show "bt_inv (remove_keys P m)"
    using btree.inv_fold_remove[OF assms] by (simp add: remove_keys_def)
qed

lemma length_remove_keys: "bt_inv m \<Longrightarrow> length (remove_keys P m) \<le> length m"
  using btree.length_card[of m] btree.length_card[of "remove_keys P m"] map_of_remove_keys[of m P]
  by (auto intro!: card_mono simp: finite_dom_map_of)

lemma truncate_cache_eq:
  "truncate_cache i c = c\<lparr>lc_map := remove_keys (\<lambda>k. k \<ge> i + 1) (lc_map c),
     lc_order := filter (\<lambda>k. k \<le> i) (lc_order c)\<rparr>"
  by (simp add: truncate_cache_def remove_keys_def Let_def)

lemma purge_cache_eq:
  "purge_cache i c = c\<lparr>lc_map := remove_keys (\<lambda>k. k \<le> i) (lc_map c),
     lc_order := filter (\<lambda>k. k > i) (lc_order c)\<rparr>"
  by (simp add: purge_cache_def remove_keys_def Let_def)

lemma successor_le:
  assumes "(i :: u64) \<noteq> - 1"
  shows "i + 1 \<le> k \<longleftrightarrow> \<not> k \<le> i"
proof -
  have "i + 1 \<noteq> 0"
    using assms by (metis add_eq_0_iff2 add.inverse_inverse)
  then have "unat (i + 1) = Suc (unat i)"
    using unat_minus_one[of "i + 1"] unat_gt_0[of "i + 1"] by simp
  then show ?thesis
    by (simp add: word_le_nat_alt not_le Suc_le_eq)
qed

lemma truncate_cache_ok:
  assumes "cache_inv cap c" "i \<noteq> - 1"
  shows "cache_inv cap (truncate_cache i c)"
    and "map_of (lc_map (truncate_cache i c)) = map_of (lc_map c) |` {k. \<not> k \<ge> i + 1}"
proof -
  have b: "bt_inv (lc_map c)"
    using assms(1) by (simp add: cache_inv_def cache_wf_def)
  show "map_of (lc_map (truncate_cache i c)) = map_of (lc_map c) |` {k. \<not> k \<ge> i + 1}"
    using map_of_remove_keys[OF b] by (simp add: truncate_cache_eq)
  show "cache_inv cap (truncate_cache i c)"
    using assms map_of_remove_keys[OF b, of "\<lambda>k. k \<ge> i + 1"] length_remove_keys[OF b, of "\<lambda>k. k \<ge> i + 1"]
    by (auto simp: cache_inv_def cache_wf_def truncate_cache_eq successor_le restrict_map_def
        split: if_splits)
qed

lemma purge_cache_ok:
  assumes "cache_inv cap c"
  shows "cache_inv cap (purge_cache i c)"
    and "map_of (lc_map (purge_cache i c)) = map_of (lc_map c) |` {k. \<not> k \<le> i}"
proof -
  have b: "bt_inv (lc_map c)"
    using assms(1) by (simp add: cache_inv_def cache_wf_def)
  show "map_of (lc_map (purge_cache i c)) = map_of (lc_map c) |` {k. \<not> k \<le> i}"
    using map_of_remove_keys[OF b] by (simp add: purge_cache_eq)
  show "cache_inv cap (purge_cache i c)"
    using assms map_of_remove_keys[OF b, of "\<lambda>k. k \<le> i"] length_remove_keys[OF b, of "\<lambda>k. k \<le> i"]
    by (auto simp: cache_inv_def cache_wf_def purge_cache_eq restrict_map_def not_le
        split: if_splits)
qed

section \<open>The abstract log\<close>

text \<open>
  What a sequence of WAL records means: a partial function from indices to entries.  \<open>raw_log\<close>
  ignores snapshots; \<open>wal_view\<close> drops the entries a snapshot covers, as the scan of the WAL does.
\<close>

fun raw_step :: "'m raft_wal_record \<Rightarrow> (u64 \<Rightarrow> 'm entry option) \<Rightarrow> (u64 \<Rightarrow> 'm entry option)" where
  "raw_step (AppendLog e) m = m(entry_index e \<mapsto> e)"
| "raw_step (Truncate lid) m = m |` {k. \<not> k \<ge> li_index lid + 1}"
| "raw_step (Purge lid) m = m |` {k. \<not> k \<le> li_index lid}"
| "raw_step _ m = m"

fun view_step :: "'m raft_wal_record \<Rightarrow> (u64 \<Rightarrow> 'm entry option) \<Rightarrow> (u64 \<Rightarrow> 'm entry option)" where
  "view_step (SnapshotApplied meta) m =
     (case sm_last_log_id meta of None \<Rightarrow> m | Some lid \<Rightarrow> m |` {k. \<not> k \<le> li_index lid})"
| "view_step r m = raw_step r m"

definition raw_log :: "'m raft_wal_record list \<Rightarrow> u64 \<Rightarrow> 'm entry option" where
  "raw_log rs = fold raw_step rs Map.empty"

definition wal_view :: "'m raft_wal_record list \<Rightarrow> u64 \<Rightarrow> 'm entry option" where
  "wal_view rs = fold view_step rs Map.empty"

definition vote_of :: "'m raft_wal_record list \<Rightarrow> vote option" where
  "vote_of rs = fold (\<lambda>r v. case r of VoteRecord x \<Rightarrow> Some x | _ \<Rightarrow> v) rs None"

definition purged_of :: "'m raft_wal_record list \<Rightarrow> log_id option" where
  "purged_of rs = fold (\<lambda>r p. case r of Purge x \<Rightarrow> Some x | _ \<Rightarrow> p) rs None"

definition snapshot_of :: "'m raft_wal_record list \<Rightarrow> 'm snapshot_meta option" where
  "snapshot_of rs = fold (\<lambda>r p. case r of SnapshotApplied x \<Rightarrow> Some x | _ \<Rightarrow> p) rs None"

fun frame_records :: "'m wal_frame \<Rightarrow> 'm raft_wal_record list" where
  "frame_records (Record r) = [r]"
| "frame_records (Header h) = []"

definition records :: "'m wal_frame list \<Rightarrow> 'm raft_wal_record list" where
  "records fs = concat (map frame_records fs)"

lemma records_append [simp]: "records (fs @ gs) = records fs @ records gs"
  by (simp add: records_def)

lemma records_Cons: "records (f # fs) = frame_records f @ records fs"
  by (simp add: records_def)

lemma log_snoc [simp]:
  "raw_log (rs @ [r]) = raw_step r (raw_log rs)"
  "wal_view (rs @ [r]) = view_step r (wal_view rs)"
  "vote_of (rs @ [r]) = (case r of VoteRecord x \<Rightarrow> Some x | _ \<Rightarrow> vote_of rs)"
  "purged_of (rs @ [r]) = (case r of Purge x \<Rightarrow> Some x | _ \<Rightarrow> purged_of rs)"
  "snapshot_of (rs @ [r]) = (case r of SnapshotApplied x \<Rightarrow> Some x | _ \<Rightarrow> snapshot_of rs)"
  by (cases r; simp add: raw_log_def wal_view_def vote_of_def purged_of_def snapshot_of_def)+

lemma restrict_le: "m |` A \<subseteq>\<^sub>m m"
  by (auto simp: map_le_def restrict_map_def split: if_splits)

lemma raw_step_mono: "m \<subseteq>\<^sub>m m' \<Longrightarrow> raw_step r m \<subseteq>\<^sub>m raw_step r m'"
  by (cases r) (auto simp: map_le_def restrict_map_def dom_def)

lemma view_step_le: "m \<subseteq>\<^sub>m m' \<Longrightarrow> view_step r m \<subseteq>\<^sub>m raw_step r m'"
proof (cases r)
  case (SnapshotApplied meta)
  assume "m \<subseteq>\<^sub>m m'"
  then show ?thesis
    using map_le_trans[OF restrict_le] by (auto simp: SnapshotApplied split: option.splits)
qed (use raw_step_mono[of m m' r] in auto)

lemma wal_view_le_raw_log: "wal_view rs \<subseteq>\<^sub>m raw_log rs"
  by (induction rs rule: rev_induct) (auto simp: view_step_le, simp add: wal_view_def raw_log_def)

lemma raw_log_index: "raw_log rs k = Some e \<Longrightarrow> entry_index e = k"
proof (induction rs arbitrary: k e rule: rev_induct)
  case (snoc r rs)
  then show ?case
    by (cases r) (auto simp: restrict_map_def split: if_splits)
qed (simp add: raw_log_def)

section \<open>Scanning and reading\<close>

lemma scan_frames_ok:
  "bt_inv (fold (scan_frame rg) fs []) \<and>
   map_of (fold (scan_frame rg) fs []) = wal_view (records fs) |` {k. range_contains rg k}"
proof (induction fs rule: rev_induct)
  case Nil
  then show ?case
    by (simp add: records_def wal_view_def bt_inv_def)
next
  case (snoc f fs)
  define m where "m = fold (scan_frame rg) fs []"
  have IH: "bt_inv m" "map_of m = wal_view (records fs) |` {k. range_contains rg k}"
    using snoc.IH by (simp_all add: m_def)
  have rm: "bt_inv (remove_keys P m)" "map_of (remove_keys P m) = map_of m |` {k. \<not> P k}" for P
    using map_of_remove_keys[OF IH(1)] by blast+
  have "bt_inv (scan_frame rg f m) \<and>
    map_of (scan_frame rg f m) = wal_view (records fs @ frame_records f) |` {k. range_contains rg k}"
  proof (cases f)
    case (Record r)
    then show ?thesis
      by (cases r) (auto simp: rm IH map_of_bt_insert restrict_map_def fun_eq_iff split: option.splits)
  qed (simp add: IH)
  then show ?case
    by (simp add: m_def records_def)
qed

lemma distinct_map_snd:
  assumes "bt_inv m" "\<And>k e. map_of m k = Some e \<Longrightarrow> entry_index e = k"
  shows "distinct (map entry_index (map snd m))"
proof -
  have "entry_index (snd x) = fst x" if "x \<in> set m" for x
    using that assms(2)[of "fst x" "snd x"] btree.inv_distinct[OF assms(1)] by simp
  then have "map entry_index (map snd m) = map fst m"
    by simp
  then show ?thesis
    using btree.inv_distinct[OF assms(1)] by metis
qed

lemma set_snd_map_of: "bt_inv m \<Longrightarrow> set (map snd m) = ran (map_of m)"
  using btree.inv_distinct[of m] by (simp add: ran_distinct)

lemma wal_view_index: "wal_view rs k = Some e \<Longrightarrow> entry_index e = k"
  using wal_view_le_raw_log[of rs] raw_log_index[of rs k e] by (auto simp: map_le_def dom_def)

lemma wal_view_raw: "wal_view rs k = Some e \<Longrightarrow> raw_log rs k = Some e"
  using wal_view_le_raw_log[of rs] by (force simp: map_le_def dom_def)

lemma read_entries_ok:
  assumes "decode_all env (we_read env (st_sink s)) = Ok fs"
  shows "\<exists>es. read_entries_from_wal env rg s = Ok es \<and> distinct (map entry_index es) \<and>
    (\<forall>e. e \<in> set es \<longleftrightarrow>
         range_contains rg (entry_index e) \<and> wal_view (records fs) (entry_index e) = Some e)"
proof -
  define m where "m = fold (scan_frame rg) fs []"
  have m: "bt_inv m" "map_of m = wal_view (records fs) |` {k. range_contains rg k}"
    using scan_frames_ok[of rg fs] by (simp_all add: m_def)
  have ix: "\<And>k e. map_of m k = Some e \<Longrightarrow> entry_index e = k"
    by (auto simp: m(2) restrict_map_def wal_view_index split: if_splits)
  let ?es = "filter (\<lambda>e. range_contains rg (entry_index e)) (map snd m)"
  have "distinct (map entry_index (map snd m))"
    using m(1) ix by (rule distinct_map_snd)
  then have "distinct (map entry_index ?es)"
    by (rule distinct_map_filter)
  moreover have "e \<in> set ?es \<longleftrightarrow>
      range_contains rg (entry_index e) \<and> wal_view (records fs) (entry_index e) = Some e" for e
  proof -
    have "e \<in> set (map snd m) \<longleftrightarrow> map_of m (entry_index e) = Some e"
      unfolding set_snd_map_of[OF m(1)] using ix by (auto simp: ran_def)
    then show ?thesis
      by (auto simp: m(2) restrict_map_def)
  qed
  ultimately show ?thesis
    using assms by (intro exI[of _ ?es]) (simp add: read_entries_from_wal_def m_def)
qed

lemma storage_insert_ok:
  assumes "cache_wf (st_cache s)"
  shows "\<exists>c. storage_insert e s = Some (s\<lparr>st_cache := c\<rparr>) \<and> cache_inv (st_log_cache_size s) c \<and>
    map_of (lc_map c) \<subseteq>\<^sub>m (map_of (lc_map (st_cache s)))(entry_index e \<mapsto> e)"
  using insert_entry_ok[OF assms, of "st_log_cache_size s" e] by (auto simp: storage_insert_def)

lemma map_upd_le: "m \<subseteq>\<^sub>m L \<Longrightarrow> L k = Some e \<Longrightarrow> m(k \<mapsto> e) \<subseteq>\<^sub>m L"
  by (auto simp: map_le_def)

lemma merge_wal_entries_ok:
  assumes "cache_inv (st_log_cache_size s) (st_cache s)" "distinct (map entry_index es)"
    and "map_of (lc_map (st_cache s)) \<subseteq>\<^sub>m L" "\<forall>e\<in>set es. L (entry_index e) = Some e"
  shows "\<exists>c. merge_wal_entries es seen acc s =
      Some (acc @ filter (\<lambda>e. entry_index e \<notin> set seen) es, s\<lparr>st_cache := c\<rparr>) \<and>
    cache_inv (st_log_cache_size s) c \<and> map_of (lc_map c) \<subseteq>\<^sub>m L"
  using assms
proof (induction es arbitrary: seen acc s)
  case Nil
  then show ?case
    by (intro exI[of _ "st_cache s"]) simp
next
  case (Cons e es)
  show ?case
  proof (cases "entry_index e \<in> set seen")
    case True
    then show ?thesis
      using Cons.IH[of s seen acc] Cons.prems by simp
  next
    case False
    obtain c where c: "storage_insert e s = Some (s\<lparr>st_cache := c\<rparr>)"
      "cache_inv (st_log_cache_size s) c"
      "map_of (lc_map c) \<subseteq>\<^sub>m (map_of (lc_map (st_cache s)))(entry_index e \<mapsto> e)"
      using storage_insert_ok[of s e] Cons.prems(1) by (auto simp: cache_inv_def)
    have "map_of (lc_map c) \<subseteq>\<^sub>m L"
      using map_le_trans[OF c(3) map_upd_le[OF Cons.prems(3)]] Cons.prems(4) by simp
    then obtain c' where "merge_wal_entries es (entry_index e # seen) (acc @ [e]) (s\<lparr>st_cache := c\<rparr>) =
        Some ((acc @ [e]) @ filter (\<lambda>e'. entry_index e' \<notin> set (entry_index e # seen)) es, s\<lparr>st_cache := c'\<rparr>)"
      "cache_inv (st_log_cache_size s) c'" "map_of (lc_map c') \<subseteq>\<^sub>m L"
      using Cons.IH[of "s\<lparr>st_cache := c\<rparr>" "entry_index e # seen" "acc @ [e]"] c(2) Cons.prems by auto
    moreover have "filter (\<lambda>e'. entry_index e' \<notin> set (entry_index e # seen)) es =
        filter (\<lambda>e'. entry_index e' \<notin> set seen) es"
      using Cons.prems(2) by (intro filter_cong) (auto simp: image_iff)
    ultimately show ?thesis
      using False c(1) by auto
  qed
qed

lemma fold_touch_map [simp]: "lc_map (fold (\<lambda>e. touch_cache (entry_index e)) es c) = lc_map c"
  by (induction es arbitrary: c) simp_all

lemma fold_touch_wf: "cache_wf c \<Longrightarrow> cache_wf (fold (\<lambda>e. touch_cache (entry_index e)) es c)"
  by (induction es arbitrary: c) (simp_all add: touch_cache_wf)

lemma fold_touch_inv: "cache_inv cap c \<Longrightarrow> cache_inv cap (fold (\<lambda>e. touch_cache (entry_index e)) es c)"
  by (simp add: cache_inv_def fold_touch_wf)

lemma cached_entries:
  assumes "cache_wf c"
  shows "set (map snd (bt_range P (lc_map c))) = {e. P (entry_index e) \<and> map_of (lc_map c) (entry_index e) = Some e}"
    and "distinct (map entry_index (map snd (bt_range P (lc_map c))))"
proof -
  let ?m = "bt_range P (lc_map c)"
  have b: "bt_inv ?m" and ix: "\<And>k e. map_of ?m k = Some e \<Longrightarrow> entry_index e = k"
    using assms by (auto simp: cache_wf_def map_of_bt_range split: if_splits)
  show "distinct (map entry_index (map snd ?m))"
    using b ix by (rule distinct_map_snd)
  have "set (map snd ?m) = {e. map_of ?m (entry_index e) = Some e}"
    unfolding set_snd_map_of[OF b] using ix by (auto simp: ran_def)
  then show "set (map snd ?m) = {e. P (entry_index e) \<and> map_of (lc_map c) (entry_index e) = Some e}"
    by (auto simp: map_of_bt_range split: if_splits)
qed

text \<open>What a range read returns, and that it only moves entries in and out of the cache.\<close>

lemma try_get_log_entries_ok:
  assumes cap: "cache_inv (st_log_cache_size s) (st_cache s)"
    and dec: "decode_all env (we_read env (st_sink s)) = Ok fs"
    and sub: "map_of (lc_map (st_cache s)) \<subseteq>\<^sub>m raw_log (records fs)"
    and rg: "\<not> range_panics rg"
  shows "\<exists>es c. try_get_log_entries env rg s = Some (Ok es, s\<lparr>st_cache := c\<rparr>) \<and>
    cache_inv (st_log_cache_size s) c \<and> map_of (lc_map c) \<subseteq>\<^sub>m raw_log (records fs) \<and>
    sorted_wrt (<) (map entry_index es) \<and>
    (\<forall>e\<in>set es. range_contains rg (entry_index e) \<and> raw_log (records fs) (entry_index e) = Some e) \<and>
    (\<forall>k e. range_contains rg k \<longrightarrow> wal_view (records fs) k = Some e \<longrightarrow> e \<in> set es)"
proof -
  define L where "L = raw_log (records fs)"
  define ca where "ca = map snd (bt_range (range_contains rg) (lc_map (st_cache s)))"
  have wf: "cache_wf (st_cache s)"
    using cap by (simp add: cache_inv_def)
  have sca: "set ca = {e. range_contains rg (entry_index e) \<and> map_of (lc_map (st_cache s)) (entry_index e) = Some e}"
    and dca: "distinct (map entry_index ca)"
    unfolding ca_def using cached_entries[OF wf, of "range_contains rg"] by blast+
  have caL: "\<forall>e\<in>set ca. range_contains rg (entry_index e) \<and> L (entry_index e) = Some e"
    using sub unfolding sca L_def by (force simp: map_le_def dom_def)
  obtain ws where ws: "read_entries_from_wal env rg s = Ok ws" "distinct (map entry_index ws)"
    and sws: "\<forall>e. e \<in> set ws \<longleftrightarrow>
         range_contains rg (entry_index e) \<and> wal_view (records fs) (entry_index e) = Some e"
    using read_entries_ok[OF dec, of rg] by blast
  have wsL: "\<forall>e\<in>set ws. L (entry_index e) = Some e"
    using sws wal_view_raw by (auto simp: L_def)
  define new where "new = filter (\<lambda>e. entry_index e \<notin> set (map entry_index ca)) ws"
  obtain c where c: "merge_wal_entries ws (map entry_index ca) ca s = Some (ca @ new, s\<lparr>st_cache := c\<rparr>)"
    "cache_inv (st_log_cache_size s) c" "map_of (lc_map c) \<subseteq>\<^sub>m L"
    using merge_wal_entries_ok[OF cap ws(2) sub[folded L_def] wsL, of "map entry_index ca" ca]
    unfolding new_def by blast
  define es where "es = sort_key entry_index (ca @ new)"
  have "distinct (map entry_index new)"
    using distinct_map_filter[OF ws(2)] by (simp add: new_def)
  moreover have "entry_index ` set ca \<inter> entry_index ` set new = {}"
    by (auto simp: new_def image_iff)
  ultimately have "distinct (map entry_index (ca @ new))"
    using dca by (simp only: map_append distinct_append set_map simp_thms)
  then have "distinct (map entry_index es)"
    by (simp only: es_def distinct_map distinct_sort set_sort)
  then have "sorted_wrt (<) (map entry_index es)"
    by (simp add: strict_sorted_iff es_def)
  moreover have "\<forall>e\<in>set es. range_contains rg (entry_index e) \<and> L (entry_index e) = Some e"
    using caL sws wsL by (auto simp: es_def new_def)
  moreover have "e \<in> set es" if "range_contains rg k" "wal_view (records fs) k = Some e" for k e
  proof (cases "entry_index e \<in> set (map entry_index ca)")
    case True
    then obtain e' where "e' \<in> set ca" "entry_index e' = entry_index e"
      by auto
    then have "e' = e"
      using caL that wal_view_raw[OF that(2)] wal_view_index[OF that(2)] unfolding L_def by force
    then show ?thesis
      using \<open>e' \<in> set ca\<close> by (simp add: es_def)
  next
    case False
    then show ?thesis
      using that sws wal_view_index[OF that(2)] by (simp add: es_def new_def)
  qed
  moreover have "try_get_log_entries env rg s =
      Some (Ok es, s\<lparr>st_cache := fold (\<lambda>e. touch_cache (entry_index e)) es c\<rparr>)"
    using rg ws(1) c(1) by (simp add: try_get_log_entries_def Let_def ca_def es_def)
  ultimately show ?thesis
    unfolding L_def[symmetric] using c(2,3)
    by (intro exI[of _ es] exI[of _ "fold (\<lambda>e. touch_cache (entry_index e)) es c"])
      (simp add: fold_touch_inv)
qed

section \<open>Memory against the log\<close>

text \<open>
  The in-memory state agrees with a record sequence: the cache holds a part of the log; vote,
  purge mark and snapshot are the last ones recorded.
\<close>

definition mem_ok :: "('m, 's, 'sm) wal_storage \<Rightarrow> 'm raft_wal_record list \<Rightarrow> bool" where
  "mem_ok s rs \<longleftrightarrow> cache_inv (st_log_cache_size s) (st_cache s) \<and>
     map_of (lc_map (st_cache s)) \<subseteq>\<^sub>m raw_log rs \<and>
     st_vote s = vote_of rs \<and> st_last_purged_log_id s = purged_of rs \<and>
     st_snapshot_meta s = snapshot_of rs \<and>
     st_snapshot_path s =
       map_option (\<lambda>meta. snapshot_path (st_group_id s) (sm_snapshot_id meta)) (snapshot_of rs)"

text \<open>A frame that this storage can replay.\<close>

fun record_ok :: "('m, 's, 'sm) wal_storage \<Rightarrow> 'm raft_wal_record \<Rightarrow> bool" where
  "record_ok s (SnapshotApplied meta) \<longleftrightarrow>
     st_files s (snapshot_path (st_group_id s) (sm_snapshot_id meta)) \<noteq> None"
| "record_ok s (Truncate lid) \<longleftrightarrow> li_index lid \<noteq> - 1"
| "record_ok s _ \<longleftrightarrow> True"

fun frame_ok :: "('m, 's, 'sm) wal_storage \<Rightarrow> 'm wal_frame \<Rightarrow> bool" where
  "frame_ok s (Header h) \<longleftrightarrow> wh_magic h = WAL_MAGIC \<and> wh_format_version h = st_format_version s"
| "frame_ok s (Record r) \<longleftrightarrow> record_ok s r"

text \<open>Configuration, sink and snapshot directory.\<close>

definition same_store :: "('m, 's, 'sm) wal_storage \<Rightarrow> ('m, 's, 'sm) wal_storage \<Rightarrow> bool" where
  "same_store s s' \<longleftrightarrow> st_log_cache_size s' = st_log_cache_size s \<and>
     st_fsync_interval s' = st_fsync_interval s \<and> st_format_version s' = st_format_version s \<and>
     st_snapshot_chunk_size s' = st_snapshot_chunk_size s \<and> st_group_id s' = st_group_id s \<and>
     st_node_id s' = st_node_id s \<and> st_sink s' = st_sink s \<and> st_files s' = st_files s"

lemma same_store_refl [simp]: "same_store s s"
  by (simp add: same_store_def)

lemma same_store_trans: "same_store s s' \<Longrightarrow> same_store s' s'' \<Longrightarrow> same_store s s''"
  by (simp add: same_store_def)

lemma same_store_record_ok: "same_store s s' \<Longrightarrow> record_ok s' r = record_ok s r"
  by (cases r) (simp_all add: same_store_def)

lemma same_store_frame_ok: "same_store s s' \<Longrightarrow> frame_ok s' f = frame_ok s f"
  by (cases f) (simp_all add: same_store_record_ok, simp add: same_store_def)

lemma remember_entry_fields [simp]:
  "same_store s (remember_entry e s)" "st_cache (remember_entry e s) = st_cache s"
  "st_vote (remember_entry e s) = st_vote s"
  "st_last_purged_log_id (remember_entry e s) = st_last_purged_log_id s"
  "st_pending_unsynced (remember_entry e s) = st_pending_unsynced s"
  "st_log_cache_size (remember_entry e s) = st_log_cache_size s"
  "st_sink (remember_entry e s) = st_sink s"
  "st_group_id (remember_entry e s) = st_group_id s"
  "st_snapshot_meta (remember_entry e s) = st_snapshot_meta s"
  "st_snapshot_path (remember_entry e s) = st_snapshot_path s"
  by (simp_all add: remember_entry_def Let_def same_store_def split: entry_payload.split)

lemma mem_ok_insert:
  assumes "mem_ok s rs"
  shows "\<exists>s'. storage_insert e (remember_entry e s) = Some s' \<and> mem_ok s' (rs @ [AppendLog e]) \<and>
    same_store s s' \<and> st_pending_unsynced s' = st_pending_unsynced s"
proof -
  let ?s = "remember_entry e s"
  have "cache_wf (st_cache ?s)"
    using assms by (simp add: mem_ok_def cache_inv_def)
  then obtain c where c: "storage_insert e ?s = Some (?s\<lparr>st_cache := c\<rparr>)"
    "cache_inv (st_log_cache_size s) c"
    "map_of (lc_map c) \<subseteq>\<^sub>m (map_of (lc_map (st_cache s)))(entry_index e \<mapsto> e)"
    using storage_insert_ok[of ?s e] by auto
  have "(map_of (lc_map (st_cache s)))(entry_index e \<mapsto> e) \<subseteq>\<^sub>m raw_log (rs @ [AppendLog e])"
    using assms by (auto simp: mem_ok_def map_le_def)
  then have "map_of (lc_map c) \<subseteq>\<^sub>m raw_log (rs @ [AppendLog e])"
    using c(3) map_le_trans by blast
  moreover have "same_store s (?s\<lparr>st_cache := c\<rparr>)"
    using remember_entry_fields(1)[of s e] by (simp add: same_store_def)
  ultimately show ?thesis
    using assms c(1,2) by (intro exI[of _ "?s\<lparr>st_cache := c\<rparr>"]) (simp add: mem_ok_def)
qed

lemma restrict_mono: "m \<subseteq>\<^sub>m m' \<Longrightarrow> m |` A \<subseteq>\<^sub>m m' |` A"
  by (auto simp: map_le_def restrict_map_def split: if_splits)

lemma mem_ok_truncate:
  assumes "mem_ok s rs" "li_index lid \<noteq> - 1"
  shows "mem_ok (s\<lparr>st_cache := truncate_cache (li_index lid) (st_cache s)\<rparr>) (rs @ [Truncate lid])"
  using assms truncate_cache_ok[of "st_log_cache_size s" "st_cache s" "li_index lid"]
  by (simp add: mem_ok_def restrict_mono)

lemma mem_ok_purge:
  assumes "mem_ok s rs"
  shows "mem_ok (s\<lparr>st_cache := purge_cache (li_index lid) (st_cache s),
           st_last_purged_log_id := Some lid\<rparr>) (rs @ [Purge lid])"
  using assms purge_cache_ok[of "st_log_cache_size s" "st_cache s" "li_index lid"]
  by (simp add: mem_ok_def restrict_mono)

lemma apply_wal_record_ok:
  assumes "mem_ok s rs" "record_ok s r"
  shows "\<exists>s'. apply_wal_record env r s = Some (Ok (), s') \<and> mem_ok s' (rs @ [r]) \<and> same_store s s'"
proof (cases r)
  case (AppendLog e)
  then show ?thesis
    using mem_ok_insert[OF assms(1), of e] by (auto simp: apply_wal_record_def)
next
  case (Truncate lid)
  then show ?thesis
    using mem_ok_truncate[OF assms(1)] assms(2) by (simp add: apply_wal_record_def same_store_def)
next
  case (Purge lid)
  then show ?thesis
    using mem_ok_purge[OF assms(1)] by (simp add: apply_wal_record_def same_store_def)
qed (use assms in \<open>simp_all add: apply_wal_record_def Let_def mem_ok_def same_store_def\<close>)

lemma replay_frame_ok:
  assumes "mem_ok s rs" "frame_ok s f"
  shows "\<exists>s'. replay_frame env f s = Some (Ok (), s') \<and> mem_ok s' (rs @ frame_records f) \<and> same_store s s'"
  using assms apply_wal_record_ok[OF assms(1)] by (cases f) (simp_all add: replay_frame_def)

lemma replay_records_ok:
  assumes "decode_all env bs = Ok fs" "mem_ok s rs" "list_all (frame_ok s) fs"
  shows "\<exists>s'. replay_records env bs s = Some (Ok (), s') \<and> mem_ok s' (rs @ records fs) \<and> same_store s s'"
  using assms
proof (induction bs arbitrary: fs s rs)
  case Nil
  then show ?case
    by (auto simp: records_def)
next
  case (Cons b bs)
  then obtain f gs where f: "decode_frame (we_crc env) (we_de env) b = Ok f" "decode_all env bs = Ok gs"
    "fs = f # gs"
    by (auto simp: and_then_eq_Ok)
  obtain s1 where s1: "replay_frame env f s = Some (Ok (), s1)" "mem_ok s1 (rs @ frame_records f)"
    "same_store s s1"
    using replay_frame_ok[OF Cons.prems(2), of f env] Cons.prems(3) f(3) by auto
  have "list_all (frame_ok s1) gs"
    using Cons.prems(3) f(3) same_store_frame_ok[OF s1(3)] by (simp add: list_all_iff)
  then obtain s2 where "replay_records env bs s1 = Some (Ok (), s2)"
    "mem_ok s2 ((rs @ frame_records f) @ records gs)" "same_store s1 s2"
    using Cons.IH[OF f(2) s1(2)] by blast
  then show ?case
    using f s1 same_store_trans by (auto simp: records_Cons)
qed

lemma decode_all_snoc:
  "decode_all env bs = Ok fs \<Longrightarrow> decode_frame (we_crc env) (we_de env) b = Ok f \<Longrightarrow>
   decode_all env (bs @ [b]) = Ok (fs @ [f])"
proof (induction bs arbitrary: fs)
  case (Cons b' bs)
  then show ?case
    by (auto simp: and_then_eq_Ok)
qed simp

end
