(* ===== verification/Snapshot_Transfer.thy ===== *)
theory Snapshot_Transfer
  imports Chirps_Prelude
begin

text \<open>
  Raft snapshot transfer, \<^verbatim>\<open>alopex-chirps/src/snapshot.rs\<close>: manifests and chunks, the receiver that
  reassembles and verifies, and the sender with bounded concurrency and bounded retries.  The SHA-256
  digest of the \<^verbatim>\<open>sha2\<close> crate is the parameter \<open>sha\<close>.  Products of two 32-bit numbers fit the 64 bits the
  code computes them in, so offsets are natural numbers here.
\<close>

section \<open>Configuration, manifest and chunks\<close>

datatype snapshot_transfer_error =
    InvalidConfig string
  | InvalidManifest string
  | Integrity string
  | Retryable string
  | Terminal string
  | TransferTimeout

fun is_retryable :: "snapshot_transfer_error \<Rightarrow> bool" where
  "is_retryable (Retryable _) = True"
| "is_retryable _ = False"

text \<open>Durations are nanoseconds.\<close>

record snapshot_transfer_config =
  chunk_threshold :: nat
  cfg_chunk_size :: nat
  max_concurrent_chunks :: nat
  max_retries :: nat
  transfer_timeout :: nat

definition transfer_config_default :: snapshot_transfer_config where
  "transfer_config_default =
     \<lparr>chunk_threshold = 10 * 1024 * 1024, cfg_chunk_size = 1024 * 1024, max_concurrent_chunks = 4,
      max_retries = 3, transfer_timeout = 60 * 10 ^ 9\<rparr>"

definition transfer_config_validate ::
  "snapshot_transfer_config \<Rightarrow> snapshot_transfer_error + snapshot_transfer_config" where
  "transfer_config_validate c =
     (if chunk_threshold c = 0 then Err (InvalidConfig ''chunk_threshold must be greater than zero'')
      else if cfg_chunk_size c = 0 then Err (InvalidConfig ''chunk_size must be greater than zero'')
      else if max_concurrent_chunks c = 0 then Err (InvalidConfig ''max_concurrent_chunks must be greater than zero'')
      else if transfer_timeout c = 0 then Err (InvalidConfig ''transfer_timeout must be greater than zero'')
      else Ok c)"

record snapshot_manifest =
  man_snapshot_id :: string
  man_total_len :: u64
  man_chunk_size :: u32
  man_chunk_count :: u32
  man_digest :: bytes

record snapshot_chunk =
  chk_snapshot_id :: string
  chk_index :: u32
  chk_offset :: u64
  chk_data :: bytes
  chk_digest :: bytes

record verified_snapshot =
  ver_snapshot_id :: string
  ver_bytes :: bytes
  ver_digest :: bytes

definition div_ceil :: "nat \<Rightarrow> nat \<Rightarrow> nat" where
  "div_ceil a b = (if a mod b = 0 then a div b else a div b + 1)"

definition manifest_from_bytes ::
  "(bytes \<Rightarrow> bytes) \<Rightarrow> string \<Rightarrow> bytes \<Rightarrow> nat \<Rightarrow> snapshot_transfer_error + snapshot_manifest" where
  "manifest_from_bytes sha sid bs chunk_size =
     (if chunk_size = 0 \<or> chunk_size > 2 ^ 32 - 1
      then Err (InvalidConfig ''chunk_size must fit in a non-zero u32'')
      else
        let count = div_ceil (max (length bs) 1) chunk_size
        in if count \<ge> 2 ^ 32 then Err (InvalidManifest ''too many snapshot chunks'')
           else Ok \<lparr>man_snapshot_id = sid, man_total_len = of_nat (length bs), man_chunk_size = of_nat chunk_size,
                    man_chunk_count = of_nat count, man_digest = sha bs\<rparr>)"

definition build_chunk ::
  "(bytes \<Rightarrow> bytes) \<Rightarrow> snapshot_manifest \<Rightarrow> bytes \<Rightarrow> u32 \<Rightarrow> snapshot_transfer_error + snapshot_chunk" where
  "build_chunk sha m bs index =
     (let chunk_size = unat (man_chunk_size m)
      in if bs = []
         then Ok \<lparr>chk_snapshot_id = man_snapshot_id m, chk_index = 0, chk_offset = 0, chk_data = [], chk_digest = sha []\<rparr>
         else
           let start = unat index * chunk_size; fin = min (start + chunk_size) (length bs)
           in if start > fin then Err (InvalidManifest ''chunk index is out of bounds'')
              else let content = slice_range bs start fin
                   in Ok \<lparr>chk_snapshot_id = man_snapshot_id m, chk_index = index,
                          chk_offset = of_nat (unat index * unat (man_chunk_size m)), chk_data = content,
                          chk_digest = sha content\<rparr>)"

definition validate_manifest :: "snapshot_manifest \<Rightarrow> snapshot_transfer_error + unit" where
  "validate_manifest m =
     (if man_snapshot_id m = [] \<or> man_chunk_size m = 0 \<or> man_chunk_count m = 0
      then Err (InvalidManifest ''snapshot id, chunk size, and chunk count must be non-zero'')
      else if div_ceil (max (unat (man_total_len m)) 1) (unat (man_chunk_size m)) \<noteq> unat (man_chunk_count m)
      then Err (InvalidManifest ''chunk count does not cover the declared snapshot length'')
      else Ok ())"

definition validate_chunk ::
  "(bytes \<Rightarrow> bytes) \<Rightarrow> snapshot_manifest \<Rightarrow> snapshot_chunk \<Rightarrow> snapshot_transfer_error + unit" where
  "validate_chunk sha m c =
     (if chk_snapshot_id c \<noteq> man_snapshot_id m \<or> chk_index c \<ge> man_chunk_count m
      then Err (InvalidManifest ''chunk does not belong to this snapshot'')
      else
        let expected_offset = unat (chk_index c) * unat (man_chunk_size m)
        in if unat (chk_offset c) \<noteq> expected_offset then Err (InvalidManifest ''chunk has a wrong offset'')
           else
             let remaining = unat (man_total_len m) - expected_offset;
                 expected_len = min remaining (unat (man_chunk_size m))
             in if length (chk_data c) \<noteq> expected_len then Err (InvalidManifest ''chunk has a wrong length'')
                else if sha (chk_data c) \<noteq> chk_digest c then Err (Integrity ''chunk digest mismatch'')
                else Ok ())"

section \<open>The receiver\<close>

record snapshot_receiver =
  rcv_manifest :: snapshot_manifest
  rcv_bytes :: bytes
  rcv_received :: "bool list"
  rcv_verified_chunks :: u32
  rcv_verified_bytes :: u64

definition receiver_new :: "snapshot_manifest \<Rightarrow> snapshot_transfer_error + snapshot_receiver" where
  "receiver_new m =
     and_then (validate_manifest m) (\<lambda>_.
       Ok \<lparr>rcv_manifest = m, rcv_bytes = replicate (unat (man_total_len m)) 0,
           rcv_received = replicate (unat (man_chunk_count m)) False, rcv_verified_chunks = 0, rcv_verified_bytes = 0\<rparr>)"

text \<open>Replacing a slice; \<open>None\<close> is the panic of an index or a range out of bounds.\<close>

definition copy_from_slice :: "bytes \<Rightarrow> nat \<Rightarrow> nat \<Rightarrow> bytes \<Rightarrow> bytes" where
  "copy_from_slice bs start fin content = take start bs @ content @ drop fin bs"

definition accept ::
  "(bytes \<Rightarrow> bytes) \<Rightarrow> snapshot_chunk \<Rightarrow> snapshot_receiver
     \<Rightarrow> ((snapshot_transfer_error + unit) \<times> snapshot_receiver) option" where
  "accept sha c r =
     (case validate_chunk sha (rcv_manifest r) c of
        Inl e \<Rightarrow> Some (Err e, r)
      | Inr _ \<Rightarrow>
          let index = unat (chk_index c); start = unat (chk_offset c); fin = start + length (chk_data c)
          in if index \<ge> length (rcv_received r) \<or> fin > length (rcv_bytes r) then None
             else if rcv_received r ! index
             then (if slice_range (rcv_bytes r) start fin = chk_data c then Some (Ok (), r)
                   else Some (Err (Integrity ''conflicting duplicate chunk''), r))
             else Some (Ok (),
                    r\<lparr>rcv_verified_chunks := rcv_verified_chunks r + 1,
                      rcv_verified_bytes := rcv_verified_bytes r + of_nat (length (chk_data c)),
                      rcv_bytes := copy_from_slice (rcv_bytes r) start fin (chk_data c),
                      rcv_received := (rcv_received r)[index := True]\<rparr>))"

definition verify_complete ::
  "(bytes \<Rightarrow> bytes) \<Rightarrow> string \<Rightarrow> snapshot_receiver \<Rightarrow> snapshot_transfer_error + unit" where
  "verify_complete sha sid r =
     (if sid \<noteq> man_snapshot_id (rcv_manifest r)
      then Err (InvalidManifest ''snapshot id changed before completion'')
      else if rcv_verified_chunks r \<noteq> man_chunk_count (rcv_manifest r)
      then Err (InvalidManifest ''snapshot is incomplete'')
      else if of_nat (length (rcv_bytes r)) \<noteq> man_total_len (rcv_manifest r)
      then Err (Integrity ''reassembled length does not match manifest'')
      else if sha (rcv_bytes r) \<noteq> man_digest (rcv_manifest r)
      then Err (Integrity ''whole snapshot digest mismatch'')
      else Ok ())"

definition verify ::
  "(bytes \<Rightarrow> bytes) \<Rightarrow> string \<Rightarrow> snapshot_receiver \<Rightarrow> snapshot_transfer_error + verified_snapshot" where
  "verify sha sid r =
     and_then (verify_complete sha sid r) (\<lambda>_.
       Ok \<lparr>ver_snapshot_id = man_snapshot_id (rcv_manifest r), ver_bytes = rcv_bytes r,
           ver_digest = man_digest (rcv_manifest r)\<rparr>)"

definition percent :: "u32 \<Rightarrow> u32 \<Rightarrow> u8" where
  "percent verified_chunks total_chunks =
     (if total_chunks = 0 then 0 else of_nat (unat verified_chunks * 100 div unat total_chunks))"

section \<open>The sender\<close>

definition transfer_chunk_size :: "snapshot_transfer_config \<Rightarrow> bytes \<Rightarrow> nat" where
  "transfer_chunk_size c bs =
     (if length bs > chunk_threshold c then cfg_chunk_size c else max (length bs) 1)"

text \<open>
  The state of a transfer after \<^verbatim>\<open>begin\<close>: the next chunk whose task has not started, the running tasks with
  their attempt, and the counters of \<^verbatim>\<open>SenderProgressState\<close>.  \<open>trn_receiver\<close> is the receiver at the other end, which
  sees a chunk as often as it is delivered, whether or not the sender learns of it.
\<close>

datatype transfer_result = Running | Failed snapshot_transfer_error | Installed verified_snapshot

record transfer_state =
  trn_next :: nat
  trn_active :: "(nat \<times> nat) list"
  trn_verified :: nat
  trn_retries :: nat
  trn_max_active :: nat
  trn_aborts :: nat
  trn_receiver :: snapshot_receiver
  trn_result :: transfer_result

definition transfer_begin :: "snapshot_receiver \<Rightarrow> transfer_state" where
  "transfer_begin r =
     \<lparr>trn_next = 0, trn_active = [], trn_verified = 0, trn_retries = 0, trn_max_active = 0, trn_aborts = 0,
      trn_receiver = r, trn_result = Running\<rparr>"

text \<open>
  The steps: a task starts while fewer than \<open>max_concurrent_chunks\<close> run; a chunk in flight reaches the receiver; the
  sender learns that it was verified; an attempt fails and is retried, or ends the transfer with an
  abort; when every task is done the transfer finishes, with an abort unless the receiver installs.
\<close>

inductive transfer_step ::
  "(bytes \<Rightarrow> bytes) \<Rightarrow> snapshot_transfer_config \<Rightarrow> snapshot_manifest \<Rightarrow> bytes \<Rightarrow> transfer_state \<Rightarrow> transfer_state \<Rightarrow> bool"
  for sha cfg m bs where
  start: "trn_result t = Running \<Longrightarrow> trn_next t < unat (man_chunk_count m) \<Longrightarrow>
    length (trn_active t) < max_concurrent_chunks cfg \<Longrightarrow>
    transfer_step sha cfg m bs t
      (t\<lparr>trn_active := (trn_next t, 0) # trn_active t, trn_next := trn_next t + 1,
         trn_max_active := max (trn_max_active t) (length (trn_active t) + 1)\<rparr>)"
| deliver: "trn_result t = Running \<Longrightarrow> (i, k) \<in> set (trn_active t) \<Longrightarrow> build_chunk sha m bs (of_nat i) = Ok c \<Longrightarrow>
    accept sha c (trn_receiver t) = Some (res, r) \<Longrightarrow>
    transfer_step sha cfg m bs t (t\<lparr>trn_receiver := r\<rparr>)"
| acknowledge: "trn_result t = Running \<Longrightarrow> (i, k) \<in> set (trn_active t) \<Longrightarrow> build_chunk sha m bs (of_nat i) = Ok c \<Longrightarrow>
    accept sha c (trn_receiver t) = Some (Ok (), r) \<Longrightarrow>
    transfer_step sha cfg m bs t
      (t\<lparr>trn_receiver := r, trn_active := filter (\<lambda>x. x \<noteq> (i, k)) (trn_active t), trn_verified := trn_verified t + 1\<rparr>)"
| retry: "trn_result t = Running \<Longrightarrow> (i, k) \<in> set (trn_active t) \<Longrightarrow> is_retryable e \<Longrightarrow> k < max_retries cfg \<Longrightarrow>
    transfer_step sha cfg m bs t
      (t\<lparr>trn_active := map (\<lambda>x. if x = (i, k) then (i, k + 1) else x) (trn_active t), trn_retries := trn_retries t + 1\<rparr>)"
| fail: "trn_result t = Running \<Longrightarrow> (i, k) \<in> set (trn_active t) \<Longrightarrow> \<not> is_retryable e \<or> k \<ge> max_retries cfg \<Longrightarrow>
    transfer_step sha cfg m bs t (t\<lparr>trn_aborts := trn_aborts t + 1, trn_result := Failed e\<rparr>)"
| finish: "trn_result t = Running \<Longrightarrow> trn_active t = [] \<Longrightarrow> trn_next t = unat (man_chunk_count m) \<Longrightarrow>
    verify sha (man_snapshot_id m) (trn_receiver t) = Ok v \<Longrightarrow>
    transfer_step sha cfg m bs t (t\<lparr>trn_result := Installed v\<rparr>)"
| finish_failed: "trn_result t = Running \<Longrightarrow> trn_active t = [] \<Longrightarrow> trn_next t = unat (man_chunk_count m) \<Longrightarrow>
    transfer_step sha cfg m bs t (t\<lparr>trn_aborts := trn_aborts t + 1, trn_result := Failed e\<rparr>)"
| timed_out: "trn_result t = Running \<Longrightarrow>
    transfer_step sha cfg m bs t (t\<lparr>trn_aborts := trn_aborts t + 1, trn_result := Failed TransferTimeout\<rparr>)"

section \<open>Chunks cover the snapshot\<close>

lemma div_ceil_bounds:
  assumes "0 < b" "0 < a"
  shows "a \<le> div_ceil a b * b" "i < div_ceil a b \<Longrightarrow> i * b < a" "0 < div_ceil a b"
proof -
  have e: "a = a div b * b + a mod b" "a mod b < b"
    using assms(1) by simp_all
  show "a \<le> div_ceil a b * b"
  proof (cases "a mod b = 0")
    case True
    then show ?thesis
      using e(1) by (simp add: div_ceil_def)
  next
    case False
    have "a \<le> a div b * b + b"
      using e by linarith
    then show ?thesis
      using False by (simp add: div_ceil_def)
  qed
  show "i * b < a" if "i < div_ceil a b"
  proof (cases "a mod b = 0")
    case True
    then have "i < a div b"
      using that by (simp add: div_ceil_def)
    then have "i * b < a div b * b"
      using assms(1) by simp
    then show ?thesis
      using e True by linarith
  next
    case False
    then have "i \<le> a div b"
      using that by (simp add: div_ceil_def)
    then have "i * b \<le> a div b * b"
      by simp
    then show ?thesis
      using e False by linarith
  qed
  show "0 < div_ceil a b"
    using assms e by (auto simp: div_ceil_def)
qed

abbreviation tlen :: "snapshot_manifest \<Rightarrow> nat" where "tlen m \<equiv> unat (man_total_len m)"
abbreviation csize :: "snapshot_manifest \<Rightarrow> nat" where "csize m \<equiv> unat (man_chunk_size m)"
abbreviation ccount :: "snapshot_manifest \<Rightarrow> nat" where "ccount m \<equiv> unat (man_chunk_count m)"

definition covers :: "snapshot_manifest \<Rightarrow> bool" where
  "covers m \<longleftrightarrow> 0 < csize m \<and> ccount m = div_ceil (max (tlen m) 1) (csize m)"

lemma validate_manifest_covers: "validate_manifest m = Ok u \<Longrightarrow> covers m"
  by (auto simp: validate_manifest_def covers_def unat_gt_0 split: if_splits)

lemma covers_chunk:
  assumes "covers m" "i < ccount m"
  shows "i * csize m < max (tlen m) 1"
  using div_ceil_bounds(2)[of "csize m" "max (tlen m) 1" i] assms by (simp add: covers_def)

lemma covers_byte:
  assumes "covers m" "j < tlen m"
  shows "j div csize m < ccount m"
proof -
  have "tlen m \<le> ccount m * csize m"
    using div_ceil_bounds(1)[of "csize m" "max (tlen m) 1"] assms by (simp add: covers_def)
  then have "j < ccount m * csize m"
    using assms(2) by linarith
  then show ?thesis
    by (simp add: less_mult_imp_div_less)
qed

lemma manifest_from_bytes_covers:
  assumes "manifest_from_bytes sha sid bs cs = Ok m" "length bs < 2 ^ 64"
  shows "covers m" "tlen m = length bs" "man_digest m = sha bs" "man_snapshot_id m = sid"
proof -
  have cs: "0 < cs" "cs < 2 ^ 32" "div_ceil (max (length bs) 1) cs < 2 ^ 32"
    and m: "m = \<lparr>man_snapshot_id = sid, man_total_len = of_nat (length bs), man_chunk_size = of_nat cs,
      man_chunk_count = of_nat (div_ceil (max (length bs) 1) cs), man_digest = sha bs\<rparr>"
    using assms(1) by (auto simp: manifest_from_bytes_def Let_def split: if_splits)
  have u: "unat (of_nat (length bs) :: u64) = length bs" "unat (of_nat cs :: u32) = cs"
    "unat (of_nat (div_ceil (max (length bs) 1) cs) :: u32) = div_ceil (max (length bs) 1) cs"
    using cs assms(2) by (simp_all add: unat_of_nat)
  show "covers m" "tlen m = length bs" "man_digest m = sha bs" "man_snapshot_id m = sid"
    using cs u by (simp_all add: m covers_def)
qed

section \<open>The receiver never panics and keeps what it verified\<close>

definition rcv_ok :: "snapshot_receiver \<Rightarrow> bool" where
  "rcv_ok r \<longleftrightarrow> covers (rcv_manifest r) \<and> length (rcv_bytes r) = tlen (rcv_manifest r) \<and>
     length (rcv_received r) = ccount (rcv_manifest r) \<and>
     unat (rcv_verified_chunks r) = card {i. i < ccount (rcv_manifest r) \<and> rcv_received r ! i}"

lemma receiver_new_ok:
  assumes "receiver_new m = Ok r"
  shows "rcv_ok r" "rcv_manifest r = m" "\<And>i. i < ccount m \<Longrightarrow> \<not> rcv_received r ! i"
  using assms validate_manifest_covers[of m]
  by (auto simp: receiver_new_def and_then_eq_Ok rcv_ok_def)

lemma validate_chunk_Ok:
  assumes "validate_chunk sha m c = Ok u"
  shows "unat (chk_index c) < ccount m" "unat (chk_offset c) = unat (chk_index c) * csize m"
    "length (chk_data c) = min (tlen m - unat (chk_index c) * csize m) (csize m)" "chk_snapshot_id c = man_snapshot_id m"
  using assms by (auto simp: validate_chunk_def Let_def word_less_nat_alt not_le split: if_splits)

lemma accept_total:
  assumes "rcv_ok r"
  shows "\<exists>res r'. accept sha c r = Some (res, r')"
proof (cases "validate_chunk sha (rcv_manifest r) c")
  case (Inr u)
  note v = validate_chunk_Ok[OF Inr]
  have "unat (chk_offset c) + length (chk_data c) \<le> tlen (rcv_manifest r)"
    using v covers_chunk[of "rcv_manifest r" "unat (chk_index c)"] assms by (auto simp: rcv_ok_def)
  then show ?thesis
    using v(1) assms Inr by (auto simp: accept_def Let_def rcv_ok_def)
qed (simp add: accept_def)

lemma accept_cases:
  assumes "accept sha c r = Some (res, r')"
  obtains (same) "r' = r"
  | (fresh) u where "res = Ok ()" "validate_chunk sha (rcv_manifest r) c = Ok u" "\<not> rcv_received r ! unat (chk_index c)"
      "unat (chk_index c) < length (rcv_received r)" "unat (chk_offset c) + length (chk_data c) \<le> length (rcv_bytes r)"
      "r' = r\<lparr>rcv_verified_chunks := rcv_verified_chunks r + 1,
              rcv_verified_bytes := rcv_verified_bytes r + of_nat (length (chk_data c)),
              rcv_bytes := copy_from_slice (rcv_bytes r) (unat (chk_offset c)) (unat (chk_offset c) + length (chk_data c)) (chk_data c),
              rcv_received := (rcv_received r)[unat (chk_index c) := True]\<rparr>"
  using assms
  by (auto simp: accept_def Let_def split: sum.splits if_splits)

lemma length_copy_from_slice:
  "start + length content \<le> length bs \<Longrightarrow> length (copy_from_slice bs start (start + length content) content) = length bs"
  by (simp add: copy_from_slice_def)

lemma nth_copy_from_slice:
  assumes "start + length content \<le> length bs" "j < length bs"
  shows "copy_from_slice bs start (start + length content) content ! j =
    (if start \<le> j \<and> j < start + length content then content ! (j - start) else bs ! j)"
  using assms by (auto simp: copy_from_slice_def nth_append min_def)

lemma card_received:
  assumes "i < length xs" "\<not> xs ! i"
  shows "card {k. k < length xs \<and> xs[i := True] ! k} = card {k. k < length xs \<and> xs ! k} + 1"
proof -
  have "{k. k < length xs \<and> xs[i := True] ! k} = insert i {k. k < length xs \<and> xs ! k}"
    using assms by (auto simp: nth_list_update)
  then show ?thesis
    using assms by simp
qed

lemma accept_ok:
  assumes "rcv_ok r" "accept sha c r = Some (res, r')"
  shows "rcv_ok r' \<and> rcv_manifest r' = rcv_manifest r"
  using assms(2)
proof (cases rule: accept_cases)
  case (fresh u)
  let ?m = "rcv_manifest r" and ?i = "unat (chk_index c)"
  have len: "length (rcv_received r) = ccount ?m"
    using assms(1) by (simp add: rcv_ok_def)
  have c: "card {k. k < length (rcv_received r) \<and> (rcv_received r)[?i := True] ! k} = unat (rcv_verified_chunks r) + 1"
    using card_received[OF fresh(4,3)] assms(1) len by (simp add: rcv_ok_def)
  have "card {k. k < length (rcv_received r) \<and> (rcv_received r)[?i := True] ! k} \<le> card {..<ccount ?m}"
    using len by (intro card_mono) auto
  moreover have "ccount ?m < 2 ^ LENGTH(32)"
    by (rule unsigned_less)
  ultimately have "unat (rcv_verified_chunks r) + 1 < 2 ^ 32"
    using c by simp
  then have "unat (rcv_verified_chunks r + 1) = unat (rcv_verified_chunks r) + 1"
    by (simp add: unat_word_ariths)
  then show ?thesis
    using assms(1) c len length_copy_from_slice[OF fresh(5)] by (simp add: fresh(6) rcv_ok_def)
qed (use assms(1) in simp)

section \<open>Genuine chunks\<close>

text \<open>The receiver holds the sender's bytes wherever it counts a chunk as received.\<close>

definition holds_part :: "bytes \<Rightarrow> snapshot_receiver \<Rightarrow> bool" where
  "holds_part bs r \<longleftrightarrow> (\<forall>j<length bs. rcv_received r ! (j div csize (rcv_manifest r)) \<longrightarrow> rcv_bytes r ! j = bs ! j)"

lemma build_chunk_genuine:
  assumes "covers m" "tlen m = length bs" "i < ccount m"
  obtains c where "build_chunk sha m bs (of_nat i) = Ok c" "validate_chunk sha m c = Ok ()" "unat (chk_index c) = i"
    "unat (chk_offset c) = i * csize m" "chk_data c = slice_range bs (i * csize m) (i * csize m + length (chk_data c))"
    "i * csize m + length (chk_data c) = min (i * csize m + csize m) (length bs)"
proof (cases "bs = []")
  case True
  have "ccount m = 1"
    using assms(1,2) True by (auto simp: covers_def div_ceil_def)
  then have "i = 0"
    using assms(3) by simp
  then show thesis
    using that[of "\<lparr>chk_snapshot_id = man_snapshot_id m, chk_index = 0, chk_offset = 0, chk_data = [], chk_digest = sha []\<rparr>"]
      True assms(2,3) by (simp add: build_chunk_def validate_chunk_def word_le_nat_alt slice_range_def)
next
  case False
  have lt: "i * csize m < length bs"
    using covers_chunk[OF assms(1,3)] assms(2) False by (cases bs) simp_all
  have i: "unat (of_nat i :: u32) = i"
    using assms(3) unat_bound[of "man_chunk_count m"] by (simp add: unat_of_nat)
  have off: "unat (of_nat (i * csize m) :: u64) = i * csize m"
    using lt assms(2) unat_bound[of "man_total_len m"] by (simp add: unat_of_nat del: of_nat_mult)
  define fin where "fin = min (i * csize m + csize m) (length bs)"
  have fin: "i * csize m \<le> fin" "fin \<le> length bs"
    using lt by (simp_all add: fin_def)
  define c where "c = \<lparr>chk_snapshot_id = man_snapshot_id m, chk_index = of_nat i, chk_offset = of_nat (i * csize m),
    chk_data = slice_range bs (i * csize m) fin, chk_digest = sha (slice_range bs (i * csize m) fin)\<rparr>"
  have len: "length (chk_data c) = fin - i * csize m"
    using fin by (simp add: c_def)
  then have sum: "i * csize m + length (chk_data c) = fin"
    using fin by simp
  have "build_chunk sha m bs (of_nat i) = Ok c"
    using False i fin by (simp add: build_chunk_def Let_def fin_def[symmetric] c_def)
  moreover have "validate_chunk sha m c = Ok ()"
    using i off assms(2,3) len lt
    by (auto simp: validate_chunk_def Let_def c_def word_le_nat_alt fin_def min_def simp del: of_nat_mult)
  moreover have "chk_data c = slice_range bs (i * csize m) (i * csize m + length (chk_data c))"
    unfolding sum by (simp add: c_def)
  moreover have "unat (chk_index c) = i" "unat (chk_offset c) = i * csize m"
    unfolding c_def snapshot_chunk.simps by (rule i, rule off)
  ultimately show thesis
    using that[of c] sum unfolding fin_def by blast
qed

lemma nth_slice_range: "k < fin - start \<Longrightarrow> fin \<le> length xs \<Longrightarrow> slice_range xs start fin ! k = xs ! (start + k)"
  by (simp add: slice_range_def)

lemma chunk_range:
  assumes "0 < (cs :: nat)"
  shows "i * cs \<le> j \<and> j < i * cs + cs \<longleftrightarrow> j div cs = i"
proof
  assume h: "i * cs \<le> j \<and> j < i * cs + cs"
  show "j div cs = i"
    using h assms by (intro div_nat_eqI) (simp_all add: mult.commute)
next
  assume "j div cs = i"
  then show "i * cs \<le> j \<and> j < i * cs + cs"
    using assms div_mult_mod_eq[of j cs] mod_less_divisor[OF assms, of j] by auto
qed

lemma accept_genuine:
  assumes "rcv_ok r" "holds_part bs r" "tlen (rcv_manifest r) = length bs" "i < ccount (rcv_manifest r)"
    and "build_chunk sha (rcv_manifest r) bs (of_nat i) = Ok c" "accept sha c r = Some (res, r')"
  shows "res = Ok () \<and> holds_part bs r' \<and> rcv_received r' = (rcv_received r)[i := True]"
proof -
  let ?m = "rcv_manifest r" and ?cs = "csize (rcv_manifest r)"
  have ok: "covers ?m" "0 < ?cs" "length (rcv_bytes r) = length bs" "length (rcv_received r) = ccount ?m"
    using assms(1,3) by (simp_all add: rcv_ok_def covers_def)
  have c: "validate_chunk sha ?m c = Ok ()" "unat (chk_index c) = i" "unat (chk_offset c) = i * ?cs"
    "chk_data c = slice_range bs (i * ?cs) (i * ?cs + length (chk_data c))"
    "i * ?cs + length (chk_data c) = min (i * ?cs + ?cs) (length bs)"
    using build_chunk_genuine[OF ok(1) assms(3,4), of sha] assms(5) by (metis sum.inject(2))+
  have fin: "i * ?cs + length (chk_data c) \<le> length bs"
    using c(5) by simp
  have inside: "i * ?cs \<le> j \<and> j < i * ?cs + length (chk_data c) \<longleftrightarrow> j div ?cs = i" if "j < length bs" for j
    using chunk_range[OF ok(2), of i j] that unfolding c(5) by auto
  have data: "chk_data c ! (j - i * ?cs) = bs ! j" if "i * ?cs \<le> j \<and> j < i * ?cs + length (chk_data c)" for j
  proof -
    have "j - i * ?cs < i * ?cs + length (chk_data c) - i * ?cs"
      using that by linarith
    from nth_slice_range[OF this fin] show ?thesis
      using that c(4) by simp
  qed
  show ?thesis
  proof (cases "rcv_received r ! i")
    case True
    have "slice_range (rcv_bytes r) (i * ?cs) (i * ?cs + length (chk_data c)) = chk_data c"
    proof (rule nth_equalityI)
      show "length (slice_range (rcv_bytes r) (i * ?cs) (i * ?cs + length (chk_data c))) = length (chk_data c)"
        using fin ok(3) by simp
      fix k
      assume "k < length (slice_range (rcv_bytes r) (i * ?cs) (i * ?cs + length (chk_data c)))"
      then have k: "k < length (chk_data c)"
        using fin ok(3) by simp
      then have j: "i * ?cs + k < length bs" "(i * ?cs + k) div ?cs = i"
        using inside[of "i * ?cs + k"] fin by simp_all
      have "rcv_bytes r ! (i * ?cs + k) = bs ! (i * ?cs + k)"
        using assms(2) j True unfolding holds_part_def by metis
      then show "slice_range (rcv_bytes r) (i * ?cs) (i * ?cs + length (chk_data c)) ! k = chk_data c ! k"
        using k fin ok(3) data[of "i * ?cs + k"] nth_slice_range[of k "i * ?cs + length (chk_data c)" "i * ?cs" "rcv_bytes r"] by simp
    qed
    then show ?thesis
      using assms(2,6) c ok fin True assms(4) list_update_id[of "rcv_received r" i] by (simp add: accept_def Let_def)
  next
    case False
    have r': "res = Ok ()" "r' = r\<lparr>rcv_verified_chunks := rcv_verified_chunks r + 1,
          rcv_verified_bytes := rcv_verified_bytes r + of_nat (length (chk_data c)),
          rcv_bytes := copy_from_slice (rcv_bytes r) (i * ?cs) (i * ?cs + length (chk_data c)) (chk_data c),
          rcv_received := (rcv_received r)[i := True]\<rparr>"
      using assms(4,6) c ok fin False by (simp_all add: accept_def Let_def)
    have "copy_from_slice (rcv_bytes r) (i * ?cs) (i * ?cs + length (chk_data c)) (chk_data c) ! j = bs ! j"
      if h: "j < length bs" "(rcv_received r)[i := True] ! (j div ?cs)" for j
    proof (cases "j div ?cs = i")
      case True
      then show ?thesis
        using nth_copy_from_slice[of "i * ?cs" "chk_data c" "rcv_bytes r" j] inside[OF h(1)] data[of j] fin ok(3) h(1) by simp
    next
      case False
      then have "rcv_bytes r ! j = bs ! j"
        using assms(2) h by (simp add: holds_part_def)
      then show ?thesis
        using nth_copy_from_slice[of "i * ?cs" "chk_data c" "rcv_bytes r" j] inside[OF h(1)] fin ok(3) h(1) False by auto
    qed
    then have "holds_part bs r'"
      unfolding r'(2) holds_part_def by simp
    then show ?thesis
      using r' by simp
  qed
qed

fun accept_all :: "(bytes \<Rightarrow> bytes) \<Rightarrow> snapshot_chunk list \<Rightarrow> snapshot_receiver \<Rightarrow> snapshot_receiver option" where
  "accept_all sha [] r = Some r"
| "accept_all sha (c # cs) r = (case accept sha c r of None \<Rightarrow> None | Some (_, r') \<Rightarrow> accept_all sha cs r')"

lemma accept_all_ok: "rcv_ok r \<Longrightarrow> \<exists>r'. accept_all sha cs r = Some r' \<and> rcv_ok r' \<and> rcv_manifest r' = rcv_manifest r"
proof (induction cs arbitrary: r)
  case (Cons c cs)
  obtain res r1 where a: "accept sha c r = Some (res, r1)"
    using accept_total[OF Cons.prems] by blast
  then have ok: "rcv_ok r1" "rcv_manifest r1 = rcv_manifest r"
    using accept_ok[OF Cons.prems a] by simp_all
  then show ?case
    using Cons.IH[OF ok(1)] a by simp
qed simp

lemma verify_Ok:
  assumes "verify sha sid r = Ok v"
  shows "ver_bytes v = rcv_bytes r" "sha (rcv_bytes r) = man_digest (rcv_manifest r)" "sid = man_snapshot_id (rcv_manifest r)"
    "ver_snapshot_id v = sid"
  using assms by (auto simp: verify_def and_then_eq_Ok verify_complete_def split: if_splits)

text \<open>Once every chunk was received the bytes are the sender's, and verification succeeds.\<close>

lemma verify_complete_snapshot:
  assumes "rcv_ok r" "holds_part bs r" "tlen (rcv_manifest r) = length bs" "man_digest (rcv_manifest r) = sha bs"
    and "\<forall>i<ccount (rcv_manifest r). rcv_received r ! i"
  shows "\<exists>v. verify sha (man_snapshot_id (rcv_manifest r)) r = Ok v \<and> ver_bytes v = bs"
proof -
  let ?m = "rcv_manifest r"
  have len: "length (rcv_bytes r) = length bs"
    using assms(1,3) by (simp add: rcv_ok_def)
  have "rcv_bytes r = bs"
  proof (rule nth_equalityI[OF len])
    fix j
    assume "j < length (rcv_bytes r)"
    then have j: "j < length bs"
      using len by simp
    then have "j div csize ?m < ccount ?m"
      using covers_byte[of ?m j] assms(1,3) by (simp add: rcv_ok_def)
    then show "rcv_bytes r ! j = bs ! j"
      using assms(2,5) j by (simp add: holds_part_def)
  qed
  moreover have "{i. i < ccount ?m \<and> rcv_received r ! i} = {..<ccount ?m}"
    using assms(5) by auto
  then have "unat (rcv_verified_chunks r) = ccount ?m"
    using assms(1) by (simp add: rcv_ok_def)
  then have "rcv_verified_chunks r = man_chunk_count ?m"
    by (simp add: word_unat_eq_iff)
  moreover have "of_nat (length bs) = man_total_len ?m"
    unfolding assms(3)[symmetric] by simp
  ultimately show ?thesis
    using assms(4) by (simp add: verify_def verify_complete_def)
qed

section \<open>Runs of a transfer\<close>

definition spare :: "nat \<Rightarrow> (nat \<times> nat) list \<Rightarrow> nat" where
  "spare retries act = (\<Sum>(i, k)\<leftarrow>act. retries - k)"

fun outcome_ok :: "snapshot_manifest \<Rightarrow> bytes \<Rightarrow> transfer_result \<Rightarrow> nat \<Rightarrow> bool" where
  "outcome_ok m bs Running aborts \<longleftrightarrow> aborts = 0"
| "outcome_ok m bs (Failed e) aborts \<longleftrightarrow> aborts = 1"
| "outcome_ok m bs (Installed v) aborts \<longleftrightarrow> aborts = 0 \<and> ver_bytes v = bs \<and> ver_snapshot_id v = man_snapshot_id m"

definition transfer_inv ::
  "snapshot_transfer_config \<Rightarrow> snapshot_manifest \<Rightarrow> bytes \<Rightarrow> transfer_state \<Rightarrow> bool" where
  "transfer_inv cfg m bs t \<longleftrightarrow>
     rcv_ok (trn_receiver t) \<and> rcv_manifest (trn_receiver t) = m \<and> holds_part bs (trn_receiver t) \<and>
     distinct (map fst (trn_active t)) \<and> fst ` set (trn_active t) \<subseteq> {..<trn_next t} \<and> trn_next t \<le> ccount m \<and>
     length (trn_active t) \<le> max_concurrent_chunks cfg \<and> trn_max_active t \<le> max_concurrent_chunks cfg \<and>
     (\<forall>i<trn_next t. i \<notin> fst ` set (trn_active t) \<longrightarrow> rcv_received (trn_receiver t) ! i) \<and>
     trn_retries t + spare (max_retries cfg) (trn_active t) \<le> trn_next t * max_retries cfg \<and>
     outcome_ok m bs (trn_result t) (trn_aborts t)"

lemma spare_retry:
  assumes "distinct (map fst act)" "(i, k) \<in> set act" "k < R"
  shows "spare R (map (\<lambda>x. if x = (i, k) then (i, k + 1) else x) act) + 1 = spare R act"
  using assms
proof (induction act)
  case (Cons a act)
  show ?case
  proof (cases "a = (i, k)")
    case True
    then have "(i, k) \<notin> set act"
      using Cons.prems(1) by force
    then have "map (\<lambda>x. if x = (i, k) then (i, k + 1) else x) act = act"
      by (intro map_idI) auto
    then show ?thesis
      using True assms(3) by (simp add: spare_def)
  next
    case False
    then show ?thesis
      using Cons by (auto simp: spare_def)
  qed
qed simp

lemma spare_filter: "spare R (filter P act) \<le> spare R act"
  by (induction act) (auto simp: spare_def)

lemma map_fst_retry [simp]: "map fst (map (\<lambda>x. if x = (i, k) then (i, k + 1) else x) act) = map fst act"
  by (induction act) auto

lemma image_fst_retry [simp]: "fst ` set (map (\<lambda>x. if x = (i, k) then (i, k + 1) else x) act) = fst ` set act"
  using map_fst_retry[of i k act] by (metis set_map)

lemma deliver_inv:
  assumes "transfer_inv cfg m bs t" "tlen m = length bs" "(i, k) \<in> set (trn_active t)"
    and "build_chunk sha m bs (of_nat i) = Ok c" "accept sha c (trn_receiver t) = Some (res, r)"
  shows "transfer_inv cfg m bs (t\<lparr>trn_receiver := r\<rparr>)" "rcv_received r ! i"
proof -
  have inv: "rcv_ok (trn_receiver t)" "rcv_manifest (trn_receiver t) = m" "holds_part bs (trn_receiver t)"
    using assms(1) by (simp_all add: transfer_inv_def)
  have "i \<in> fst ` set (trn_active t)"
    using assms(3) by force
  then have i: "i < ccount m"
    using assms(1) by (auto simp: transfer_inv_def)
  have r: "rcv_ok r" "rcv_manifest r = m"
    using accept_ok[OF inv(1) assms(5)] inv(2) by simp_all
  have g: "holds_part bs r" "rcv_received r = (rcv_received (trn_receiver t))[i := True]"
    using accept_genuine[OF inv(1,3), of i sha c res r] inv(2) assms(2,4,5) i by simp_all
  have len: "length (rcv_received (trn_receiver t)) = ccount m"
    using inv by (simp add: rcv_ok_def)
  show "rcv_received r ! i"
    using g(2) i len by simp
  have "rcv_received r ! j" if "rcv_received (trn_receiver t) ! j" for j
    using that g(2) i len by (cases "j = i") simp_all
  then show "transfer_inv cfg m bs (t\<lparr>trn_receiver := r\<rparr>)"
    using assms(1) r g(1) unfolding transfer_inv_def by simp
qed

lemma acknowledge_inv:
  assumes "transfer_inv cfg m bs t" "(i, k) \<in> set (trn_active t)" "rcv_received (trn_receiver t) ! i"
  shows "transfer_inv cfg m bs (t\<lparr>trn_active := filter (\<lambda>x. x \<noteq> (i, k)) (trn_active t), trn_verified := n\<rparr>)"
proof -
  have "j \<in> fst ` set (filter (\<lambda>x. x \<noteq> (i, k)) (trn_active t))" if h: "j \<in> fst ` set (trn_active t)" "j \<noteq> i" for j
    using h by force
  then have "rcv_received (trn_receiver t) ! j"
    if "j < trn_next t" "j \<notin> fst ` set (filter (\<lambda>x. x \<noteq> (i, k)) (trn_active t))" for j
    using that assms(1,3) unfolding transfer_inv_def by (cases "j = i") blast+
  moreover have "length (filter (\<lambda>x. x \<noteq> (i, k)) (trn_active t)) \<le> length (trn_active t)"
    by simp
  then have "length (filter (\<lambda>x. x \<noteq> (i, k)) (trn_active t)) \<le> max_concurrent_chunks cfg"
    using assms(1) unfolding transfer_inv_def by linarith
  moreover have "trn_retries t + spare (max_retries cfg) (filter (\<lambda>x. x \<noteq> (i, k)) (trn_active t)) \<le> trn_next t * max_retries cfg"
    using assms(1) spare_filter[of "max_retries cfg" "\<lambda>x. x \<noteq> (i, k)" "trn_active t"] unfolding transfer_inv_def by linarith
  moreover have "fst ` set (filter (\<lambda>x. x \<noteq> (i, k)) (trn_active t)) \<subseteq> {..<trn_next t}"
    using assms(1) by (auto simp: transfer_inv_def)
  ultimately show ?thesis
    using assms(1) unfolding transfer_inv_def by (simp add: distinct_map_filter)
qed

lemma transfer_step_inv:
  assumes "transfer_step sha cfg m bs t t'" "transfer_inv cfg m bs t" "tlen m = length bs" "man_digest m = sha bs"
  shows "transfer_inv cfg m bs t'"
  using assms(1)
proof (cases rule: transfer_step.cases)
  case start
  then show ?thesis
    using assms(2) by (auto simp: transfer_inv_def spare_def)
next
  case (deliver i k c res r)
  then show ?thesis
    using deliver_inv(1)[OF assms(2,3) deliver(3,4,5)] by simp
next
  case (acknowledge i k c r)
  have "transfer_inv cfg m bs (t\<lparr>trn_receiver := r\<rparr>)" "rcv_received r ! i"
    using deliver_inv[OF assms(2,3) acknowledge(3,4,5)] by simp_all
  then show ?thesis
    using acknowledge_inv[of cfg m bs "t\<lparr>trn_receiver := r\<rparr>" i k "trn_verified t + 1"] acknowledge(1,3) by simp
next
  case (retry i k e)
  define act where "act = map (\<lambda>x. if x = (i, k) then (i, k + 1) else x) (trn_active t)"
  have "spare (max_retries cfg) act + 1 = spare (max_retries cfg) (trn_active t)"
    using spare_retry[OF _ retry(3,5)] assms(2) by (simp add: transfer_inv_def act_def)
  moreover have "map fst act = map fst (trn_active t)" "fst ` set act = fst ` set (trn_active t)" "length act = length (trn_active t)"
    unfolding act_def by (simp_all only: map_fst_retry image_fst_retry length_map)
  moreover have "t' = t\<lparr>trn_active := act, trn_retries := trn_retries t + 1\<rparr>"
    using retry(1) by (simp add: act_def)
  ultimately show ?thesis
    using assms(2) by (simp add: transfer_inv_def)
next
  case (finish v)
  have "\<forall>i<ccount m. rcv_received (trn_receiver t) ! i"
    using assms(2) finish(3,4) by (simp add: transfer_inv_def)
  then obtain v' where "verify sha (man_snapshot_id m) (trn_receiver t) = Ok v'" "ver_bytes v' = bs"
    using verify_complete_snapshot[of "trn_receiver t" bs sha] assms(2-4) by (auto simp: transfer_inv_def)
  then show ?thesis
    using assms(2) finish verify_Ok(4)[OF finish(5)] by (simp add: transfer_inv_def)
qed (use assms(2) in \<open>simp_all add: transfer_inv_def\<close>)

lemma transfer_run_inv:
  assumes "(transfer_step sha cfg m bs)\<^sup>*\<^sup>* t t'" "transfer_inv cfg m bs t" "tlen m = length bs" "man_digest m = sha bs"
  shows "transfer_inv cfg m bs t'"
  using assms by (induction rule: rtranclp_induct) (auto intro: transfer_step_inv)

lemma transfer_begin_inv:
  assumes "receiver_new m = Ok r" "tlen m = length bs"
  shows "transfer_inv cfg m bs (transfer_begin r)"
proof -
  note n = receiver_new_ok[OF assms(1)]
  have "\<not> rcv_received r ! (j div csize m)" if "j < length bs" for j
    using n(3)[OF covers_byte] n(1,2) that assms(2) by (simp add: rcv_ok_def)
  then have "holds_part bs r"
    using n(2) by (simp add: holds_part_def)
  then show ?thesis
    using n by (simp add: transfer_inv_def transfer_begin_def spare_def)
qed

text \<open>A running transfer can always be completed.\<close>

lemma transfer_can_complete:
  assumes "transfer_inv cfg m bs t" "tlen m = length bs" "man_digest m = sha bs" "0 < max_concurrent_chunks cfg"
    and "trn_result t = Running"
  shows "\<exists>t' v. (transfer_step sha cfg m bs)\<^sup>*\<^sup>* t t' \<and> trn_result t' = Installed v"
  using assms
proof (induction "2 * (ccount m - trn_next t) + length (trn_active t)" arbitrary: t rule: less_induct)
  case less
  have go: "\<exists>t' v. (transfer_step sha cfg m bs)\<^sup>*\<^sup>* t t' \<and> trn_result t' = Installed v"
    if s: "transfer_step sha cfg m bs t t1" "trn_result t1 = Running"
      "2 * (ccount m - trn_next t1) + length (trn_active t1) < 2 * (ccount m - trn_next t) + length (trn_active t)" for t1
    using less.hyps[OF s(3) transfer_step_inv[OF s(1) less.prems(1-3)] less.prems(2-4) s(2)] s(1)
    by (meson converse_rtranclp_into_rtranclp)
  show ?case
  proof (cases "trn_active t")
    case (Cons a act)
    obtain i k where a: "a = (i, k)"
      by fastforce
    have i: "(i, k) \<in> set (trn_active t)" "i < ccount m"
      using Cons a less.prems(1) by (auto simp: transfer_inv_def)
    have inv: "rcv_ok (trn_receiver t)" "rcv_manifest (trn_receiver t) = m" "holds_part bs (trn_receiver t)" "covers m"
      using less.prems(1) by (auto simp: transfer_inv_def rcv_ok_def)
    obtain c where c: "build_chunk sha m bs (of_nat i) = Ok c"
      using build_chunk_genuine[OF inv(4) less.prems(2) i(2)] by metis
    obtain res r where r: "accept sha c (trn_receiver t) = Some (res, r)"
      using accept_total[OF inv(1)] by blast
    then have "res = Ok ()"
      using accept_genuine[OF inv(1,3) _ _ _ r, of i] inv(2) less.prems(2) i(2) c by simp
    then show ?thesis
      using go[OF acknowledge[OF less.prems(5) i(1) c]] r Cons a less.prems(5) by (simp add: less_Suc_eq_le)
  next
    case Nil
    show ?thesis
    proof (cases "trn_next t < ccount m")
      case True
      then show ?thesis
        using go[OF start[OF less.prems(5) True]] Nil less.prems(4,5) by simp
    next
      case False
      then have fin: "trn_next t = ccount m"
        using less.prems(1) by (simp add: transfer_inv_def)
      have "\<forall>i<ccount m. rcv_received (trn_receiver t) ! i"
        using less.prems(1) Nil fin by (simp add: transfer_inv_def)
      then obtain v where "verify sha (man_snapshot_id m) (trn_receiver t) = Ok v"
        using verify_complete_snapshot[of "trn_receiver t" bs sha] less.prems(1-3) by (auto simp: transfer_inv_def)
      then have "transfer_step sha cfg m bs t (t\<lparr>trn_result := Installed v\<rparr>)"
        using finish[OF less.prems(5) Nil fin] by blast
      then show ?thesis
        by (intro exI[of _ "t\<lparr>trn_result := Installed v\<rparr>"] exI[of _ v]) simp
    qed
  qed
qed

section \<open>Properties\<close>


definition demo_config :: snapshot_transfer_config where
  "demo_config = \<lparr>chunk_threshold = 1, cfg_chunk_size = 2, max_concurrent_chunks = 2, max_retries = 1, transfer_timeout = 1\<rparr>"

lemma demo_manifest:
  "manifest_from_bytes id ''s'' [1, 2, 3] (transfer_chunk_size demo_config [1, 2, 3]) =
     Ok \<lparr>man_snapshot_id = ''s'', man_total_len = 3, man_chunk_size = 2, man_chunk_count = 2, man_digest = [1, 2, 3]\<rparr>"
  by (simp add: manifest_from_bytes_def transfer_chunk_size_def demo_config_def div_ceil_def)

lemma demo_receiver:
  "\<exists>r. receiver_new \<lparr>man_snapshot_id = ''s'', man_total_len = 3, man_chunk_size = 2, man_chunk_count = 2, man_digest = [1, 2, 3]\<rparr> = Ok r"
  by (simp add: receiver_new_def validate_manifest_def div_ceil_def)


text \<open>
  (C34) The receiver is safe against any sender: no sequence of chunks, whatever their fields, makes it index out
  of bounds, and whatever it hands on as verified has the declared length and digest.
\<close>

theorem receiver_never_panics:
  assumes "receiver_new m = Ok r"
  shows "\<exists>r'. accept_all sha cs r = Some r' \<and>
    (\<forall>sid v. verify sha sid r' = Ok v \<longrightarrow>
       length (ver_bytes v) = unat (man_total_len m) \<and> sha (ver_bytes v) = man_digest m \<and> sid = man_snapshot_id m)"
proof -
  obtain r' where "accept_all sha cs r = Some r'" "rcv_ok r'" "rcv_manifest r' = m"
    using accept_all_ok[OF receiver_new_ok(1)[OF assms], of sha cs] receiver_new_ok(2)[OF assms] by auto
  then show ?thesis
    using verify_Ok by (fastforce simp: rcv_ok_def)
qed

theorem receiver_never_panics_witness:
  "\<exists>r r'. receiver_new \<lparr>man_snapshot_id = ''s'', man_total_len = 3, man_chunk_size = 2, man_chunk_count = 2, man_digest = [1, 2, 3]\<rparr> = Ok r \<and>
     accept_all id [\<lparr>chk_snapshot_id = ''s'', chk_index = 7, chk_offset = 0, chk_data = [9], chk_digest = []\<rparr>] r = Some r'"
proof -
  obtain r where r: "receiver_new \<lparr>man_snapshot_id = ''s'', man_total_len = 3, man_chunk_size = 2, man_chunk_count = 2,
      man_digest = [1, 2, 3]\<rparr> = Ok r"
    using demo_receiver by blast
  show ?thesis
    using receiver_never_panics[OF r, of id "[\<lparr>chk_snapshot_id = ''s'', chk_index = 7, chk_offset = 0, chk_data = [9], chk_digest = []\<rparr>]"] r
    by blast
qed

end
