(* ===== verification/Raft_Rpc.thy ===== *)
theory Raft_Rpc
  imports Transport Wal_Storage Snapshot_Transfer
begin

text \<open>
  Raft messages between nodes: \<^verbatim>\<open>alopex-chirps/src/raft/transport.rs\<close> and the message handling
  of \<^verbatim>\<open>raft/node.rs\<close>.  The requests and responses of openraft are modelled by their documented
  fields; openraft itself is the environment \<open>raft_env\<close>, the serialiser bincode the
  parameters \<open>ser\<close> and \<open>de\<close>.  A call of \<^verbatim>\<open>send_rpc\<close> runs as a task of its own, so
  the transport is a step relation over its calls and the frames that arrive.
\<close>

section \<open>Messages\<close>

record 'm append_entries_request =
  aer_vote :: vote
  aer_prev_log_id :: "log_id option"
  aer_entries :: "'m entry list"
  aer_leader_commit :: "log_id option"

datatype append_entries_response = Success | PartialSuccess "log_id option" | Conflict | HigherVote vote

record vote_request =
  vrq_vote :: vote
  vrq_last_log_id :: "log_id option"

record vote_response =
  vrs_vote :: vote
  vrs_vote_granted :: bool
  vrs_last_log_id :: "log_id option"

record 'm install_snapshot_request =
  isr_vote :: vote
  isr_meta :: "'m snapshot_meta"
  isr_offset :: u64
  isr_data :: bytes
  isr_done :: bool

record install_snapshot_response =
  isp_vote :: vote

record 'm raft_snapshot_begin =
  rsb_vote :: vote
  rsb_meta :: "'m snapshot_meta"
  rsb_manifest :: snapshot_manifest

datatype 'm raft_snapshot_request =
    SnapBegin "'m raft_snapshot_begin"
  | SnapChunk snapshot_chunk
  | SnapFinish string
  | SnapAbort string

datatype raft_snapshot_status =
    Accepted
  | ChunkVerified u32
  | SnapshotInstalled u64
  | RetryChunk u32 string
  | Rejected string
  | Aborted

record raft_snapshot_response =
  rsr_vote :: vote
  rsr_snapshot_id :: string
  rsr_status :: raft_snapshot_status

datatype 'm raft_message =
    AppendEntries group_id "'m append_entries_request"
  | AppendEntriesResponse group_id append_entries_response
  | Vote group_id vote_request
  | VoteResponse group_id vote_response
  | InstallSnapshot group_id "'m install_snapshot_request"
  | InstallSnapshotResponse group_id install_snapshot_response
  | SnapshotTransfer group_id "'m raft_snapshot_request"
  | SnapshotTransferResponse group_id raft_snapshot_response

fun source_node_id :: "'m raft_message \<Rightarrow> u64 option" where
  "source_node_id (AppendEntries _ req) = Some (vt_node (aer_vote req))"
| "source_node_id (Vote _ req) = Some (vt_node (vrq_vote req))"
| "source_node_id (InstallSnapshot _ req) = Some (vt_node (isr_vote req))"
| "source_node_id (SnapshotTransfer _ (SnapBegin b)) = Some (vt_node (rsb_vote b))"
| "source_node_id _ = None"

fun is_response :: "'m raft_message \<Rightarrow> bool" where
  "is_response (AppendEntriesResponse _ _) = True"
| "is_response (VoteResponse _ _) = True"
| "is_response (InstallSnapshotResponse _ _) = True"
| "is_response (SnapshotTransferResponse _ _) = True"
| "is_response _ = False"

fun message_group_id :: "'m raft_message \<Rightarrow> group_id" where
  "message_group_id (AppendEntries g _) = g"
| "message_group_id (AppendEntriesResponse g _) = g"
| "message_group_id (Vote g _) = g"
| "message_group_id (VoteResponse g _) = g"
| "message_group_id (InstallSnapshot g _) = g"
| "message_group_id (InstallSnapshotResponse g _) = g"
| "message_group_id (SnapshotTransfer g _) = g"
| "message_group_id (SnapshotTransferResponse g _) = g"

record 'm raft_frame_payload =
  fp_correlation_id :: u64
  fp_message :: "'m raft_message"

datatype rpc_types = RpcVote | RpcAppendEntries | RpcInstallSnapshot

fun response_matches :: "rpc_types \<Rightarrow> 'm raft_message \<Rightarrow> bool" where
  "response_matches RpcVote (VoteResponse _ _) = True"
| "response_matches RpcAppendEntries (AppendEntriesResponse _ _) = True"
| "response_matches RpcInstallSnapshot (InstallSnapshotResponse _ _) = True"
| "response_matches RpcInstallSnapshot (SnapshotTransferResponse _ _) = True"
| "response_matches _ _ = False"

section \<open>Frames and node identities\<close>

definition decode_raft_frame ::
  "(bytes \<Rightarrow> string + 'm raft_frame_payload) \<Rightarrow> frame \<Rightarrow> 'm raft_frame_payload option" where
  "decode_raft_frame de f =
     (case (case f of Raft d \<Rightarrow> Some d | RaftSnapshot d \<Rightarrow> Some d | _ \<Rightarrow> None) of
        None \<Rightarrow> None
      | Some d \<Rightarrow>
          (case de (rf_payload d) of
             Inl _ \<Rightarrow> None
           | Inr payload \<Rightarrow>
               if group_num (message_group_id (fp_message payload)) \<noteq> rf_group_id d then None else Some payload))"

fun in_snapshot_frame :: "'m raft_message \<Rightarrow> bool" where
  "in_snapshot_frame (InstallSnapshot _ _) = True"
| "in_snapshot_frame (InstallSnapshotResponse _ _) = True"
| "in_snapshot_frame (SnapshotTransfer _ _) = True"
| "in_snapshot_frame (SnapshotTransferResponse _ _) = True"
| "in_snapshot_frame _ = False"

definition encode_group_frame ::
  "('m raft_frame_payload \<Rightarrow> string + bytes) \<Rightarrow> 'm raft_frame_payload \<Rightarrow> string + frame" where
  "encode_group_frame ser payload =
     and_then (ser payload) (\<lambda>bs.
       let d = \<lparr>rf_group_id = group_num (message_group_id (fp_message payload)), rf_payload = bs\<rparr>
       in Ok (if in_snapshot_frame (fp_message payload) then RaftSnapshot d else Raft d))"

definition encode_canonical_node_id :: "u64 \<Rightarrow> node_id" where
  "encode_canonical_node_id i = NodeId (replicate 8 0 @ to_be_bytes i)"

fun decode_canonical_node_id :: "node_id \<Rightarrow> u64 option" where
  "decode_canonical_node_id (NodeId bs) =
     (if take 8 bs \<noteq> replicate 8 0 then None
      else if length (drop 8 bs) \<noteq> 8 then None else Some (from_be_bytes (drop 8 bs)))"

text \<open>The bytes of \<^verbatim>\<open>chirps-raft-node-id/v1\<close> and a zero byte.\<close>

definition RAFT_IDENTITY_MAGIC :: bytes where
  "RAFT_IDENTITY_MAGIC = [0x63, 0x68, 0x69, 0x72, 0x70, 0x73, 0x2D, 0x72, 0x61, 0x66, 0x74, 0x2D,
     0x6E, 0x6F, 0x64, 0x65, 0x2D, 0x69, 0x64, 0x2F, 0x76, 0x31, 0x00]"

section \<open>The transport of one group\<close>

text \<open>A waiting call is named by its number; it owns the receiving end of the one-shot channel.\<close>

record pending_rpc =
  pr_target :: u64
  pr_group_id :: group_id
  pr_rpc_type :: rpc_types
  pr_response :: nat

record raft_transport =
  rt_group_id :: group_id
  rt_node_id :: u64
  rt_next_corr :: u64
  rt_accepting_rpcs :: bool
  rt_pending :: "(u64 \<times> pending_rpc) list"
  rt_node_ids :: "(u64 \<times> node_id) list"
  rt_snapshot_config :: snapshot_transfer_config

definition raft_transport_new :: "group_id \<Rightarrow> u64 \<Rightarrow> raft_transport" where
  "raft_transport_new g n =
     \<lparr>rt_group_id = g, rt_node_id = n, rt_next_corr = 1, rt_accepting_rpcs = True, rt_pending = [],
      rt_node_ids = [], rt_snapshot_config = transfer_config_default\<rparr>"

definition fork_for_group :: "group_id \<Rightarrow> raft_transport \<Rightarrow> raft_transport" where
  "fork_for_group g t =
     (raft_transport_new g (rt_node_id t))\<lparr>rt_node_ids := rt_node_ids t, rt_snapshot_config := rt_snapshot_config t\<rparr>"

definition configure_snapshot_transfer ::
  "snapshot_transfer_config \<Rightarrow> raft_transport \<Rightarrow> (snapshot_transfer_error + unit) \<times> raft_transport" where
  "configure_snapshot_transfer cfg t =
     (case transfer_config_validate cfg of
        Inl e \<Rightarrow> (Err e, t)
      | Inr c \<Rightarrow> (Ok (), t\<lparr>rt_snapshot_config := c\<rparr>))"

definition identity_frame :: "raft_transport \<Rightarrow> frame" where
  "identity_frame t = User (RAFT_IDENTITY_MAGIC @ to_be_bytes (rt_node_id t))"

definition decode_identity_frame :: "frame \<Rightarrow> u64 option" where
  "decode_identity_frame f =
     (case f of
        User payload \<Rightarrow>
          (let n = length RAFT_IDENTITY_MAGIC
           in if take n payload \<noteq> RAFT_IDENTITY_MAGIC then None
              else if length (drop n payload) \<noteq> 8 then None else Some (from_be_bytes (drop n payload)))
      | _ \<Rightarrow> None)"

definition register_node_id :: "u64 \<Rightarrow> node_id \<Rightarrow> raft_transport \<Rightarrow> raft_transport" where
  "register_node_id raft_node_id wire_node_id t = t\<lparr>rt_node_ids := hm_insert raft_node_id wire_node_id (rt_node_ids t)\<rparr>"

definition decode_node_id :: "node_id \<Rightarrow> raft_transport \<Rightarrow> u64 option" where
  "decode_node_id wire_node_id t =
     (case find (\<lambda>(_, candidate). candidate = wire_node_id) (rt_node_ids t) of
        Some (raft_node_id, _) \<Rightarrow> Some raft_node_id
      | None \<Rightarrow> decode_canonical_node_id wire_node_id)"

definition encode_node_id :: "u64 \<Rightarrow> raft_transport \<Rightarrow> node_id" where
  "encode_node_id raft_node_id t =
     (case map_of (rt_node_ids t) raft_node_id of
        Some w \<Rightarrow> w
      | None \<Rightarrow> encode_canonical_node_id raft_node_id)"

definition encode_raft_frame ::
  "('m raft_frame_payload \<Rightarrow> string + bytes) \<Rightarrow> 'm raft_frame_payload \<Rightarrow> raft_transport \<Rightarrow> string + frame" where
  "encode_raft_frame ser payload t =
     (if message_group_id (fp_message payload) \<noteq> rt_group_id t then Err ''Raft group mismatch''
      else encode_group_frame ser payload)"

text \<open>
  \<^verbatim>\<open>consume_incoming\<close> and \<^verbatim>\<open>consume_incoming_from\<close>: the second component of the result is the call to wake
  with the message; a request is handed back.
\<close>

definition consume_incoming ::
  "'m raft_frame_payload \<Rightarrow> raft_transport
     \<Rightarrow> 'm raft_frame_payload option \<times> (nat \<times> 'm raft_message) option \<times> raft_transport" where
  "consume_incoming payload t =
     (if message_group_id (fp_message payload) \<noteq> rt_group_id t then (None, None, t)
      else case (if is_response (fp_message payload) then map_of (rt_pending t) (fp_correlation_id payload) else None) of
        Some p \<Rightarrow> (None, Some (pr_response p, fp_message payload),
                   t\<lparr>rt_pending := hm_remove (fp_correlation_id payload) (rt_pending t)\<rparr>)
      | None \<Rightarrow> (Some payload, None, t))"

definition consume_incoming_from ::
  "u64 \<Rightarrow> 'm raft_frame_payload \<Rightarrow> raft_transport
     \<Rightarrow> (transport_error + 'm raft_frame_payload option) \<times> (nat \<times> 'm raft_message) option \<times> raft_transport" where
  "consume_incoming_from source payload t =
     (let group = message_group_id (fp_message payload)
      in if group \<noteq> rt_group_id t then (Err (ConnectionError ''Raft group mismatch''), None, t)
         else if \<not> is_response (fp_message payload) then (Ok (Some payload), None, t)
         else case map_of (rt_pending t) (fp_correlation_id payload) of
           None \<Rightarrow> (Err (ConnectionError ''unknown Raft response correlation''), None, t)
         | Some p \<Rightarrow>
             if pr_target p \<noteq> source \<or> pr_group_id p \<noteq> group
             then (Err (ConnectionError ''Raft response route mismatch''), None, t)
             else if \<not> response_matches (pr_rpc_type p) (fp_message payload)
             then (Err (ConnectionError ''Raft response type mismatch''), None, t)
             else (Ok None, Some (pr_response p, fp_message payload),
                   t\<lparr>rt_pending := hm_remove (fp_correlation_id payload) (rt_pending t)\<rparr>))"

definition close_rpc_admission :: "raft_transport \<Rightarrow> raft_transport" where
  "close_rpc_admission t = t\<lparr>rt_accepting_rpcs := False\<rparr>"

definition cancel_pending_rpcs :: "raft_transport \<Rightarrow> raft_transport" where
  "cancel_pending_rpcs t = t\<lparr>rt_pending := []\<rparr>"

text \<open>What the code wraps in a \<^verbatim>\<open>NetworkError\<close>, and the errors of a call.\<close>

datatype network_cause =
  ShuttingDown | EncodeFailed string | ChannelClosed | TransportFailed transport_error | UnexpectedResponse

datatype rpc_error = RpcNetwork network_cause | RpcTimeout rpc_types u64 u64

fun map_transport_error :: "rpc_types \<Rightarrow> u64 \<Rightarrow> u64 \<Rightarrow> transport_error \<Rightarrow> rpc_error" where
  "map_transport_error rpc i target (TimeoutError _) = RpcTimeout rpc i target"
| "map_transport_error rpc i target err = RpcNetwork (TransportFailed err)"

section \<open>Calls\<close>

text \<open>
  A running \<^verbatim>\<open>send_rpc\<close>: its arguments, its correlation number, its place in the code and its one-shot
  channel.  In \<open>Encoded\<close> it holds its frame, in \<open>Registered\<close> it is in the pending table and the
  backend is sending, in \<open>Waiting\<close> it waits for the answer.  A call whose future is dropped before it
  ends is \<open>Dropped\<close>.
\<close>

datatype 'm call_phase = Encoded frame | Registered frame | Waiting | Done "rpc_error + 'm raft_message" | Dropped

datatype 'm one_shot = Open | Fired "'m raft_message" | Closed

record 'm rpc_call =
  rc_target :: u64
  rc_type :: rpc_types
  rc_corr :: u64
  rc_phase :: "'m call_phase"
  rc_channel :: "'m one_shot"

text \<open>
  The transport with its calls.  \<open>rs_sent\<close> are the frames given to the backend, \<open>rs_accepted\<close> the responses that
  were accepted for a call, \<open>rs_cancelled\<close> whether the pending calls have been cancelled after admission was closed.
\<close>

record 'm rpc_state =
  rs_transport :: raft_transport
  rs_calls :: "'m rpc_call list"
  rs_sent :: "(node_id \<times> frame) list"
  rs_accepted :: "(u64 \<times> 'm raft_frame_payload) list"
  rs_cancelled :: bool

definition rpc_init :: "raft_transport \<Rightarrow> 'm rpc_state" where
  "rpc_init t = \<lparr>rs_transport = t, rs_calls = [], rs_sent = [], rs_accepted = [], rs_cancelled = False\<rparr>"

definition set_phase :: "nat \<Rightarrow> 'm call_phase \<Rightarrow> 'm rpc_state \<Rightarrow> 'm rpc_state" where
  "set_phase c ph s = s\<lparr>rs_calls := (rs_calls s)[c := (rs_calls s ! c)\<lparr>rc_phase := ph\<rparr>]\<rparr>"

definition set_channel :: "nat \<Rightarrow> 'm one_shot \<Rightarrow> 'm rpc_state \<Rightarrow> 'm rpc_state" where
  "set_channel c ch s = s\<lparr>rs_calls := (rs_calls s)[c := (rs_calls s ! c)\<lparr>rc_channel := ch\<rparr>]\<rparr>"

text \<open>The first part of \<^verbatim>\<open>send_rpc\<close>: admission, correlation number, encoding.\<close>

definition rpc_start ::
  "('m raft_frame_payload \<Rightarrow> string + bytes) \<Rightarrow> u64 \<Rightarrow> rpc_types \<Rightarrow> 'm raft_message \<Rightarrow> 'm rpc_state \<Rightarrow> 'm rpc_state" where
  "rpc_start ser target rpc_type message s =
     (let t = rs_transport s
      in if \<not> rt_accepting_rpcs t
         then s\<lparr>rs_calls := rs_calls s @ [\<lparr>rc_target = target, rc_type = rpc_type, rc_corr = 0,
                  rc_phase = Done (Err (RpcNetwork ShuttingDown)), rc_channel = Closed\<rparr>]\<rparr>
         else
           let corr = rt_next_corr t;
               ph = (case encode_raft_frame ser \<lparr>fp_correlation_id = corr, fp_message = message\<rparr> t of
                       Inl e \<Rightarrow> Done (Err (RpcNetwork (EncodeFailed e)))
                     | Inr f \<Rightarrow> Encoded f)
           in s\<lparr>rs_transport := t\<lparr>rt_next_corr := corr + 1\<rparr>,
                rs_calls := rs_calls s @ [\<lparr>rc_target = target, rc_type = rpc_type, rc_corr = corr,
                  rc_phase = ph, rc_channel = Open\<rparr>]\<rparr>)"

text \<open>The block under the lock of the pending table, which checks admission again.\<close>

definition rpc_register :: "nat \<Rightarrow> frame \<Rightarrow> 'm rpc_state \<Rightarrow> 'm rpc_state" where
  "rpc_register c f s =
     (let t = rs_transport s; call = rs_calls s ! c
      in if \<not> rt_accepting_rpcs t then set_phase c (Done (Err (RpcNetwork ShuttingDown))) s
         else set_phase c (Registered f) (s\<lparr>rs_transport := t\<lparr>rt_pending :=
                hm_insert (rc_corr call)
                  \<lparr>pr_target = rc_target call, pr_group_id = rt_group_id t, pr_rpc_type = rc_type call, pr_response = c\<rparr>
                  (rt_pending t)\<rparr>\<rparr>))"

text \<open>
  The end of a registered call: the guard \<^verbatim>\<open>PendingRegistration\<close> removes the entry of its correlation
  number, whose sender, if it is still there, is dropped with it.
\<close>

definition rpc_finish :: "nat \<Rightarrow> 'm call_phase \<Rightarrow> 'm rpc_state \<Rightarrow> 'm rpc_state" where
  "rpc_finish c ph s =
     (let t = rs_transport s
      in set_phase c ph (s\<lparr>rs_transport := t\<lparr>rt_pending := hm_remove (rc_corr (rs_calls s ! c)) (rt_pending t)\<rparr>\<rparr>))"

text \<open>The answer of the backend to the send.\<close>

definition rpc_sent :: "nat \<Rightarrow> frame \<Rightarrow> (transport_error + unit) \<Rightarrow> 'm rpc_state \<Rightarrow> 'm rpc_state" where
  "rpc_sent c f res s =
     (let call = rs_calls s ! c; t = rs_transport s;
          s1 = s\<lparr>rs_sent := rs_sent s @ [(encode_node_id (rc_target call) t, f)]\<rparr>
      in case res of
           Inl e \<Rightarrow> rpc_finish c (Done (Err (map_transport_error (rc_type call) (rt_node_id t) (rc_target call) e))) s1
         | Inr _ \<Rightarrow> set_phase c Waiting s1)"

text \<open>A frame arrives and is given to \<^verbatim>\<open>consume_incoming_from\<close>; an accepted response fires the channel of its call.\<close>

definition rpc_incoming :: "u64 \<Rightarrow> 'm raft_frame_payload \<Rightarrow> 'm rpc_state \<Rightarrow> 'm rpc_state" where
  "rpc_incoming source payload s =
     (case consume_incoming_from source payload (rs_transport s) of
        (_, Some (c, m), t) \<Rightarrow>
          set_channel c (Fired m) (s\<lparr>rs_transport := t, rs_accepted := rs_accepted s @ [(source, payload)]\<rparr>)
      | (_, None, t) \<Rightarrow> s\<lparr>rs_transport := t\<rparr>)"

text \<open>Shutdown closes admission; cancelling drops the senders of all pending calls.\<close>

definition rpc_close :: "'m rpc_state \<Rightarrow> 'm rpc_state" where
  "rpc_close s = s\<lparr>rs_transport := close_rpc_admission (rs_transport s)\<rparr>"

definition close_channels :: "nat set \<Rightarrow> 'm rpc_call list \<Rightarrow> 'm rpc_call list" where
  "close_channels cs calls = map (\<lambda>(i, call). if i \<in> cs then call\<lparr>rc_channel := Closed\<rparr> else call) (enumerate 0 calls)"

definition rpc_cancel :: "'m rpc_state \<Rightarrow> 'm rpc_state" where
  "rpc_cancel s =
     s\<lparr>rs_calls := close_channels (set (map (pr_response \<circ> snd) (rt_pending (rs_transport s)))) (rs_calls s),
       rs_transport := cancel_pending_rpcs (rs_transport s),
       rs_cancelled := (rs_cancelled s \<or> \<not> rt_accepting_rpcs (rs_transport s))\<rparr>"

abbreviation phase :: "'m rpc_state \<Rightarrow> nat \<Rightarrow> 'm call_phase" where
  "phase s c \<equiv> rc_phase (rs_calls s ! c)"

inductive rpc_step :: "('m raft_frame_payload \<Rightarrow> string + bytes) \<Rightarrow> 'm rpc_state \<Rightarrow> 'm rpc_state \<Rightarrow> bool"
  for ser where
  start: "rpc_step ser s (rpc_start ser target rpc_type message s)"
| register: "c < length (rs_calls s) \<Longrightarrow> phase s c = Encoded f \<Longrightarrow> rpc_step ser s (rpc_register c f s)"
| drop_encoded: "c < length (rs_calls s) \<Longrightarrow> phase s c = Encoded f \<Longrightarrow> rpc_step ser s (set_phase c Dropped s)"
| sent: "c < length (rs_calls s) \<Longrightarrow> phase s c = Registered f \<Longrightarrow> rpc_step ser s (rpc_sent c f res s)"
| drop_registered: "c < length (rs_calls s) \<Longrightarrow> phase s c = Registered f \<Longrightarrow> rpc_step ser s (rpc_finish c Dropped s)"
| answered: "c < length (rs_calls s) \<Longrightarrow> phase s c = Waiting \<Longrightarrow> rc_channel (rs_calls s ! c) = Fired m \<Longrightarrow>
    rpc_step ser s (rpc_finish c (Done (Ok m)) s)"
| closed: "c < length (rs_calls s) \<Longrightarrow> phase s c = Waiting \<Longrightarrow> rc_channel (rs_calls s ! c) = Closed \<Longrightarrow>
    rpc_step ser s (rpc_finish c (Done (Err (RpcNetwork ChannelClosed))) s)"
| timed_out: "c < length (rs_calls s) \<Longrightarrow> phase s c = Waiting \<Longrightarrow>
    rpc_step ser s (rpc_finish c (Done (Err (RpcTimeout (rc_type (rs_calls s ! c)) (rt_node_id (rs_transport s))
      (rc_target (rs_calls s ! c))))) s)"
| drop_waiting: "c < length (rs_calls s) \<Longrightarrow> phase s c = Waiting \<Longrightarrow> rpc_step ser s (rpc_finish c Dropped s)"
| incoming: "rpc_step ser s (rpc_incoming source payload s)"
| learn: "rpc_step ser s (s\<lparr>rs_transport := register_node_id i w (rs_transport s)\<rparr>)"
| close: "rpc_step ser s (rpc_close s)"
| cancel: "rpc_step ser s (rpc_cancel s)"

section \<open>The invariant of the calls\<close>

fun awaiting :: "'m call_phase \<Rightarrow> bool" where
  "awaiting (Registered _) = True"
| "awaiting Waiting = True"
| "awaiting _ = False"

text \<open>Correlation numbers are handed out in order; a call refused before it got one has number 0.\<close>

definition numbered :: "'m rpc_state \<Rightarrow> bool" where
  "numbered s \<longleftrightarrow> (\<exists>k. filter (\<lambda>x. x \<noteq> 0) (map rc_corr (rs_calls s)) = map (\<lambda>j. of_nat (Suc j)) [0..<k] \<and>
     rt_next_corr (rs_transport s) = of_nat (Suc k))"

definition pending_ok :: "'m rpc_state \<Rightarrow> u64 \<Rightarrow> pending_rpc \<Rightarrow> bool" where
  "pending_ok s k p \<longleftrightarrow> pr_response p < length (rs_calls s) \<and> k \<noteq> 0 \<and> pr_group_id p = rt_group_id (rs_transport s) \<and>
     rc_corr (rs_calls s ! pr_response p) = k \<and> rc_target (rs_calls s ! pr_response p) = pr_target p \<and>
     rc_type (rs_calls s ! pr_response p) = pr_rpc_type p \<and> awaiting (phase s (pr_response p)) \<and>
     rc_channel (rs_calls s ! pr_response p) = Open"

definition answers :: "'m rpc_state \<Rightarrow> nat \<Rightarrow> 'm raft_message \<Rightarrow> u64 \<Rightarrow> 'm raft_frame_payload \<Rightarrow> bool" where
  "answers s c m source payload \<longleftrightarrow> (source, payload) \<in> set (rs_accepted s) \<and> source = rc_target (rs_calls s ! c) \<and>
     fp_correlation_id payload = rc_corr (rs_calls s ! c) \<and> fp_message payload = m \<and>
     response_matches (rc_type (rs_calls s ! c)) m \<and> message_group_id m = rt_group_id (rs_transport s)"

definition call_ok :: "'m rpc_state \<Rightarrow> nat \<Rightarrow> bool" where
  "call_ok s c \<longleftrightarrow>
     (awaiting (phase s c) \<longrightarrow> rc_corr (rs_calls s ! c) \<noteq> 0) \<and>
     (awaiting (phase s c) \<and> rc_channel (rs_calls s ! c) = Open \<longrightarrow>
        (\<exists>p. map_of (rt_pending (rs_transport s)) (rc_corr (rs_calls s ! c)) = Some p \<and> pr_response p = c)) \<and>
     (\<forall>m. rc_channel (rs_calls s ! c) = Fired m \<longrightarrow> (\<exists>source payload. answers s c m source payload)) \<and>
     (\<forall>m. phase s c = Done (Ok m) \<longrightarrow> rc_channel (rs_calls s ! c) = Fired m) \<and>
     (\<forall>f. phase s c = Encoded f \<longrightarrow> rc_channel (rs_calls s ! c) = Open \<and> rc_corr (rs_calls s ! c) \<noteq> 0)"

definition accepted_ok :: "'m rpc_state \<Rightarrow> bool" where
  "accepted_ok s \<longleftrightarrow> distinct (map (fp_correlation_id \<circ> snd) (rs_accepted s)) \<and>
     (\<forall>(source, payload) \<in> set (rs_accepted s). \<exists>c < length (rs_calls s).
        rc_corr (rs_calls s ! c) = fp_correlation_id payload \<and> rc_corr (rs_calls s ! c) \<noteq> 0 \<and>
        rc_channel (rs_calls s ! c) = Fired (fp_message payload))"

definition rpc_inv :: "'m rpc_state \<Rightarrow> bool" where
  "rpc_inv s \<longleftrightarrow> numbered s \<and> distinct (map fst (rt_pending (rs_transport s))) \<and>
     (\<forall>k p. map_of (rt_pending (rs_transport s)) k = Some p \<longrightarrow> pending_ok s k p) \<and>
     (\<forall>c < length (rs_calls s). call_ok s c) \<and> accepted_ok s \<and>
     (rs_cancelled s \<longrightarrow> \<not> rt_accepting_rpcs (rs_transport s) \<and> rt_pending (rs_transport s) = [])"

lemma rpc_invD:
  assumes "rpc_inv s"
  shows "numbered s" "distinct (map fst (rt_pending (rs_transport s)))"
    "\<And>k p. map_of (rt_pending (rs_transport s)) k = Some p \<Longrightarrow> pending_ok s k p"
    "\<And>c. c < length (rs_calls s) \<Longrightarrow> call_ok s c" "accepted_ok s"
    "rs_cancelled s \<Longrightarrow> \<not> rt_accepting_rpcs (rs_transport s) \<and> rt_pending (rs_transport s) = []"
  using assms by (auto simp: rpc_inv_def)

lemma map_update_same: "f y = f (xs ! c) \<Longrightarrow> map f (xs[c := y]) = map f xs"
  by (metis list_update_beyond list_update_id map_update not_le)

lemma map_corr_update [simp]:
  "map rc_corr (xs[c := (xs ! c)\<lparr>rc_phase := ph\<rparr>]) = map rc_corr xs"
  "map rc_corr (xs[c := (xs ! c)\<lparr>rc_channel := ch\<rparr>]) = map rc_corr xs"
  by (simp_all add: map_update_same)

lemma filter_nth_inj:
  assumes "distinct (filter P xs)" "i < length xs" "j < length xs" "xs ! i = xs ! j" "P (xs ! i)"
  shows "i = j"
proof (rule ccontr)
  assume "i \<noteq> j"
  then show False
    using assms
  proof (induction xs arbitrary: i j)
    case (Cons x xs)
    then show ?case
      by (cases i; cases j) (auto simp: in_set_conv_nth split: if_splits)
  qed simp
qed

lemma numbered_unique:
  assumes "numbered s" "length (rs_calls s) < 2 ^ 64 - 1" "c < length (rs_calls s)" "d < length (rs_calls s)"
    and "rc_corr (rs_calls s ! c) = rc_corr (rs_calls s ! d)" "rc_corr (rs_calls s ! c) \<noteq> 0"
  shows "c = d"
proof -
  obtain k where k: "filter (\<lambda>x. x \<noteq> 0) (map rc_corr (rs_calls s)) = map (\<lambda>j. of_nat (Suc j)) [0..<k]"
    using assms(1) by (auto simp: numbered_def)
  have "k \<le> length (rs_calls s)"
    using arg_cong[OF k, of length] length_filter_le[of "\<lambda>x. x \<noteq> 0" "map rc_corr (rs_calls s)"] by simp
  then have "inj_on (\<lambda>j. of_nat (Suc j) :: u64) {0..<k}"
    using assms(2) by (intro inj_onI) (auto simp: word_unat_eq_iff unat_of_nat simp del: of_nat_Suc)
  then have "distinct (filter (\<lambda>x. x \<noteq> 0) (map rc_corr (rs_calls s)))"
    by (simp add: k distinct_map del: of_nat_Suc)
  from filter_nth_inj[OF this, of c d] show ?thesis
    using assms(3-) by simp
qed

lemma rpc_init_inv: "rpc_inv (rpc_init (raft_transport_new g n) :: 'm rpc_state)"
  by (simp add: rpc_inv_def rpc_init_def raft_transport_new_def numbered_def accepted_ok_def)

lemma set_phase_simps [simp]:
  "rs_transport (set_phase c ph s) = rs_transport s" "rs_accepted (set_phase c ph s) = rs_accepted s"
  "rs_cancelled (set_phase c ph s) = rs_cancelled s" "length (rs_calls (set_phase c ph s)) = length (rs_calls s)"
  "map rc_corr (rs_calls (set_phase c ph s)) = map rc_corr (rs_calls s)"
  by (simp_all add: set_phase_def)

lemma set_channel_simps [simp]:
  "rs_transport (set_channel c ch s) = rs_transport s" "rs_accepted (set_channel c ch s) = rs_accepted s"
  "rs_cancelled (set_channel c ch s) = rs_cancelled s" "length (rs_calls (set_channel c ch s)) = length (rs_calls s)"
  "map rc_corr (rs_calls (set_channel c ch s)) = map rc_corr (rs_calls s)"
  by (simp_all add: set_channel_def)

lemma call_set_phase:
  "c < length (rs_calls s) \<Longrightarrow>
     rs_calls (set_phase c ph s) ! d = (if d = c then (rs_calls s ! c)\<lparr>rc_phase := ph\<rparr> else rs_calls s ! d)"
  by (simp add: set_phase_def)

lemma call_set_channel:
  "c < length (rs_calls s) \<Longrightarrow>
     rs_calls (set_channel c ch s) ! d = (if d = c then (rs_calls s ! c)\<lparr>rc_channel := ch\<rparr> else rs_calls s ! d)"
  by (simp add: set_channel_def)

lemma nth_update_same: "f y = f (xs ! c) \<Longrightarrow> f (xs[c := y] ! d) = f (xs ! d)"
  by (cases "c < length xs"; cases "c = d") (simp_all add: list_update_beyond)

lemma call_fields_set_phase [simp]:
  "rc_corr (rs_calls (set_phase c ph s) ! d) = rc_corr (rs_calls s ! d)"
  "rc_target (rs_calls (set_phase c ph s) ! d) = rc_target (rs_calls s ! d)"
  "rc_type (rs_calls (set_phase c ph s) ! d) = rc_type (rs_calls s ! d)"
  "rc_channel (rs_calls (set_phase c ph s) ! d) = rc_channel (rs_calls s ! d)"
  by (simp_all add: set_phase_def nth_update_same)

lemma call_fields_set_channel [simp]:
  "rc_corr (rs_calls (set_channel c ch s) ! d) = rc_corr (rs_calls s ! d)"
  "rc_target (rs_calls (set_channel c ch s) ! d) = rc_target (rs_calls s ! d)"
  "rc_type (rs_calls (set_channel c ch s) ! d) = rc_type (rs_calls s ! d)"
  "rc_phase (rs_calls (set_channel c ch s) ! d) = rc_phase (rs_calls s ! d)"
  by (simp_all add: set_channel_def nth_update_same)

lemma numbered_simps [simp]:
  "numbered (set_phase c ph s) \<longleftrightarrow> numbered s" "numbered (set_channel c ch s) \<longleftrightarrow> numbered s"
  "rt_next_corr t = rt_next_corr (rs_transport s) \<Longrightarrow> numbered (s\<lparr>rs_transport := t\<rparr>) \<longleftrightarrow> numbered s"
  "numbered (s\<lparr>rs_accepted := a\<rparr>) \<longleftrightarrow> numbered s" "numbered (s\<lparr>rs_sent := x\<rparr>) \<longleftrightarrow> numbered s"
  by (simp_all add: numbered_def)

lemma accepted_ok_simps [simp]:
  "accepted_ok (set_phase c ph s) \<longleftrightarrow> accepted_ok s" "accepted_ok (s\<lparr>rs_transport := t\<rparr>) \<longleftrightarrow> accepted_ok s"
  "accepted_ok (s\<lparr>rs_sent := x\<rparr>) \<longleftrightarrow> accepted_ok s"
  by (simp_all add: accepted_ok_def)

lemma accepted_okD:
  assumes "accepted_ok s" "(source, payload) \<in> set (rs_accepted s)"
  shows "\<exists>c < length (rs_calls s). rc_corr (rs_calls s ! c) = fp_correlation_id payload \<and>
    rc_corr (rs_calls s ! c) \<noteq> 0 \<and> rc_channel (rs_calls s ! c) = Fired (fp_message payload)"
  using assms by (auto simp: accepted_ok_def)

lemma set_phase_inv:
  assumes inv: "rpc_inv s" and c: "c < length (rs_calls s)"
    and ph: "awaiting ph = awaiting (phase s c)" "\<And>m. ph \<noteq> Done (Ok m)" "\<And>f. ph \<noteq> Encoded f"
  shows "rpc_inv (set_phase c ph s)"
proof -
  have pend: "pending_ok (set_phase c ph s) k p \<longleftrightarrow> pending_ok s k p" for k p
    using ph(1) by (auto simp: pending_ok_def call_set_phase[OF c])
  have calls: "call_ok (set_phase c ph s) d" if "d < length (rs_calls s)" for d
    using rpc_invD(4)[OF inv that] ph by (cases "d = c") (auto simp: call_ok_def answers_def call_set_phase[OF c])
  have "numbered (set_phase c ph s)" "accepted_ok (set_phase c ph s)"
    using rpc_invD(1,5)[OF inv] by simp_all
  then show ?thesis
    using rpc_invD[OF inv] calls by (simp add: rpc_inv_def pend)
qed

lemma rpc_finish_inv:
  assumes inv: "rpc_inv s" and c: "c < length (rs_calls s)" and b: "length (rs_calls s) < 2 ^ 64 - 1"
    and aw: "awaiting (phase s c)" and ph: "\<not> awaiting ph" "\<And>f. ph \<noteq> Encoded f"
    and m: "\<And>m. ph = Done (Ok m) \<Longrightarrow> rc_channel (rs_calls s ! c) = Fired m"
  shows "rpc_inv (rpc_finish c ph s)"
proof -
  let ?t = "rs_transport s" and ?k = "rc_corr (rs_calls s ! c)"
  let ?s = "s\<lparr>rs_transport := ?t\<lparr>rt_pending := hm_remove ?k (rt_pending ?t)\<rparr>\<rparr>"
  have s: "rpc_finish c ph s = set_phase c ph ?s"
    by (simp add: rpc_finish_def Let_def)
  have k0: "?k \<noteq> 0"
    using rpc_invD(4)[OF inv c] aw by (simp add: call_ok_def)
  have pend: "pending_ok (set_phase c ph ?s) k p" if "map_of (hm_remove ?k (rt_pending ?t)) k = Some p" for k p
  proof -
    have k: "k \<noteq> ?k" "pending_ok s k p"
      using that rpc_invD(3)[OF inv, of k p] by (auto simp: delete_conv split: if_splits)
    then have "pr_response p \<noteq> c"
      by (auto simp: pending_ok_def)
    then show ?thesis
      using k(2) c by (simp add: pending_ok_def call_set_phase)
  qed
  have calls: "call_ok (set_phase c ph ?s) d" if d: "d < length (rs_calls s)" for d
  proof (cases "d = c")
    case True
    then show ?thesis
      using rpc_invD(4)[OF inv c] ph m by (auto simp: call_ok_def answers_def call_set_phase c)
  next
    case False
    have "rc_corr (rs_calls s ! d) \<noteq> ?k \<or> rc_corr (rs_calls s ! d) = 0"
      using numbered_unique[OF rpc_invD(1)[OF inv] b d c] False by auto
    then show ?thesis
      using rpc_invD(4)[OF inv d] False by (auto simp: call_ok_def answers_def call_set_phase c delete_conv)
  qed
  have "numbered (set_phase c ph ?s)" "accepted_ok (set_phase c ph ?s)"
    using rpc_invD(1,5)[OF inv] by simp_all
  then show ?thesis
    unfolding s using rpc_invD[OF inv] calls pend by (auto simp: rpc_inv_def distinct_delete)
qed

lemma rpc_register_inv:
  assumes inv: "rpc_inv s" and c: "c < length (rs_calls s)" and b: "length (rs_calls s) < 2 ^ 64 - 1"
    and enc: "phase s c = Encoded f"
  shows "rpc_inv (rpc_register c f s)"
proof (cases "rt_accepting_rpcs (rs_transport s)")
  case False
  then show ?thesis
    using set_phase_inv[OF inv c] enc by (simp add: rpc_register_def Let_def)
next
  case True
  let ?t = "rs_transport s" and ?k = "rc_corr (rs_calls s ! c)"
  let ?p = "\<lparr>pr_target = rc_target (rs_calls s ! c), pr_group_id = rt_group_id ?t, pr_rpc_type = rc_type (rs_calls s ! c), pr_response = c\<rparr>"
  let ?s = "s\<lparr>rs_transport := ?t\<lparr>rt_pending := hm_insert ?k ?p (rt_pending ?t)\<rparr>\<rparr>"
  have s: "rpc_register c f s = set_phase c (Registered f) ?s"
    using True by (simp add: rpc_register_def Let_def)
  have k0: "?k \<noteq> 0" "rc_channel (rs_calls s ! c) = Open"
    using rpc_invD(4)[OF inv c] enc by (auto simp: call_ok_def)
  have pend: "pending_ok (set_phase c (Registered f) ?s) k p" if "map_of (hm_insert ?k ?p (rt_pending ?t)) k = Some p" for k p
  proof (cases "k = ?k")
    case True
    then show ?thesis
      using that k0 c by (auto simp: pending_ok_def call_set_phase update_conv)
  next
    case False
    then have p: "pending_ok s k p"
      using that rpc_invD(3)[OF inv, of k p] by (simp add: update_conv)
    then show ?thesis
      using enc c by (auto simp: pending_ok_def call_set_phase)
  qed
  have calls: "call_ok (set_phase c (Registered f) ?s) d" if d: "d < length (rs_calls s)" for d
  proof (cases "d = c")
    case True
    then show ?thesis
      using rpc_invD(4)[OF inv c] k0 by (auto simp: call_ok_def answers_def call_set_phase c update_conv)
  next
    case False
    have "rc_corr (rs_calls s ! d) \<noteq> ?k \<or> rc_corr (rs_calls s ! d) = 0"
      using numbered_unique[OF rpc_invD(1)[OF inv] b d c] False by auto
    then show ?thesis
      using rpc_invD(4)[OF inv d] False by (auto simp: call_ok_def answers_def call_set_phase c update_conv)
  qed
  have "numbered (set_phase c (Registered f) ?s)" "accepted_ok (set_phase c (Registered f) ?s)"
    using rpc_invD(1,5)[OF inv] by simp_all
  then show ?thesis
    unfolding s using rpc_invD[OF inv] calls pend True by (auto simp: rpc_inv_def distinct_update)
qed

lemma accepted_ok_fire:
  assumes acc: "accepted_ok s" and c: "c < length (rs_calls s)" "rc_channel (rs_calls s ! c) = Open"
    "fp_correlation_id payload = rc_corr (rs_calls s ! c)" "rc_corr (rs_calls s ! c) \<noteq> 0"
    and uniq: "\<And>d. d < length (rs_calls s) \<Longrightarrow> rc_corr (rs_calls s ! d) = rc_corr (rs_calls s ! c) \<Longrightarrow> d = c"
  shows "accepted_ok (set_channel c (Fired (fp_message payload))
    (s\<lparr>rs_transport := t, rs_accepted := rs_accepted s @ [(source, payload)]\<rparr>))" (is "accepted_ok ?s")
proof -
  have old: "\<exists>d < length (rs_calls s). d \<noteq> c \<and> rc_corr (rs_calls s ! d) = fp_correlation_id q \<and> rc_corr (rs_calls s ! d) \<noteq> 0 \<and>
      rc_channel (rs_calls ?s ! d) = Fired (fp_message q)" if q: "(source', q) \<in> set (rs_accepted s)" for source' q
  proof -
    obtain d where d: "d < length (rs_calls s)" "rc_corr (rs_calls s ! d) = fp_correlation_id q" "rc_corr (rs_calls s ! d) \<noteq> 0"
      "rc_channel (rs_calls s ! d) = Fired (fp_message q)"
      using accepted_okD[OF acc q] by blast
    then have "d \<noteq> c"
      using c(2) by auto
    then show ?thesis
      using d c by (intro exI[of _ d]) (simp add: call_set_channel)
  qed
  have neq: "fp_correlation_id q \<noteq> fp_correlation_id payload" if "(source', q) \<in> set (rs_accepted s)" for source' q
    using old[OF that] uniq c(3) by auto
  have "fp_correlation_id payload \<notin> (fp_correlation_id \<circ> snd) ` set (rs_accepted s)"
  proof
    assume "fp_correlation_id payload \<in> (fp_correlation_id \<circ> snd) ` set (rs_accepted s)"
    then obtain x where "x \<in> set (rs_accepted s)" "fp_correlation_id payload = fp_correlation_id (snd x)"
      by auto
    then show False
      using neq[of "fst x" "snd x"] by simp
  qed
  then have "distinct (map (fp_correlation_id \<circ> snd) (rs_accepted ?s))"
    using acc by (simp add: accepted_ok_def)
  moreover have "\<exists>d < length (rs_calls ?s). rc_corr (rs_calls ?s ! d) = fp_correlation_id q \<and> rc_corr (rs_calls ?s ! d) \<noteq> 0 \<and>
      rc_channel (rs_calls ?s ! d) = Fired (fp_message q)" if "(source', q) \<in> set (rs_accepted ?s)" for source' q
  proof (cases "(source', q) \<in> set (rs_accepted s)")
    case True
    then show ?thesis
      using old by auto
  next
    case False
    then have "q = payload"
      using that by simp
    then show ?thesis
      using c by (intro exI[of _ c]) (simp add: call_set_channel)
  qed
  ultimately show ?thesis
    unfolding accepted_ok_def by blast
qed

lemma rpc_incoming_inv:
  assumes inv: "rpc_inv s" and b: "length (rs_calls s) < 2 ^ 64 - 1"
  shows "rpc_inv (rpc_incoming source payload s)"
proof -
  let ?t = "rs_transport s" and ?k = "fp_correlation_id payload"
  show ?thesis
  proof (cases "fst (snd (consume_incoming_from source payload ?t))")
    case None
    then have "rpc_incoming source payload s = s"
      by (auto simp: rpc_incoming_def consume_incoming_from_def Let_def split: if_splits option.splits)
    then show ?thesis
      using inv by simp
  next
    case (Some cm)
    then obtain p where p: "map_of (rt_pending ?t) ?k = Some p" "pr_target p = source"
      "pr_group_id p = message_group_id (fp_message payload)" "message_group_id (fp_message payload) = rt_group_id ?t"
      "response_matches (pr_rpc_type p) (fp_message payload)"
      and con: "snd (consume_incoming_from source payload ?t) =
        (Some (pr_response p, fp_message payload), ?t\<lparr>rt_pending := hm_remove ?k (rt_pending ?t)\<rparr>)"
      by (auto simp: consume_incoming_from_def Let_def split: if_splits option.splits)
    let ?c = "pr_response p"
    let ?s = "s\<lparr>rs_transport := ?t\<lparr>rt_pending := hm_remove ?k (rt_pending ?t)\<rparr>, rs_accepted := rs_accepted s @ [(source, payload)]\<rparr>"
    have s: "rpc_incoming source payload s = set_channel ?c (Fired (fp_message payload)) ?s"
      using con by (cases "consume_incoming_from source payload ?t") (simp add: rpc_incoming_def)
    note ok = rpc_invD(3)[OF inv p(1), unfolded pending_ok_def]
    have uniq: "d = ?c" if "d < length (rs_calls s)" "rc_corr (rs_calls s ! d) = ?k" for d
      by (rule numbered_unique[OF rpc_invD(1)[OF inv] b that(1)]) (use ok that(2) in simp_all)
    have pend: "pending_ok (set_channel ?c (Fired (fp_message payload)) ?s) k q"
      if "map_of (hm_remove ?k (rt_pending ?t)) k = Some q" for k q
      using that rpc_invD(3)[OF inv, of k q] ok by (auto simp: pending_ok_def call_set_channel delete_conv split: if_splits)
    have calls: "call_ok (set_channel ?c (Fired (fp_message payload)) ?s) d" if d: "d < length (rs_calls s)" for d
    proof (cases "d = ?c")
      case True
      then show ?thesis
        using rpc_invD(4)[OF inv d] ok p by (auto simp: call_ok_def answers_def call_set_channel)
    next
      case False
      then show ?thesis
        using rpc_invD(4)[OF inv d] ok uniq[OF d] by (auto simp: call_ok_def answers_def call_set_channel delete_conv)
    qed
    have "accepted_ok (set_channel ?c (Fired (fp_message payload)) ?s)"
      by (rule accepted_ok_fire) (use rpc_invD(5)[OF inv] ok uniq in simp_all)
    moreover have "numbered (set_channel ?c (Fired (fp_message payload)) ?s)"
      using rpc_invD(1)[OF inv] by simp
    ultimately show ?thesis
      unfolding s using rpc_invD[OF inv] calls pend by (auto simp: rpc_inv_def distinct_delete)
  qed
qed

lemma add_call_inv:
  assumes inv: "rpc_inv s" and new: "\<not> awaiting (rc_phase call)" "\<And>m. rc_phase call \<noteq> Done (Ok m)" "\<And>m. rc_channel call \<noteq> Fired m"
    "\<And>f. rc_phase call = Encoded f \<Longrightarrow> rc_channel call = Open \<and> rc_corr call \<noteq> 0"
    and num: "numbered (s\<lparr>rs_transport := (rs_transport s)\<lparr>rt_next_corr := n\<rparr>, rs_calls := rs_calls s @ [call]\<rparr>)"
  shows "rpc_inv (s\<lparr>rs_transport := (rs_transport s)\<lparr>rt_next_corr := n\<rparr>, rs_calls := rs_calls s @ [call]\<rparr>)" (is "rpc_inv ?s")
proof -
  have old: "rs_calls ?s ! c = rs_calls s ! c" if "c < length (rs_calls s)" for c
    using that by (simp add: nth_append)
  have calls: "call_ok ?s c" if "c < length (rs_calls ?s)" for c
  proof (cases "c < length (rs_calls s)")
    case True
    then show ?thesis
      using rpc_invD(4)[OF inv True] by (simp add: call_ok_def answers_def nth_append)
  next
    case False
    then have "c = length (rs_calls s)"
      using that by simp
    then show ?thesis
      using new by (simp add: call_ok_def nth_append)
  qed
  have pend: "pending_ok ?s k p" if "map_of (rt_pending (rs_transport s)) k = Some p" for k p
    using rpc_invD(3)[OF inv that] by (simp add: pending_ok_def nth_append)
  have "accepted_ok ?s"
    unfolding accepted_ok_def
  proof (intro conjI ballI)
    show "distinct (map (fp_correlation_id \<circ> snd) (rs_accepted ?s))"
      using rpc_invD(5)[OF inv] by (simp add: accepted_ok_def)
    fix x assume "x \<in> set (rs_accepted ?s)"
    then obtain c where c: "c < length (rs_calls s)" "rc_corr (rs_calls s ! c) = fp_correlation_id (snd x)"
      "rc_corr (rs_calls s ! c) \<noteq> 0" "rc_channel (rs_calls s ! c) = Fired (fp_message (snd x))"
      using accepted_okD[OF rpc_invD(5)[OF inv], of "fst x" "snd x"] by auto
    then show "case x of (source, payload) \<Rightarrow> \<exists>c < length (rs_calls ?s). rc_corr (rs_calls ?s ! c) = fp_correlation_id payload \<and>
        rc_corr (rs_calls ?s ! c) \<noteq> 0 \<and> rc_channel (rs_calls ?s ! c) = Fired (fp_message payload)"
      using c by (cases x) (simp, intro exI[of _ c], simp add: nth_append)
  qed
  then show ?thesis
    using rpc_invD[OF inv] num calls pend by (simp add: rpc_inv_def)
qed

lemma rpc_start_inv:
  fixes s :: "'m rpc_state"
  assumes inv: "rpc_inv s" and b: "length (rs_calls s) < 2 ^ 64 - 2"
  shows "rpc_inv (rpc_start ser target rpc_type message s)"
proof -
  obtain k where k: "filter (\<lambda>x. x \<noteq> 0) (map rc_corr (rs_calls s)) = map (\<lambda>j. of_nat (Suc j)) [0..<k]"
    "rt_next_corr (rs_transport s) = of_nat (Suc k)"
    using rpc_invD(1)[OF inv] by (auto simp: numbered_def)
  have "k \<le> length (rs_calls s)"
    using arg_cong[OF k(1), of length] length_filter_le[of "\<lambda>x. x \<noteq> 0" "map rc_corr (rs_calls s)"] by simp
  then have nz: "(of_nat (Suc k) :: u64) \<noteq> 0"
    using b by (simp add: word_unat_eq_iff unat_of_nat del: of_nat_Suc)
  show ?thesis
  proof (cases "rt_accepting_rpcs (rs_transport s)")
    case False
    let ?call = "\<lparr>rc_target = target, rc_type = rpc_type, rc_corr = 0, rc_phase = Done (Err (RpcNetwork ShuttingDown)), rc_channel = Closed\<rparr>"
    have "rpc_inv (s\<lparr>rs_transport := (rs_transport s)\<lparr>rt_next_corr := rt_next_corr (rs_transport s)\<rparr>, rs_calls := rs_calls s @ [?call]\<rparr>)"
      by (rule add_call_inv[OF inv]) (use k in \<open>auto simp: numbered_def simp del: of_nat_Suc\<close>)
    then show ?thesis
      using False by (simp add: rpc_start_def Let_def)
  next
    case True
    define ph :: "'m call_phase" where "ph = (case encode_raft_frame ser \<lparr>fp_correlation_id = rt_next_corr (rs_transport s), fp_message = message\<rparr> (rs_transport s) of
      Inl e \<Rightarrow> Done (Err (RpcNetwork (EncodeFailed e))) | Inr f \<Rightarrow> Encoded f)"
    have "numbered (s\<lparr>rs_transport := (rs_transport s)\<lparr>rt_next_corr := rt_next_corr (rs_transport s) + 1\<rparr>,
      rs_calls := rs_calls s @ [\<lparr>rc_target = target, rc_type = rpc_type, rc_corr = rt_next_corr (rs_transport s), rc_phase = ph, rc_channel = Open\<rparr>]\<rparr>)"
      unfolding numbered_def using k nz by (intro exI[of _ "Suc k"]) (simp del: of_nat_Suc, simp)
    then have "rpc_inv (s\<lparr>rs_transport := (rs_transport s)\<lparr>rt_next_corr := rt_next_corr (rs_transport s) + 1\<rparr>,
      rs_calls := rs_calls s @ [\<lparr>rc_target = target, rc_type = rpc_type, rc_corr = rt_next_corr (rs_transport s), rc_phase = ph, rc_channel = Open\<rparr>]\<rparr>)"
      by (intro add_call_inv[OF inv]) (use nz k(2) in \<open>auto simp: ph_def simp del: of_nat_Suc split: sum.splits\<close>)
    then show ?thesis
      using True by (simp add: rpc_start_def Let_def ph_def)
  qed
qed

lemma nth_close_channels:
  "c < length calls \<Longrightarrow> close_channels cs calls ! c = (if c \<in> cs then (calls ! c)\<lparr>rc_channel := Closed\<rparr> else calls ! c)"
  by (simp add: close_channels_def nth_enumerate_eq)

lemma length_close_channels [simp]: "length (close_channels cs calls) = length calls"
  by (simp add: close_channels_def)

lemma map_corr_close_channels [simp]: "map rc_corr (close_channels cs calls) = map rc_corr calls"
  by (rule nth_equalityI) (simp_all add: nth_close_channels)

lemma rpc_cancel_inv:
  assumes inv: "rpc_inv s"
  shows "rpc_inv (rpc_cancel s)"
proof -
  let ?cs = "set (map (pr_response \<circ> snd) (rt_pending (rs_transport s)))"
  have cs: "awaiting (phase s c) \<and> rc_channel (rs_calls s ! c) = Open" if c: "c \<in> ?cs" for c
  proof -
    obtain k p where "(k, p) \<in> set (rt_pending (rs_transport s))" "c = pr_response p"
      using c by auto
    then show ?thesis
      using rpc_invD(3)[OF inv, of k p] rpc_invD(2)[OF inv] by (simp add: pending_ok_def)
  qed
  have calls: "call_ok (rpc_cancel s) c" if c: "c < length (rs_calls s)" for c
  proof (cases "c \<in> ?cs")
    case True
    then show ?thesis
      using rpc_invD(4)[OF inv c] cs[OF True] c
      by (cases "phase s c") (auto simp: call_ok_def rpc_cancel_def nth_close_channels)
  next
    case False
    have "\<not> (awaiting (phase s c) \<and> rc_channel (rs_calls s ! c) = Open)"
    proof
      assume "awaiting (phase s c) \<and> rc_channel (rs_calls s ! c) = Open"
      then obtain p where "map_of (rt_pending (rs_transport s)) (rc_corr (rs_calls s ! c)) = Some p" "pr_response p = c"
        using rpc_invD(4)[OF inv c] by (auto simp: call_ok_def)
      then show False
        using False by (force dest: map_of_SomeD)
    qed
    then show ?thesis
      using rpc_invD(4)[OF inv c] False c
      by (auto simp: call_ok_def answers_def rpc_cancel_def nth_close_channels cancel_pending_rpcs_def)
  qed
  have "accepted_ok (rpc_cancel s)"
    unfolding accepted_ok_def
  proof (intro conjI ballI)
    show "distinct (map (fp_correlation_id \<circ> snd) (rs_accepted (rpc_cancel s)))"
      using rpc_invD(5)[OF inv] by (simp add: accepted_ok_def rpc_cancel_def)
    fix x assume "x \<in> set (rs_accepted (rpc_cancel s))"
    then obtain c where c: "c < length (rs_calls s)" "rc_corr (rs_calls s ! c) = fp_correlation_id (snd x)"
      "rc_corr (rs_calls s ! c) \<noteq> 0" "rc_channel (rs_calls s ! c) = Fired (fp_message (snd x))"
      using accepted_okD[OF rpc_invD(5)[OF inv], of "fst x" "snd x"] by (auto simp: rpc_cancel_def)
    then have "c \<notin> ?cs"
      using cs[of c] by (metis one_shot.distinct(1))
    then show "case x of (source, payload) \<Rightarrow> \<exists>c < length (rs_calls (rpc_cancel s)).
        rc_corr (rs_calls (rpc_cancel s) ! c) = fp_correlation_id payload \<and>
        rc_corr (rs_calls (rpc_cancel s) ! c) \<noteq> 0 \<and> rc_channel (rs_calls (rpc_cancel s) ! c) = Fired (fp_message payload)"
      using c by (cases x) (simp, intro exI[of _ c], simp add: rpc_cancel_def nth_close_channels)
  qed
  moreover have "numbered (rpc_cancel s)"
    using rpc_invD(1)[OF inv] by (simp add: numbered_def rpc_cancel_def cancel_pending_rpcs_def)
  ultimately show ?thesis
    using calls rpc_invD(6)[OF inv]
    unfolding rpc_inv_def by (auto simp: rpc_cancel_def cancel_pending_rpcs_def)
qed

lemma transport_only_inv:
  assumes inv: "rpc_inv s" and t: "rt_pending t = rt_pending (rs_transport s)" "rt_next_corr t = rt_next_corr (rs_transport s)"
    "rt_group_id t = rt_group_id (rs_transport s)" "rt_accepting_rpcs t \<Longrightarrow> rt_accepting_rpcs (rs_transport s)"
  shows "rpc_inv (s\<lparr>rs_transport := t\<rparr>)"
  using rpc_invD[OF inv] t by (auto simp: rpc_inv_def pending_ok_def call_ok_def answers_def)

lemma sent_only_inv: "rpc_inv (s\<lparr>rs_sent := x\<rparr>) \<longleftrightarrow> rpc_inv s"
  by (simp add: rpc_inv_def pending_ok_def call_ok_def answers_def)

lemma rpc_sent_inv:
  assumes "rpc_inv s" "c < length (rs_calls s)" "length (rs_calls s) < 2 ^ 64 - 1" "phase s c = Registered f"
  shows "rpc_inv (rpc_sent c f res s)"
  using assms by (cases res) (auto simp: rpc_sent_def Let_def sent_only_inv intro!: rpc_finish_inv set_phase_inv)

lemma rpc_step_length: "rpc_step ser s s' \<Longrightarrow> length (rs_calls s) \<le> length (rs_calls s')"
proof (induction rule: rpc_step.induct)
  case (incoming s source payload)
  then show ?case
    by (simp add: rpc_incoming_def split: prod.split option.split)
qed (auto simp: rpc_start_def rpc_register_def rpc_finish_def rpc_sent_def rpc_close_def rpc_cancel_def Let_def split: sum.split)

lemma rpc_step_inv:
  assumes "rpc_step ser s s'" "rpc_inv s" "length (rs_calls s') < 2 ^ 64 - 1"
  shows "rpc_inv s'"
proof -
  have b: "length (rs_calls s) < 2 ^ 64 - 1"
    using rpc_step_length[OF assms(1)] assms(3) by linarith
  from assms(1) show ?thesis
  proof cases
    case (start target rpc_type message)
    then have "length (rs_calls s') = length (rs_calls s) + 1"
      by (simp add: rpc_start_def Let_def)
    then show ?thesis
      using rpc_start_inv[OF assms(2)] assms(3) start by simp
  next
    case (incoming source payload)
    then show ?thesis
      using rpc_incoming_inv[OF assms(2) b] by simp
  next
    case (register c f)
    then show ?thesis
      using rpc_register_inv[OF assms(2) _ b] by simp
  next
    case (drop_encoded c f)
    then show ?thesis
      using set_phase_inv[OF assms(2)] by simp
  next
    case (sent c f res)
    then show ?thesis
      using rpc_sent_inv[OF assms(2) _ b] by simp
  next
    case (drop_registered c f)
    then show ?thesis
      using rpc_finish_inv[OF assms(2) _ b, of c Dropped] by simp
  next
    case (answered c m)
    then show ?thesis
      using rpc_finish_inv[OF assms(2) _ b, of c "Done (Ok m)"] by simp
  next
    case (closed c)
    then show ?thesis
      using rpc_finish_inv[OF assms(2) _ b, of c "Done (Err (RpcNetwork ChannelClosed))"] by simp
  next
    case (timed_out c)
    then show ?thesis
      using rpc_finish_inv[OF assms(2) _ b, of c "Done (Err (RpcTimeout (rc_type (rs_calls s ! c)) (rt_node_id (rs_transport s)) (rc_target (rs_calls s ! c))))"]
      by simp
  next
    case (drop_waiting c)
    then show ?thesis
      using rpc_finish_inv[OF assms(2) _ b, of c Dropped] by simp
  next
    case (learn i w)
    then show ?thesis
      by (auto simp: register_node_id_def intro!: transport_only_inv[OF assms(2)])
  next
    case close
    then show ?thesis
      by (auto simp: rpc_close_def close_rpc_admission_def intro!: transport_only_inv[OF assms(2)])
  next
    case cancel
    then show ?thesis
      using rpc_cancel_inv[OF assms(2)] by simp
  qed
qed

lemma rpc_step_group: "rpc_step ser s s' \<Longrightarrow> rt_group_id (rs_transport s') = rt_group_id (rs_transport s)"
proof (induction rule: rpc_step.induct)
  case (incoming s source payload)
  then show ?case
    by (auto simp: rpc_incoming_def consume_incoming_from_def Let_def split: option.split)
qed (auto simp: rpc_start_def rpc_register_def rpc_finish_def rpc_sent_def rpc_close_def rpc_cancel_def register_node_id_def
  close_rpc_admission_def cancel_pending_rpcs_def Let_def split: sum.split)

lemma rpc_run_inv:
  assumes "(rpc_step ser)\<^sup>*\<^sup>* s s'" "rpc_inv s" "length (rs_calls s') < 2 ^ 64 - 1"
  shows "rpc_inv s' \<and> rt_group_id (rs_transport s') = rt_group_id (rs_transport s)"
  using assms
proof (induction rule: rtranclp_induct)
  case (step y z)
  then show ?case
    using rpc_step_length[of ser y z] rpc_step_inv[of ser y z] rpc_step_group[of ser y z] by force
qed simp

lemma response_matches_is_response: "response_matches ty m \<Longrightarrow> is_response m"
  by (cases ty; cases m) simp_all

lemma rpc_incoming_fires:
  assumes inv: "rpc_inv s" and c: "c < length (rs_calls s)" "awaiting (phase s c)" "rc_channel (rs_calls s ! c) = Open"
    and m: "response_matches (rc_type (rs_calls s ! c)) m" "message_group_id m = rt_group_id (rs_transport s)"
  shows "rc_channel (rs_calls (rpc_incoming (rc_target (rs_calls s ! c))
    \<lparr>fp_correlation_id = rc_corr (rs_calls s ! c), fp_message = m\<rparr> s) ! c) = Fired m"
proof -
  obtain p where p: "map_of (rt_pending (rs_transport s)) (rc_corr (rs_calls s ! c)) = Some p" "pr_response p = c"
    using rpc_invD(4)[OF inv c(1)] c by (auto simp: call_ok_def)
  then have "pr_target p = rc_target (rs_calls s ! c)" "pr_group_id p = rt_group_id (rs_transport s)" "pr_rpc_type p = rc_type (rs_calls s ! c)"
    using rpc_invD(3)[OF inv p(1)] by (simp_all add: pending_ok_def)
  then show ?thesis
    using p m c(1) response_matches_is_response[OF m(1)]
    by (simp add: rpc_incoming_def consume_incoming_from_def call_set_channel)
qed

section \<open>Handling messages\<close>

datatype raft_error =
    NotLeader "u64 option"
  | ProposalTimeout
  | StorageFailure string
  | NetworkFailure string
  | InvalidMessage string
  | MembershipChangeInProgress
  | SnapshotFailure string
  | NodeNotFound u64
  | Internal string

text \<open>The errors of openraft as the code tells them apart.\<close>

datatype openraft_error =
    ApiMembershipInProgress
  | ApiForwardToLeader "u64 option"
  | ApiOther string
  | FatalStorage string
  | FatalPanicked
  | FatalStopped

fun raft_error_from :: "openraft_error \<Rightarrow> raft_error" where
  "raft_error_from ApiMembershipInProgress = MembershipChangeInProgress"
| "raft_error_from (ApiForwardToLeader l) = Internal ''forward to leader''"
| "raft_error_from (ApiOther s) = Internal s"
| "raft_error_from (FatalStorage s) = StorageFailure s"
| "raft_error_from FatalPanicked = Internal ''Raft panicked''"
| "raft_error_from FatalStopped = Internal ''Raft stopped''"

text \<open>
  What the node uses of openraft, on a state \<open>'r\<close> of its core: the protocol handlers, the current vote, the
  order of votes, and the snapshot positions that its metrics show after an installation until
  the wait times out or the core stops.
\<close>

record ('m, 'r) raft_env =
  re_append_entries :: "'m append_entries_request \<Rightarrow> 'r \<Rightarrow> (openraft_error + append_entries_response) \<times> 'r"
  re_vote :: "vote_request \<Rightarrow> 'r \<Rightarrow> (openraft_error + vote_response) \<times> 'r"
  re_install_snapshot :: "'m install_snapshot_request \<Rightarrow> 'r \<Rightarrow> (openraft_error + install_snapshot_response) \<times> 'r"
  re_install_full_snapshot :: "vote \<Rightarrow> 'm snapshot_meta \<Rightarrow> bytes \<Rightarrow> 'r \<Rightarrow> (openraft_error + vote) \<times> 'r"
  re_client_write :: "bytes \<Rightarrow> 'r \<Rightarrow> (openraft_error + bytes) \<times> 'r"
  re_metrics_vote :: "'r \<Rightarrow> vote"
  re_snapshots_seen :: "'r \<Rightarrow> log_id option list"
  re_vote_lt :: "vote \<Rightarrow> vote \<Rightarrow> bool"
  re_sha :: "bytes \<Rightarrow> bytes"
  re_openraft_text :: "openraft_error \<Rightarrow> string"

record 'm incoming_snapshot =
  ins_vote :: vote
  ins_meta :: "'m snapshot_meta"
  ins_receiver :: snapshot_receiver

record ('m, 'r) raft_node =
  rn_group_id :: group_id
  rn_node_id :: u64
  rn_raft :: 'r
  rn_incoming_snapshots :: "(string \<times> 'm incoming_snapshot) list"

fun transfer_error_text :: "snapshot_transfer_error \<Rightarrow> string" where
  "transfer_error_text (InvalidConfig s) = ''invalid snapshot transfer configuration: '' @ s"
| "transfer_error_text (InvalidManifest s) = ''invalid snapshot manifest: '' @ s"
| "transfer_error_text (Integrity s) = ''snapshot integrity check failed: '' @ s"
| "transfer_error_text (Retryable s) = ''retryable snapshot transfer failure: '' @ s"
| "transfer_error_text (Terminal s) = ''terminal snapshot transfer failure: '' @ s"
| "transfer_error_text TransferTimeout = ''snapshot transfer timed out''"

definition wait_for_snapshot_apply :: "log_id option \<Rightarrow> log_id option list \<Rightarrow> bool" where
  "wait_for_snapshot_apply expected observed =
     (case expected of
        None \<Rightarrow> True
      | Some e \<Rightarrow> list_ex (\<lambda>x. case x of None \<Rightarrow> False | Some applied \<Rightarrow> li_index applied \<ge> li_index e) observed)"

text \<open>
  \<^verbatim>\<open>handle_snapshot_transfer\<close>, one definition per kind of request.  Besides the status they return the
  arguments of the call of \<^verbatim>\<open>install_full_snapshot\<close>, if there was one.  \<open>None\<close> is a panic of the receiver.
\<close>

definition snapshot_begin ::
  "('m, 'r) raft_env \<Rightarrow> 'm raft_snapshot_begin \<Rightarrow> ('m, 'r) raft_node \<Rightarrow> raft_snapshot_status \<times> ('m, 'r) raft_node" where
  "snapshot_begin env b node =
     (if re_vote_lt env (rsb_vote b) (re_metrics_vote env (rn_raft node))
      then (Rejected ''snapshot sender has a stale vote'', node)
      else case receiver_new (rsb_manifest b) of
        Inl e \<Rightarrow> (Rejected (transfer_error_text e), node)
      | Inr r \<Rightarrow>
          (Accepted, node\<lparr>rn_incoming_snapshots :=
             hm_insert (man_snapshot_id (rsb_manifest b))
               \<lparr>ins_vote = rsb_vote b, ins_meta = rsb_meta b, ins_receiver = r\<rparr> (rn_incoming_snapshots node)\<rparr>))"

definition snapshot_accept_chunk ::
  "('m, 'r) raft_env \<Rightarrow> snapshot_chunk \<Rightarrow> ('m, 'r) raft_node \<Rightarrow> (raft_snapshot_status \<times> ('m, 'r) raft_node) option" where
  "snapshot_accept_chunk env c node =
     (case map_of (rn_incoming_snapshots node) (chk_snapshot_id c) of
        None \<Rightarrow> Some (Rejected ''snapshot transfer session not found'', node)
      | Some ses \<Rightarrow>
          (case accept (re_sha env) c (ins_receiver ses) of
             None \<Rightarrow> None
           | Some (res, r) \<Rightarrow>
               Some (case res of Inr _ \<Rightarrow> ChunkVerified (chk_index c)
                     | Inl (Integrity reason) \<Rightarrow> RetryChunk (chk_index c) reason
                     | Inl e \<Rightarrow> Rejected (transfer_error_text e),
                     node\<lparr>rn_incoming_snapshots :=
                       hm_insert (chk_snapshot_id c) (ses\<lparr>ins_receiver := r\<rparr>) (rn_incoming_snapshots node)\<rparr>)))"

definition snapshot_finish ::
  "('m, 'r) raft_env \<Rightarrow> string \<Rightarrow> ('m, 'r) raft_node
     \<Rightarrow> raft_snapshot_status \<times> (vote \<times> 'm snapshot_meta \<times> bytes) option \<times> ('m, 'r) raft_node" where
  "snapshot_finish env sid node =
     (let node1 = node\<lparr>rn_incoming_snapshots := hm_remove sid (rn_incoming_snapshots node)\<rparr>
      in case map_of (rn_incoming_snapshots node) sid of
           None \<Rightarrow> (Rejected ''snapshot transfer session not found'', None, node1)
         | Some ses \<Rightarrow>
             (case verify (re_sha env) sid (ins_receiver ses) of
                Inl e \<Rightarrow> (Rejected (transfer_error_text e), None, node1)
              | Inr v \<Rightarrow>
                  (let (res, raft) = re_install_full_snapshot env (ins_vote ses) (ins_meta ses) (ver_bytes v) (rn_raft node1);
                       node2 = node1\<lparr>rn_raft := raft\<rparr>;
                       call = Some (ins_vote ses, ins_meta ses, ver_bytes v)
                   in case res of
                        Inl e \<Rightarrow> (Rejected (re_openraft_text env e), call, node2)
                      | Inr _ \<Rightarrow>
                          (if wait_for_snapshot_apply (sm_last_log_id (ins_meta ses)) (re_snapshots_seen env raft)
                           then SnapshotInstalled (of_nat (length (ver_bytes v)))
                           else Rejected ''snapshot durable apply did not complete before timeout'', call, node2))))"

fun handle_snapshot_transfer ::
  "('m, 'r) raft_env \<Rightarrow> 'm raft_snapshot_request \<Rightarrow> ('m, 'r) raft_node
     \<Rightarrow> (raft_snapshot_response \<times> (vote \<times> 'm snapshot_meta \<times> bytes) option \<times> ('m, 'r) raft_node) option" where
  "handle_snapshot_transfer env (SnapBegin b) node =
     (let (status, node1) = snapshot_begin env b node
      in Some (\<lparr>rsr_vote = re_metrics_vote env (rn_raft node1), rsr_snapshot_id = man_snapshot_id (rsb_manifest b),
                rsr_status = status\<rparr>, None, node1))"
| "handle_snapshot_transfer env (SnapChunk c) node =
     (case snapshot_accept_chunk env c node of
        None \<Rightarrow> None
      | Some (status, node1) \<Rightarrow>
          Some (\<lparr>rsr_vote = re_metrics_vote env (rn_raft node1), rsr_snapshot_id = chk_snapshot_id c, rsr_status = status\<rparr>, None, node1))"
| "handle_snapshot_transfer env (SnapFinish sid) node =
     (let (status, call, node1) = snapshot_finish env sid node
      in Some (\<lparr>rsr_vote = re_metrics_vote env (rn_raft node1), rsr_snapshot_id = sid, rsr_status = status\<rparr>, call, node1))"
| "handle_snapshot_transfer env (SnapAbort sid) node =
     (let node1 = node\<lparr>rn_incoming_snapshots := hm_remove sid (rn_incoming_snapshots node)\<rparr>
      in Some (\<lparr>rsr_vote = re_metrics_vote env (rn_raft node1), rsr_snapshot_id = sid, rsr_status = Aborted\<rparr>, None, node1))"

fun node_handle ::
  "('m, 'r) raft_env \<Rightarrow> 'm raft_message \<Rightarrow> ('m, 'r) raft_node
     \<Rightarrow> ((raft_error + 'm raft_message) \<times> (vote \<times> 'm snapshot_meta \<times> bytes) option \<times> ('m, 'r) raft_node) option" where
  "node_handle env (AppendEntries _ req) node =
     (let (res, raft) = re_append_entries env req (rn_raft node); node1 = node\<lparr>rn_raft := raft\<rparr>
      in Some (case res of Inl e \<Rightarrow> Err (raft_error_from e) | Inr r \<Rightarrow> Ok (AppendEntriesResponse (rn_group_id node) r), None, node1))"
| "node_handle env (Vote _ req) node =
     (let (res, raft) = re_vote env req (rn_raft node); node1 = node\<lparr>rn_raft := raft\<rparr>
      in Some (case res of Inl e \<Rightarrow> Err (raft_error_from e) | Inr r \<Rightarrow> Ok (VoteResponse (rn_group_id node) r), None, node1))"
| "node_handle env (InstallSnapshot _ req) node =
     (let (res, raft) = re_install_snapshot env req (rn_raft node); node1 = node\<lparr>rn_raft := raft\<rparr>
      in Some (case res of Inl e \<Rightarrow> Err (raft_error_from e) | Inr r \<Rightarrow> Ok (InstallSnapshotResponse (rn_group_id node) r), None, node1))"
| "node_handle env (SnapshotTransfer _ req) node =
     map_option (\<lambda>(r, call, node1). (Ok (SnapshotTransferResponse (rn_group_id node) r), call, node1))
       (handle_snapshot_transfer env req node)"
| "node_handle env (AppendEntriesResponse _ r) node = Some (Ok (AppendEntriesResponse (rn_group_id node) r), None, node)"
| "node_handle env (VoteResponse _ r) node = Some (Ok (VoteResponse (rn_group_id node) r), None, node)"
| "node_handle env (InstallSnapshotResponse _ r) node = Some (Ok (InstallSnapshotResponse (rn_group_id node) r), None, node)"
| "node_handle env (SnapshotTransferResponse _ r) node = Some (Ok (SnapshotTransferResponse (rn_group_id node) r), None, node)"

definition handle_message ::
  "('m, 'r) raft_env \<Rightarrow> 'm raft_frame_payload \<Rightarrow> ('m, 'r) raft_node
     \<Rightarrow> ((raft_error + 'm raft_message) \<times> (vote \<times> 'm snapshot_meta \<times> bytes) option \<times> ('m, 'r) raft_node) option" where
  "handle_message env payload node =
     (if message_group_id (fp_message payload) \<noteq> rn_group_id node then Some (Err (InvalidMessage ''group mismatch''), None, node)
      else node_handle env (fp_message payload) node)"

definition node_propose ::
  "('m, 'r) raft_env \<Rightarrow> bytes \<Rightarrow> ('m, 'r) raft_node \<Rightarrow> (raft_error + bytes) \<times> ('m, 'r) raft_node" where
  "node_propose env command node =
     (let (res, raft) = re_client_write env command (rn_raft node)
      in (case res of
            Inr data \<Rightarrow> Ok data
          | Inl (ApiForwardToLeader l) \<Rightarrow> Err (NotLeader l)
          | Inl e \<Rightarrow> Err (Internal (re_openraft_text env e)), node\<lparr>rn_raft := raft\<rparr>))"

section \<open>Snapshot sessions\<close>

text \<open>
  A run of the node: messages are handled one after the other, and in between the core of openraft moves on its
  own (elections, replication).  The log records, for every snapshot request, the vote of the node before it, the
  answer, and the installation it triggered.
\<close>

datatype ('m, 'r) node_event = Handle "'m raft_frame_payload" | CoreMoves 'r

record 'm session_log_entry =
  sl_request :: "'m raft_snapshot_request"
  sl_vote :: vote
  sl_status :: raft_snapshot_status
  sl_install :: "(vote \<times> 'm snapshot_meta \<times> bytes) option"

fun log_of_message ::
  "'m raft_message \<Rightarrow> vote \<Rightarrow> (raft_error + 'm raft_message) \<Rightarrow> (vote \<times> 'm snapshot_meta \<times> bytes) option
     \<Rightarrow> 'm session_log_entry list" where
  "log_of_message (SnapshotTransfer _ req) v (Inr (SnapshotTransferResponse _ r)) call =
     [\<lparr>sl_request = req, sl_vote = v, sl_status = rsr_status r, sl_install = call\<rparr>]"
| "log_of_message _ _ _ _ = []"

fun node_step ::
  "('m, 'r) raft_env \<Rightarrow> ('m, 'r) node_event \<Rightarrow> 'm session_log_entry list \<times> ('m, 'r) raft_node
     \<Rightarrow> ('m session_log_entry list \<times> ('m, 'r) raft_node) option" where
  "node_step env (CoreMoves r) (lg, node) = Some (lg, node\<lparr>rn_raft := r\<rparr>)"
| "node_step env (Handle payload) (lg, node) =
     map_option (\<lambda>(res, call, node1).
         (lg @ log_of_message (fp_message payload) (re_metrics_vote env (rn_raft node)) res call, node1))
       (handle_message env payload node)"

fun node_run ::
  "('m, 'r) raft_env \<Rightarrow> ('m, 'r) node_event list \<Rightarrow> 'm session_log_entry list \<times> ('m, 'r) raft_node
     \<Rightarrow> ('m session_log_entry list \<times> ('m, 'r) raft_node) option" where
  "node_run env [] st = Some st"
| "node_run env (e # es) st = (case node_step env e st of None \<Rightarrow> None | Some st' \<Rightarrow> node_run env es st')"

text \<open>Requests that end the session of an identifier: completion, abort, or an accepted new announcement.\<close>

definition ends_session :: "string \<Rightarrow> 'm session_log_entry \<Rightarrow> bool" where
  "ends_session sid e \<longleftrightarrow>
     (case sl_request e of
        SnapBegin b \<Rightarrow> man_snapshot_id (rsb_manifest b) = sid \<and> sl_status e = Accepted
      | SnapChunk _ \<Rightarrow> False
      | SnapFinish s \<Rightarrow> s = sid
      | SnapAbort s \<Rightarrow> s = sid)"

definition announced ::
  "('m, 'r) raft_env \<Rightarrow> 'm session_log_entry list \<Rightarrow> nat \<Rightarrow> 'm raft_snapshot_begin \<Rightarrow> bool" where
  "announced env lg i b \<longleftrightarrow> i < length lg \<and> sl_request (lg ! i) = SnapBegin b \<and> sl_status (lg ! i) = Accepted \<and>
     \<not> re_vote_lt env (rsb_vote b) (sl_vote (lg ! i)) \<and>
     (\<forall>k. i < k \<and> k < length lg \<longrightarrow> \<not> ends_session (man_snapshot_id (rsb_manifest b)) (lg ! k))"

definition session_ok ::
  "('m, 'r) raft_env \<Rightarrow> 'm session_log_entry list \<Rightarrow> string \<Rightarrow> 'm incoming_snapshot \<Rightarrow> bool" where
  "session_ok env lg sid ses \<longleftrightarrow> rcv_ok (ins_receiver ses) \<and>
     (\<exists>i b. announced env lg i b \<and> man_snapshot_id (rsb_manifest b) = sid \<and> rsb_vote b = ins_vote ses \<and>
        rsb_meta b = ins_meta ses \<and> rcv_manifest (ins_receiver ses) = rsb_manifest b)"

definition install_ok :: "('m, 'r) raft_env \<Rightarrow> 'm session_log_entry list \<Rightarrow> nat \<Rightarrow> bool" where
  "install_ok env lg j \<longleftrightarrow> (\<forall>v meta bs. sl_install (lg ! j) = Some (v, meta, bs) \<longrightarrow>
     (\<exists>i b. announced env (take j lg) i b \<and> rsb_vote b = v \<and> rsb_meta b = meta \<and>
        sl_request (lg ! j) = SnapFinish (man_snapshot_id (rsb_manifest b)) \<and>
        length bs = unat (man_total_len (rsb_manifest b)) \<and> re_sha env bs = man_digest (rsb_manifest b)))"

definition sessions_inv ::
  "('m, 'r) raft_env \<Rightarrow> 'm session_log_entry list \<times> ('m, 'r) raft_node \<Rightarrow> bool" where
  "sessions_inv env st \<longleftrightarrow> distinct (map fst (rn_incoming_snapshots (snd st))) \<and>
     (\<forall>sid ses. map_of (rn_incoming_snapshots (snd st)) sid = Some ses \<longrightarrow> session_ok env (fst st) sid ses) \<and>
     (\<forall>j < length (fst st). install_ok env (fst st) j)"

lemma announced_snoc:
  assumes "announced env lg i b" "\<not> ends_session (man_snapshot_id (rsb_manifest b)) e"
  shows "announced env (lg @ [e]) i b"
  using assms by (auto simp: announced_def nth_append less_Suc_eq)

lemma announced_new:
  assumes "sl_request e = SnapBegin b" "sl_status e = Accepted" "\<not> re_vote_lt env (rsb_vote b) (sl_vote e)"
  shows "announced env (lg @ [e]) (length lg) b"
  using assms by (auto simp: announced_def nth_append)

lemma session_ok_snoc:
  assumes "session_ok env lg sid ses" "\<not> ends_session sid e"
  shows "session_ok env (lg @ [e]) sid ses"
  using assms announced_snoc unfolding session_ok_def by metis

lemma install_ok_snoc:
  assumes "\<forall>j < length lg. install_ok env lg j"
    and "\<And>v meta bs. sl_install e = Some (v, meta, bs) \<Longrightarrow> \<exists>i b. announced env lg i b \<and> rsb_vote b = v \<and> rsb_meta b = meta \<and>
        sl_request e = SnapFinish (man_snapshot_id (rsb_manifest b)) \<and>
        length bs = unat (man_total_len (rsb_manifest b)) \<and> re_sha env bs = man_digest (rsb_manifest b)"
  shows "\<forall>j < length (lg @ [e]). install_ok env (lg @ [e]) j"
proof (intro allI impI)
  fix j assume "j < length (lg @ [e])"
  then consider (old) "j < length lg" | (new) "j = length lg"
    by fastforce
  then show "install_ok env (lg @ [e]) j"
  proof cases
    case old
    then show ?thesis
      using assms(1) by (simp add: install_ok_def nth_append)
  next
    case new
    then show ?thesis
      using assms(2) by (simp add: install_ok_def nth_append)
  qed
qed

lemma sessions_invD:
  assumes "sessions_inv env (lg, node)"
  shows "distinct (map fst (rn_incoming_snapshots node))" "\<forall>j < length lg. install_ok env lg j"
    "\<And>sid ses. map_of (rn_incoming_snapshots node) sid = Some ses \<Longrightarrow> session_ok env lg sid ses"
  using assms by (auto simp: sessions_inv_def)

lemma sessions_keep:
  assumes inv: "sessions_inv env (lg, node)" and inst: "sl_install e = None"
    and new: "distinct (map fst (rn_incoming_snapshots node'))"
    "\<And>sid ses. map_of (rn_incoming_snapshots node') sid = Some ses \<Longrightarrow> session_ok env (lg @ [e]) sid ses"
  shows "sessions_inv env (lg @ [e], node')"
proof -
  have "\<forall>j < length (lg @ [e]). install_ok env (lg @ [e]) j"
    by (rule install_ok_snoc[OF sessions_invD(2)[OF inv]]) (simp add: inst)
  then show ?thesis
    using new by (simp add: sessions_inv_def)
qed

lemma snapshot_begin_inv:
  assumes inv: "sessions_inv env (lg, node)" and b: "snapshot_begin env b node = (status, node')"
  shows "sessions_inv env (lg @ [\<lparr>sl_request = SnapBegin b, sl_vote = re_metrics_vote env (rn_raft node), sl_status = status, sl_install = None\<rparr>], node')"
    (is "sessions_inv env (lg @ [?e], node')")
proof (cases "status = Accepted")
  case True
  let ?sid = "man_snapshot_id (rsb_manifest b)"
  obtain r where r: "receiver_new (rsb_manifest b) = Ok r" "\<not> re_vote_lt env (rsb_vote b) (re_metrics_vote env (rn_raft node))"
    "node' = node\<lparr>rn_incoming_snapshots := hm_insert ?sid \<lparr>ins_vote = rsb_vote b, ins_meta = rsb_meta b, ins_receiver = r\<rparr> (rn_incoming_snapshots node)\<rparr>"
    using b True by (auto simp: snapshot_begin_def split: if_splits sum.splits)
  have "session_ok env (lg @ [?e]) ?sid \<lparr>ins_vote = rsb_vote b, ins_meta = rsb_meta b, ins_receiver = r\<rparr>"
    using announced_new[of ?e b env lg] True r(2) receiver_new_ok[OF r(1)] by (auto simp: session_ok_def)
  moreover have "session_ok env (lg @ [?e]) sid ses" if "map_of (rn_incoming_snapshots node) sid = Some ses" "sid \<noteq> ?sid" for sid ses
    using session_ok_snoc[OF sessions_invD(3)[OF inv that(1)]] that(2) by (simp add: ends_session_def)
  ultimately show ?thesis
    using sessions_invD(1)[OF inv] r(3)
    by (intro sessions_keep[OF inv]) (auto simp: distinct_update update_conv split: if_splits)
next
  case False
  then have "node' = node"
    using b by (auto simp: snapshot_begin_def split: if_splits sum.splits)
  then show ?thesis
    using sessions_invD(1)[OF inv] session_ok_snoc[OF sessions_invD(3)[OF inv]] False
    by (intro sessions_keep[OF inv]) (auto simp: ends_session_def)
qed

lemma snapshot_chunk_inv:
  assumes inv: "sessions_inv env (lg, node)"
  shows "\<exists>status node'. snapshot_accept_chunk env c node = Some (status, node') \<and>
    sessions_inv env (lg @ [\<lparr>sl_request = SnapChunk c, sl_vote = v, sl_status = status, sl_install = None\<rparr>], node')"
proof (cases "map_of (rn_incoming_snapshots node) (chk_snapshot_id c)")
  case None
  then show ?thesis
    using sessions_invD(1)[OF inv] session_ok_snoc[OF sessions_invD(3)[OF inv]]
    by (auto simp: snapshot_accept_chunk_def ends_session_def intro!: sessions_keep[OF inv])
next
  case (Some ses)
  note ok = sessions_invD(3)[OF inv Some]
  obtain res r where r: "accept (re_sha env) c (ins_receiver ses) = Some (res, r)"
    using accept_total[of "ins_receiver ses" "re_sha env" c] ok by (auto simp: session_ok_def)
  then have r_ok: "rcv_ok r" "rcv_manifest r = rcv_manifest (ins_receiver ses)"
    using accept_ok[OF _ r] ok by (simp_all add: session_ok_def)
  obtain status where status: "snapshot_accept_chunk env c node = Some (status, node\<lparr>rn_incoming_snapshots :=
      hm_insert (chk_snapshot_id c) (ses\<lparr>ins_receiver := r\<rparr>) (rn_incoming_snapshots node)\<rparr>)"
    using Some r by (simp add: snapshot_accept_chunk_def)
  let ?e = "\<lparr>sl_request = SnapChunk c, sl_vote = v, sl_status = status, sl_install = None\<rparr>"
  have keep: "session_ok env (lg @ [?e]) sid ses'" if "map_of (rn_incoming_snapshots node) sid = Some ses'" for sid ses'
    using session_ok_snoc[OF sessions_invD(3)[OF inv that]] by (simp add: ends_session_def)
  have "session_ok env (lg @ [?e]) (chk_snapshot_id c) (ses\<lparr>ins_receiver := r\<rparr>)"
    using keep[OF Some] r_ok by (auto simp: session_ok_def)
  then have "sessions_inv env (lg @ [?e], node\<lparr>rn_incoming_snapshots :=
      hm_insert (chk_snapshot_id c) (ses\<lparr>ins_receiver := r\<rparr>) (rn_incoming_snapshots node)\<rparr>)"
    using sessions_invD(1)[OF inv] keep
    by (intro sessions_keep[OF inv]) (auto simp: distinct_update update_conv split: if_splits)
  then show ?thesis
    using status by blast
qed

lemma remove_session_ok:
  assumes inv: "sessions_inv env (lg, node)" "map_of (hm_remove sid (rn_incoming_snapshots node)) sid' = Some ses"
    and e: "\<And>s. ends_session s e \<Longrightarrow> s = sid"
  shows "session_ok env (lg @ [e]) sid' ses"
  using inv(2) session_ok_snoc[OF sessions_invD(3)[OF inv(1)], of sid' ses e] e
  by (auto simp: delete_conv split: if_splits)

lemma snapshot_finish_inv:
  assumes inv: "sessions_inv env (lg, node)" and f: "snapshot_finish env sid node = (status, call, node')"
  shows "sessions_inv env (lg @ [\<lparr>sl_request = SnapFinish sid, sl_vote = v, sl_status = status, sl_install = call\<rparr>], node')"
    (is "sessions_inv env (lg @ [?e], node')")
proof -
  have inc: "rn_incoming_snapshots node' = hm_remove sid (rn_incoming_snapshots node)"
    using f by (auto simp: snapshot_finish_def Let_def split: option.splits sum.splits prod.splits)
  have inst: "\<exists>i b. announced env lg i b \<and> rsb_vote b = w \<and> rsb_meta b = meta \<and> sl_request ?e = SnapFinish (man_snapshot_id (rsb_manifest b)) \<and>
        length bs = unat (man_total_len (rsb_manifest b)) \<and> re_sha env bs = man_digest (rsb_manifest b)"
    if c: "sl_install ?e = Some (w, meta, bs)" for w meta bs
  proof -
    obtain ses ver where s: "map_of (rn_incoming_snapshots node) sid = Some ses" "verify (re_sha env) sid (ins_receiver ses) = Ok ver"
      "w = ins_vote ses" "meta = ins_meta ses" "bs = ver_bytes ver"
      using f c by (auto simp: snapshot_finish_def Let_def split: option.splits sum.splits prod.splits)
    obtain i b where i: "announced env lg i b" "man_snapshot_id (rsb_manifest b) = sid" "rsb_vote b = ins_vote ses"
      "rsb_meta b = ins_meta ses" "rcv_manifest (ins_receiver ses) = rsb_manifest b"
      using sessions_invD(3)[OF inv s(1)] by (auto simp: session_ok_def)
    have "rcv_ok (ins_receiver ses)"
      using sessions_invD(3)[OF inv s(1)] by (simp add: session_ok_def)
    then show ?thesis
      using i verify_Ok[OF s(2)] s(3-5) by (intro exI[of _ i] exI[of _ b]) (simp add: rcv_ok_def)
  qed
  have "\<forall>j < length (lg @ [?e]). install_ok env (lg @ [?e]) j"
    by (rule install_ok_snoc[OF sessions_invD(2)[OF inv] inst])
  moreover have "session_ok env (lg @ [?e]) s ses" if "map_of (rn_incoming_snapshots node') s = Some ses" for s ses
    using remove_session_ok[OF inv, of sid s ses ?e] that by (simp add: inc ends_session_def)
  ultimately show ?thesis
    using sessions_invD(1)[OF inv] by (simp add: sessions_inv_def inc distinct_delete)
qed

lemma handle_snapshot_transfer_inv:
  assumes inv: "sessions_inv env (lg, node)"
  shows "\<exists>r call node'. handle_snapshot_transfer env req node = Some (r, call, node') \<and>
    sessions_inv env (lg @ [\<lparr>sl_request = req, sl_vote = re_metrics_vote env (rn_raft node), sl_status = rsr_status r, sl_install = call\<rparr>], node')"
proof (cases req)
  case (SnapBegin b)
  then show ?thesis
    using snapshot_begin_inv[OF inv, of b] by (cases "snapshot_begin env b node") simp
next
  case (SnapChunk c)
  then show ?thesis
    using snapshot_chunk_inv[OF inv, of c "re_metrics_vote env (rn_raft node)"] by auto
next
  case (SnapFinish sid)
  then show ?thesis
    using snapshot_finish_inv[OF inv, of sid] by (cases "snapshot_finish env sid node") simp
next
  case (SnapAbort sid)
  let ?e = "\<lparr>sl_request = SnapAbort sid, sl_vote = re_metrics_vote env (rn_raft node), sl_status = Aborted, sl_install = None\<rparr>"
  have "sessions_inv env (lg @ [?e], node\<lparr>rn_incoming_snapshots := hm_remove sid (rn_incoming_snapshots node)\<rparr>)"
    using sessions_invD(1)[OF inv] remove_session_ok[OF inv, of sid _ _ ?e]
    by (intro sessions_keep[OF inv]) (auto simp: distinct_delete ends_session_def)
  then show ?thesis
    using SnapAbort by simp
qed

lemma sessions_inv_raft [simp]: "sessions_inv env (lg, node\<lparr>rn_raft := r\<rparr>) \<longleftrightarrow> sessions_inv env (lg, node)"
  by (simp add: sessions_inv_def)

lemma node_step_inv:
  assumes inv: "sessions_inv env st"
  shows "\<exists>st'. node_step env ev st = Some st' \<and> sessions_inv env st'"
proof -
  obtain lg node where st: "st = (lg, node)"
    by fastforce
  show ?thesis
  proof (cases ev)
    case (CoreMoves r)
    then show ?thesis
      using inv st by simp
  next
    case (Handle payload)
    show ?thesis
    proof (cases "message_group_id (fp_message payload) = rn_group_id node")
      case False
      then show ?thesis
        using inv st Handle by (cases "fp_message payload") (simp_all add: handle_message_def)
    next
      case True
      show ?thesis
      proof (cases "\<exists>g req. fp_message payload = SnapshotTransfer g req")
        case True
        then obtain g req where req: "fp_message payload = SnapshotTransfer g req" "g = rn_group_id node"
          using \<open>message_group_id (fp_message payload) = rn_group_id node\<close> by auto
        show ?thesis
          using handle_snapshot_transfer_inv[OF inv[unfolded st], of req] req by (auto simp: st Handle handle_message_def)
      next
        case False
        then show ?thesis
          using inv st Handle True
          by (cases "fp_message payload") (auto simp: handle_message_def split: prod.split sum.split)
      qed
    qed
  qed
qed

lemma node_run_inv: "sessions_inv env st \<Longrightarrow> \<exists>st'. node_run env es st = Some st' \<and> sessions_inv env st'"
proof (induction es arbitrary: st)
  case (Cons e es)
  then show ?case
    using node_step_inv[OF Cons.prems, of e] by fastforce
qed simp

section \<open>The sending side of a snapshot\<close>

text \<open>
  \<^verbatim>\<open>RaftSnapshotSink\<close> and the network client over the outcome of \<^verbatim>\<open>send_rpc\<close>.  The sink remembers the vote
  of the last response.
\<close>

fun client_append_entries :: "rpc_error + 'm raft_message \<Rightarrow> rpc_error + append_entries_response" where
  "client_append_entries (Inr (AppendEntriesResponse _ r)) = Ok r"
| "client_append_entries (Inl e) = Err e"
| "client_append_entries _ = Err (RpcNetwork UnexpectedResponse)"

fun client_vote :: "rpc_error + 'm raft_message \<Rightarrow> rpc_error + vote_response" where
  "client_vote (Inr (VoteResponse _ r)) = Ok r"
| "client_vote (Inl e) = Err e"
| "client_vote _ = Err (RpcNetwork UnexpectedResponse)"

fun client_install_snapshot :: "rpc_error + 'm raft_message \<Rightarrow> rpc_error + install_snapshot_response" where
  "client_install_snapshot (Inr (InstallSnapshotResponse _ r)) = Ok r"
| "client_install_snapshot (Inl e) = Err e"
| "client_install_snapshot _ = Err (RpcNetwork UnexpectedResponse)"

fun sink_request ::
  "(rpc_error \<Rightarrow> string) \<Rightarrow> rpc_error + 'm raft_message \<Rightarrow> vote \<Rightarrow> (snapshot_transfer_error + raft_snapshot_response) \<times> vote" where
  "sink_request text (Inl e) v = (Err (Retryable (text e)), v)"
| "sink_request text (Inr (SnapshotTransferResponse _ r)) v = (Ok r, rsr_vote r)"
| "sink_request text (Inr _) v = (Err (Terminal ''unexpected response to snapshot transfer request''), v)"

definition sink_begin ::
  "(rpc_error \<Rightarrow> string) \<Rightarrow> rpc_error + 'm raft_message \<Rightarrow> string \<Rightarrow> vote \<Rightarrow> (snapshot_transfer_error + unit) \<times> vote" where
  "sink_begin text outcome sid v =
     (let (r, v1) = sink_request text outcome v
      in (and_then r (\<lambda>response.
            if rsr_snapshot_id response \<noteq> sid then Err (Terminal ''snapshot response id mismatch'')
            else case rsr_status response of
              Accepted \<Rightarrow> Ok ()
            | Rejected reason \<Rightarrow> Err (Terminal reason)
            | _ \<Rightarrow> Err (Terminal ''unexpected snapshot begin response'')), v1))"

definition sink_send_chunk ::
  "(rpc_error \<Rightarrow> string) \<Rightarrow> rpc_error + 'm raft_message \<Rightarrow> snapshot_chunk \<Rightarrow> vote \<Rightarrow> (snapshot_transfer_error + unit) \<times> vote" where
  "sink_send_chunk text outcome c v =
     (let (r, v1) = sink_request text outcome v
      in (and_then r (\<lambda>response.
            if rsr_snapshot_id response \<noteq> chk_snapshot_id c then Err (Terminal ''snapshot response id mismatch'')
            else case rsr_status response of
              ChunkVerified ack \<Rightarrow> if ack = chk_index c then Ok () else Err (Terminal ''unexpected snapshot chunk response'')
            | RetryChunk ack reason \<Rightarrow>
                if ack = chk_index c then Err (Retryable reason) else Err (Terminal ''unexpected snapshot chunk response'')
            | Rejected reason \<Rightarrow> Err (Terminal reason)
            | _ \<Rightarrow> Err (Terminal ''unexpected snapshot chunk response'')), v1))"

definition sink_finish ::
  "(rpc_error \<Rightarrow> string) \<Rightarrow> rpc_error + 'm raft_message \<Rightarrow> string \<Rightarrow> vote \<Rightarrow> (snapshot_transfer_error + u64) \<times> vote" where
  "sink_finish text outcome sid v =
     (let (r, v1) = sink_request text outcome v
      in (and_then r (\<lambda>response.
            if rsr_snapshot_id response \<noteq> sid then Err (Terminal ''snapshot response id mismatch'')
            else case rsr_status response of
              SnapshotInstalled size_bytes \<Rightarrow> Ok size_bytes
            | Rejected reason \<Rightarrow> Err (Terminal reason)
            | _ \<Rightarrow> Err (Terminal ''unexpected snapshot finish response'')), v1))"

datatype streaming_error =
    StreamingClosed
  | StreamingTimeout rpc_types u64 u64
  | StreamingNetwork network_cause
  | StreamingTransfer snapshot_transfer_error

fun rpc_to_streaming_error :: "rpc_error \<Rightarrow> streaming_error" where
  "rpc_to_streaming_error (RpcTimeout ty i target) = StreamingTimeout ty i target"
| "rpc_to_streaming_error (RpcNetwork c) = StreamingNetwork c"

text \<open>
  \<^verbatim>\<open>full_snapshot\<close>: \<open>install\<close> is the exchange of a single request, \<open>transfer\<close> the outcome of the chunked
  transfer with the vote the sink has seen last, \<open>None\<close> when replication was closed first.
\<close>

definition full_snapshot ::
  "(vote \<Rightarrow> vote \<Rightarrow> bool) \<Rightarrow> raft_transport \<Rightarrow> vote \<Rightarrow> 'm snapshot_meta \<Rightarrow> bytes
     \<Rightarrow> ('m raft_message \<Rightarrow> rpc_error + 'm raft_message)
     \<Rightarrow> (snapshot_transfer_config \<Rightarrow> ((snapshot_transfer_error + u64) \<times> vote) option) \<Rightarrow> streaming_error + vote" where
  "full_snapshot vote_lt t v meta bs install transfer =
     (let config = rt_snapshot_config t
      in if length bs \<le> chunk_threshold config
         then (case client_install_snapshot (install (InstallSnapshot (rt_group_id t)
                      \<lparr>isr_vote = v, isr_meta = meta, isr_offset = 0, isr_data = bs, isr_done = True\<rparr>)) of
                 Inl e \<Rightarrow> Err (rpc_to_streaming_error e)
               | Inr response \<Rightarrow> Ok (isp_vote response))
         else case transfer_config_validate config of
           Inl e \<Rightarrow> Err (StreamingTransfer e)
         | Inr cfg \<Rightarrow>
             (case transfer cfg of
                None \<Rightarrow> Err StreamingClosed
              | Some (Inr _, response_vote) \<Rightarrow> Ok response_vote
              | Some (Inl e, response_vote) \<Rightarrow>
                  if vote_lt v response_vote then Ok response_vote else Err (StreamingTransfer e)))"

text \<open>The sink over the handler of the receiving node behaves like the receiver the sender was verified against.\<close>

lemma sink_chunk_is_accept:
  assumes "map_of (rn_incoming_snapshots node) (chk_snapshot_id c) = Some ses"
    and "accept (re_sha env) c (ins_receiver ses) = Some (res, r)"
  shows "\<exists>resp node'. handle_snapshot_transfer env (SnapChunk c) node = Some (resp, None, node') \<and>
    map_of (rn_incoming_snapshots node') (chk_snapshot_id c) = Some (ses\<lparr>ins_receiver := r\<rparr>) \<and>
    fst (sink_send_chunk text (Ok (SnapshotTransferResponse g resp)) c v) =
      (case res of Inr _ \<Rightarrow> Ok () | Inl (Integrity reason) \<Rightarrow> Err (Retryable reason) | Inl e \<Rightarrow> Err (Terminal (transfer_error_text e)))"
  using assms
  by (auto simp: snapshot_accept_chunk_def sink_send_chunk_def update_conv split: sum.split snapshot_transfer_error.split)

section \<open>Properties\<close>

text \<open>
  (C6) A Raft call returns only an answer to itself: for any interleaving of calls, frames, timeouts, dropped
  calls and shutdown, a call that returns a message returns one that came from the node it was sent to, with its own
  correlation number, for the group and of the kind of its request; no response is used for two calls; a pending entry
  always belongs to a call that still waits; a matching response always reaches its waiting call; and once
  shutdown has closed admission and cancelled, nothing is pending any more and nobody waits on an open channel.
\<close>

theorem rpc_responses_reach_their_caller:
  assumes "(rpc_step ser)\<^sup>*\<^sup>* (rpc_init (raft_transport_new g n)) s" "length (rs_calls s) < 2 ^ 64 - 1"
  shows "(\<forall>c < length (rs_calls s). \<forall>m. phase s c = Done (Ok m) \<longrightarrow>
      (\<exists>payload. (rc_target (rs_calls s ! c), payload) \<in> set (rs_accepted s) \<and>
         fp_correlation_id payload = rc_corr (rs_calls s ! c) \<and> fp_message payload = m \<and>
         response_matches (rc_type (rs_calls s ! c)) m \<and> message_group_id m = g)) \<and>
    distinct (map (fp_correlation_id \<circ> snd) (rs_accepted s)) \<and>
    (\<forall>k p. map_of (rt_pending (rs_transport s)) k = Some p \<longrightarrow>
      pr_response p < length (rs_calls s) \<and> rc_corr (rs_calls s ! pr_response p) = k \<and> awaiting (phase s (pr_response p))) \<and>
    (\<forall>c < length (rs_calls s). awaiting (phase s c) \<and> rc_channel (rs_calls s ! c) = Open \<longrightarrow>
      \<not> rs_cancelled s \<and>
      (\<forall>m. response_matches (rc_type (rs_calls s ! c)) m \<and> message_group_id m = g \<longrightarrow>
         rc_channel (rs_calls (rpc_incoming (rc_target (rs_calls s ! c))
           \<lparr>fp_correlation_id = rc_corr (rs_calls s ! c), fp_message = m\<rparr> s) ! c) = Fired m)) \<and>
    (rs_cancelled s \<longrightarrow> rt_pending (rs_transport s) = [])"
proof -
  have inv: "rpc_inv s" and g: "rt_group_id (rs_transport s) = g"
    using rpc_run_inv[OF assms(1) rpc_init_inv assms(2)] by (simp_all add: rpc_init_def raft_transport_new_def)
  have done_ok: "\<exists>payload. (rc_target (rs_calls s ! c), payload) \<in> set (rs_accepted s) \<and>
      fp_correlation_id payload = rc_corr (rs_calls s ! c) \<and> fp_message payload = m \<and>
      response_matches (rc_type (rs_calls s ! c)) m \<and> message_group_id m = g"
    if "c < length (rs_calls s)" "phase s c = Done (Ok m)" for c m
    using rpc_invD(4)[OF inv that(1)] that(2) g by (auto simp: call_ok_def answers_def)
  have no_cancel: "\<not> rs_cancelled s" if c: "c < length (rs_calls s)" "awaiting (phase s c)" "rc_channel (rs_calls s ! c) = Open" for c
    using rpc_invD(4)[OF inv c(1)] c(2,3) rpc_invD(6)[OF inv] by (auto simp: call_ok_def)
  show ?thesis
    using done_ok no_cancel rpc_incoming_fires[OF inv] rpc_invD(3,6)[OF inv] rpc_invD(5)[OF inv] g
    by (simp add: pending_ok_def accepted_ok_def)
qed


definition demo_vote :: vote where
  "demo_vote = \<lparr>vt_term = 1, vt_node = 2, vt_committed = False\<rparr>"

definition demo_answer :: "unit raft_message" where
  "demo_answer = VoteResponse (GroupId 1) \<lparr>vrs_vote = demo_vote, vrs_vote_granted = True, vrs_last_log_id = None\<rparr>"

abbreviation demo_ser :: "unit raft_frame_payload \<Rightarrow> string + bytes" where
  "demo_ser \<equiv> \<lambda>_. Ok []"

definition demo_rpc :: "nat \<Rightarrow> unit rpc_state" where
  "demo_rpc k =
     (let s0 = rpc_init (raft_transport_new (GroupId 1) 1);
          s1 = rpc_start demo_ser 2 RpcVote (Vote (GroupId 1) \<lparr>vrq_vote = demo_vote, vrq_last_log_id = None\<rparr>) s0;
          f = Raft \<lparr>rf_group_id = 1, rf_payload = []\<rparr>;
          s2 = rpc_register 0 f s1; s3 = rpc_sent 0 f (Ok ()) s2;
          s4 = rpc_incoming 2 \<lparr>fp_correlation_id = 1, fp_message = demo_answer\<rparr> s3;
          s5 = rpc_finish 0 (Done (Ok demo_answer)) s4
      in [s0, s1, s2, s3, s4, s5] ! k)"

lemmas demo_rpc_simps = demo_rpc_def rpc_init_def raft_transport_new_def rpc_start_def rpc_register_def rpc_sent_def
  rpc_incoming_def rpc_finish_def set_phase_def set_channel_def consume_incoming_from_def encode_raft_frame_def
  encode_group_frame_def demo_answer_def Let_def

lemma demo_rpc_run: "(rpc_step demo_ser)\<^sup>*\<^sup>* (rpc_init (raft_transport_new (GroupId 1) 1)) (demo_rpc 5)"
proof -
  let ?f = "Raft \<lparr>rf_group_id = 1, rf_payload = []\<rparr>"
  have "rpc_step demo_ser (demo_rpc 0) (demo_rpc 1)"
    unfolding demo_rpc_def Let_def by simp (rule rpc_step.start)
  moreover have "rpc_step demo_ser (demo_rpc 1) (rpc_register 0 ?f (demo_rpc 1))"
    by (rule rpc_step.register) (simp_all add: demo_rpc_simps)
  moreover have "rpc_step demo_ser (demo_rpc 2) (rpc_sent 0 ?f (Ok ()) (demo_rpc 2))"
    by (rule rpc_step.sent) (simp_all add: demo_rpc_simps)
  moreover have "rpc_step demo_ser (demo_rpc 3) (rpc_incoming 2 \<lparr>fp_correlation_id = 1, fp_message = demo_answer\<rparr> (demo_rpc 3))"
    by (rule rpc_step.incoming)
  moreover have "rpc_step demo_ser (demo_rpc 4) (rpc_finish 0 (Done (Ok demo_answer)) (demo_rpc 4))"
    by (rule rpc_step.answered) (simp_all add: demo_rpc_simps numeral_eq_Suc)
  moreover have "demo_rpc 2 = rpc_register 0 ?f (demo_rpc 1)" "demo_rpc 3 = rpc_sent 0 ?f (Ok ()) (demo_rpc 2)"
    "demo_rpc 4 = rpc_incoming 2 \<lparr>fp_correlation_id = 1, fp_message = demo_answer\<rparr> (demo_rpc 3)"
    "demo_rpc 5 = rpc_finish 0 (Done (Ok demo_answer)) (demo_rpc 4)" "demo_rpc 0 = rpc_init (raft_transport_new (GroupId 1) 1)"
    by (simp_all add: demo_rpc_def Let_def numeral_eq_Suc)
  ultimately show ?thesis
    by (metis (no_types, lifting) rtranclp.simps)
qed

theorem rpc_responses_reach_their_caller_witness:
  "\<exists>s. (rpc_step demo_ser)\<^sup>*\<^sup>* (rpc_init (raft_transport_new (GroupId 1) 1)) s \<and> phase s 0 = Done (Ok demo_answer) \<and>
     (\<exists>payload. (2, payload) \<in> set (rs_accepted s) \<and> fp_message payload = demo_answer)"
proof -
  have five: "demo_rpc 5 = rpc_finish 0 (Done (Ok demo_answer)) (demo_rpc 4)"
    by (simp add: demo_rpc_def Let_def numeral_eq_Suc)
  have four: "length (rs_calls (demo_rpc 4)) = 1" "rc_target (rs_calls (demo_rpc 4) ! 0) = 2"
    by (simp_all add: demo_rpc_simps numeral_eq_Suc)
  have s: "length (rs_calls (demo_rpc 5)) = 1" "phase (demo_rpc 5) 0 = Done (Ok demo_answer)" "rc_target (rs_calls (demo_rpc 5) ! 0) = 2"
    unfolding five rpc_finish_def Let_def by (simp_all add: call_set_phase four)
  have "length (rs_calls (demo_rpc 5)) < 2 ^ 64 - 1"
    unfolding s(1) by simp
  from conjunct1[OF rpc_responses_reach_their_caller[OF demo_rpc_run this], rule_format, of 0, OF _ s(2)]
  show ?thesis
    using demo_rpc_run s by (metis less_one)
qed

definition demo_raft_env :: "(unit, unit) raft_env" where
  "demo_raft_env =
     \<lparr>re_append_entries = (\<lambda>_ r. (Ok Success, r)), re_vote = (\<lambda>_ r. (Err FatalStopped, r)),
      re_install_snapshot = (\<lambda>_ r. (Err FatalStopped, r)), re_install_full_snapshot = (\<lambda>v _ _ r. (Ok v, r)),
      re_client_write = (\<lambda>_ r. (Err FatalStopped, r)), re_metrics_vote = (\<lambda>_. demo_vote), re_snapshots_seen = (\<lambda>_. []),
      re_vote_lt = (\<lambda>a b. vt_term a < vt_term b), re_sha = id, re_openraft_text = (\<lambda>_. [])\<rparr>"

definition demo_meta :: "unit snapshot_meta" where
  "demo_meta = \<lparr>sm_last_log_id = None, sm_last_membership = (None, ()), sm_snapshot_id = ''s''\<rparr>"

definition demo_events :: "(unit, unit) node_event list" where
  "demo_events = map (\<lambda>req. Handle \<lparr>fp_correlation_id = 1, fp_message = SnapshotTransfer (GroupId 1) req\<rparr>)
     [SnapBegin \<lparr>rsb_vote = demo_vote, rsb_meta = demo_meta, rsb_manifest =
        \<lparr>man_snapshot_id = ''s'', man_total_len = 3, man_chunk_size = 2, man_chunk_count = 2, man_digest = [1, 2, 3]\<rparr>\<rparr>,
      SnapChunk \<lparr>chk_snapshot_id = ''s'', chk_index = 1, chk_offset = 2, chk_data = [3], chk_digest = [3]\<rparr>,
      SnapChunk \<lparr>chk_snapshot_id = ''s'', chk_index = 0, chk_offset = 0, chk_data = [1, 2], chk_digest = [1, 2]\<rparr>,
      SnapFinish ''s'']"

definition demo_node :: "(unit, unit) raft_node" where
  "demo_node = \<lparr>rn_group_id = GroupId 1, rn_node_id = 1, rn_raft = (), rn_incoming_snapshots = []\<rparr>"

lemma demo_events_install:
  "map_option (\<lambda>(lg, _). map sl_install lg) (node_run demo_raft_env demo_events ([], demo_node)) =
     Some [None, None, None, Some (demo_vote, demo_meta, [1, 2, 3])]"
  by code_simp




end
