(* ===== verification/Wal_Log.thy ===== *)
theory Wal_Log
  imports Wal_Storage
begin

text \<open>
  What the Raft log storage promises, over any WAL sink with the laws of the locale
  \<open>wal_sink\<close>; the laws are discharged for \<^verbatim>\<open>RealWalSink\<close>.  The abstract state is the
  log that the written records describe (\<open>log_of\<close>); append, truncate and purge refine the
  corresponding operations on it, and recovery rebuilds vote, purge mark and log from the file.
\<close>

section \<open>The file sink\<close>

text \<open>
  A buffered file: chunks on disk and chunks in the buffer.  A failed \<^verbatim>\<open>write_all\<close> leaves a prefix of
  the record behind.  \<open>rs_io\<close> is the outcome of the i-th file operation: an error, the
  number of bytes that were taken, and how many buffered chunks were written out early.
\<close>

datatype sink_chunk = Whole bytes bytes | Torn bytes

record io_outcome =
  io_error :: "string option"
  io_taken :: nat
  io_spill :: nat

record real_sink =
  rs_disk :: "sink_chunk list"
  rs_buffer :: "sink_chunk list"
  rs_dirty :: bool
  rs_io :: "nat \<Rightarrow> io_outcome"
  rs_ops :: nat

definition real_append_record ::
  "(bytes \<Rightarrow> u32) \<Rightarrow> (bytes \<Rightarrow> string + bytes) \<Rightarrow> bytes \<Rightarrow> real_sink \<Rightarrow> (string + unit) \<times> real_sink" where
  "real_append_record crc cser value s =
     (case cser value of
        Inl e \<Rightarrow> (Err e, s)
      | Inr data \<Rightarrow>
          (let out = rs_io s (rs_ops s);
               spilled = take (io_spill out) (rs_buffer s);
               kept = drop (io_spill out) (rs_buffer s);
               s1 = s\<lparr>rs_ops := rs_ops s + 1, rs_disk := rs_disk s @ spilled\<rparr>
           in case io_error out of
                Some e \<Rightarrow> (Err e, s1\<lparr>rs_buffer := kept @ [Torn (take (io_taken out) (append_record crc data))]\<rparr>)
              | None \<Rightarrow> (Ok (), s1\<lparr>rs_buffer := kept @ [Whole value data]\<rparr>)))"

text \<open>\<^verbatim>\<open>sync_writer\<close>: flush the buffer, then sync the file.\<close>

definition sync_writer :: "real_sink \<Rightarrow> (string + unit) \<times> real_sink" where
  "sync_writer s =
     (let out = rs_io s (rs_ops s); s1 = s\<lparr>rs_ops := rs_ops s + 1\<rparr>
      in case io_error out of
           Some e \<Rightarrow> (Err e, s1\<lparr>rs_disk := rs_disk s @ take (io_spill out) (rs_buffer s),
                            rs_buffer := drop (io_spill out) (rs_buffer s)\<rparr>)
         | None \<Rightarrow> (Ok (), s1\<lparr>rs_disk := rs_disk s @ rs_buffer s, rs_buffer := []\<rparr>))"

text \<open>The durability barrier of a coordinator with this one participant.\<close>

definition real_sync :: "real_sink \<Rightarrow> (string + unit) \<times> real_sink" where
  "real_sync s =
     (if \<not> rs_dirty s then (Ok (), s)
      else let (r, s1) = sync_writer (s\<lparr>rs_dirty := False\<rparr>)
           in case r of Inl e \<Rightarrow> (Err e, s1\<lparr>rs_dirty := True\<rparr>) | Inr _ \<Rightarrow> (Ok (), s1))"

definition real_append ::
  "(bytes \<Rightarrow> u32) \<Rightarrow> (bytes \<Rightarrow> string + bytes) \<Rightarrow> bytes \<Rightarrow> bool \<Rightarrow> real_sink \<Rightarrow> (string + unit) \<times> real_sink" where
  "real_append crc cser value sync_now s =
     (let (r, s1) = real_append_record crc cser value s
      in case r of
           Inl e \<Rightarrow> (Err e, s1)
         | Inr _ \<Rightarrow>
             (let s2 = s1\<lparr>rs_dirty := True\<rparr>
              in if sync_now then real_sync s2 else (Ok (), s2)))"

fun is_whole :: "sink_chunk \<Rightarrow> bool" where
  "is_whole (Whole _ _) = True"
| "is_whole (Torn _) = False"

fun chunk_value :: "sink_chunk \<Rightarrow> bytes" where
  "chunk_value (Whole v _) = v"
| "chunk_value (Torn bs) = bs"

fun chunk_image :: "(bytes \<Rightarrow> u32) \<Rightarrow> sink_chunk \<Rightarrow> bytes" where
  "chunk_image crc (Whole _ d) = append_record crc d"
| "chunk_image crc (Torn bs) = bs"

text \<open>The file as bytes, and the checks \<^verbatim>\<open>recover_with_sink\<close> and \<^verbatim>\<open>replay_wal\<close> make on it.\<close>

definition real_image :: "(bytes \<Rightarrow> u32) \<Rightarrow> real_sink \<Rightarrow> bytes" where
  "real_image crc s = concat (map (chunk_image crc) (rs_disk s))"

definition real_validate :: "(bytes \<Rightarrow> u32) \<Rightarrow> real_sink \<Rightarrow> string + unit" where
  "real_validate crc s =
     (case validate_wal_framing crc (real_image crc s) of
        Inl _ \<Rightarrow> Err ''truncated WAL'' | Inr _ \<Rightarrow> Ok ())"

text \<open>
  \<^verbatim>\<open>WalReader\<close> yields the values of complete records in order; what it does with a torn file
  is the parameter \<open>rd\<close>.
\<close>

definition real_read :: "(bytes \<Rightarrow> bytes list) \<Rightarrow> (bytes \<Rightarrow> u32) \<Rightarrow> real_sink \<Rightarrow> bytes list" where
  "real_read rd crc s =
     (if list_all is_whole (rs_disk s) then map chunk_value (rs_disk s) else rd (real_image crc s))"

definition real_env ::
  "(bytes \<Rightarrow> string + bytes) \<Rightarrow> (bytes \<Rightarrow> bytes list) \<Rightarrow> ('m, real_sink, 'sm) wal_env
     \<Rightarrow> ('m, real_sink, 'sm) wal_env" where
  "real_env cser rd env =
     env\<lparr>we_append := real_append (we_crc env) cser, we_sync := real_sync,
         we_empty := (\<lambda>s. real_image (we_crc env) s = []),
         we_validate := real_validate (we_crc env), we_read := real_read rd (we_crc env)\<rparr>"

definition real_written :: "real_sink \<Rightarrow> bytes list" where
  "real_written s = map chunk_value (rs_disk s @ rs_buffer s)"

fun chunk_ok :: "(bytes \<Rightarrow> string + bytes) \<Rightarrow> sink_chunk \<Rightarrow> bool" where
  "chunk_ok cser (Whole v d) \<longleftrightarrow> cser v = Ok d"
| "chunk_ok cser (Torn _) \<longleftrightarrow> False"

definition real_inv :: "(bytes \<Rightarrow> string + bytes) \<Rightarrow> real_sink \<Rightarrow> bool" where
  "real_inv cser s \<longleftrightarrow>
     list_all (chunk_ok cser) (rs_disk s @ rs_buffer s) \<and>
     (rs_buffer s \<noteq> [] \<longrightarrow> rs_dirty s)"

text \<open>A record whose serialised length the 32-bit length field can hold.\<close>

definition fits_record :: "(bytes \<Rightarrow> string + bytes) \<Rightarrow> bytes \<Rightarrow> bool" where
  "fits_record cser v \<longleftrightarrow> (case cser v of Inl _ \<Rightarrow> True | Inr d \<Rightarrow> length d < 2 ^ 32)"

section \<open>The abstract log of a storage\<close>

definition log_of ::
  "('m, 's, 'sm) wal_env \<Rightarrow> ('s \<Rightarrow> bytes list) \<Rightarrow> ('m, 's, 'sm) wal_storage \<Rightarrow> u64 \<Rightarrow> 'm entry option" where
  "log_of env written s =
     (case decode_all env (written (st_sink s)) of Inl _ \<Rightarrow> Map.empty | Inr fs \<Rightarrow> raw_log (records fs))"

definition view_of ::
  "('m, 's, 'sm) wal_env \<Rightarrow> ('s \<Rightarrow> bytes list) \<Rightarrow> ('m, 's, 'sm) wal_storage \<Rightarrow> u64 \<Rightarrow> 'm entry option" where
  "view_of env written s =
     (case decode_all env (written (st_sink s)) of Inl _ \<Rightarrow> Map.empty | Inr fs \<Rightarrow> wal_view (records fs))"

text \<open>Everything written is on disk.\<close>

definition synced ::
  "('m, 's, 'sm) wal_env \<Rightarrow> ('s \<Rightarrow> bytes list) \<Rightarrow> ('m, 's, 'sm) wal_storage \<Rightarrow> bool" where
  "synced env written s \<longleftrightarrow> we_read env (st_sink s) = written (st_sink s)"

definition storage_inv ::
  "('m, 's, 'sm) wal_env \<Rightarrow> ('s \<Rightarrow> bytes list) \<Rightarrow> ('s \<Rightarrow> bool) \<Rightarrow> ('m, 's, 'sm) wal_storage \<Rightarrow> bool" where
  "storage_inv env written sink_inv s \<longleftrightarrow> sink_inv (st_sink s) \<and>
     (st_pending_unsynced s = 0 \<longrightarrow> synced env written s) \<and>
     (case decode_all env (written (st_sink s)) of
        Inl _ \<Rightarrow> False
      | Inr fs \<Rightarrow> fs \<noteq> [] \<and> list_all (frame_ok s) fs \<and> mem_ok s (records fs))"

text \<open>Deserialisation inverts serialisation.\<close>

definition codec_ok :: "('m, 's, 'sm) wal_env \<Rightarrow> bool" where
  "codec_ok env \<longleftrightarrow> (\<forall>f bs. we_ser env f = Ok bs \<longrightarrow> we_de env bs = Ok f)"

section \<open>The contract of a sink and what follows from it\<close>

lemma frame_ok_cong:
  "st_files s' = st_files s \<Longrightarrow> st_group_id s' = st_group_id s \<Longrightarrow>
   st_format_version s' = st_format_version s \<Longrightarrow> frame_ok s' f = frame_ok s f"
proof (cases f)
  case (Record r)
  assume "st_files s' = st_files s" "st_group_id s' = st_group_id s"
  then show ?thesis
    unfolding Record by (cases r) simp_all
qed simp

lemma storage_invD:
  assumes "storage_inv env written sink_inv s"
  obtains fs where "decode_all env (written (st_sink s)) = Ok fs" "fs \<noteq> []" "list_all (frame_ok s) fs"
    "mem_ok s (records fs)"
  using assms by (auto simp: storage_inv_def split: sum.splits)

lemma log_of_eq:
  "decode_all env (written (st_sink s)) = Ok fs \<Longrightarrow> log_of env written s = raw_log (records fs)"
  "decode_all env (written (st_sink s)) = Ok fs \<Longrightarrow> view_of env written s = wal_view (records fs)"
  by (simp_all add: log_of_def view_of_def)

locale wal_sink =
  fixes env :: "('m, 's, 'sm) wal_env"
    and written :: "'s \<Rightarrow> bytes list"
    and sink_inv :: "'s \<Rightarrow> bool"
    and fits :: "bytes \<Rightarrow> bool"
  assumes append_law:
      "sink_inv k \<Longrightarrow> we_append env b sync_now k = (Ok (), k') \<Longrightarrow>
       sink_inv k' \<and> written k' = written k @ [b] \<and> (sync_now \<longrightarrow> we_read env k' = written k')"
    and sync_law:
      "sink_inv k \<Longrightarrow> we_sync env k = (Ok (), k') \<Longrightarrow>
       sink_inv k' \<and> written k' = written k \<and> we_read env k' = written k'"
    and validate_law:
      "sink_inv k \<Longrightarrow> we_read env k = written k \<Longrightarrow> list_all fits (written k) \<Longrightarrow>
       we_validate env k = Ok ()"
    and empty_law: "sink_inv k \<Longrightarrow> we_empty env k \<longleftrightarrow> we_read env k = []"
begin

lemma write_frame_Ok:
  assumes "codec_ok env" "sink_inv (st_sink s)" "write_frame env f sync_now s = (Ok (), s')"
  shows "\<exists>b. sink_inv (st_sink s') \<and> written (st_sink s') = written (st_sink s) @ [b] \<and>
    decode_frame (we_crc env) (we_de env) b = Ok f \<and>
    s' = s\<lparr>st_sink := st_sink s', st_pending_unsynced := (if sync_now then 0 else st_pending_unsynced s + 1)\<rparr> \<and>
    (sync_now \<longrightarrow> we_read env (st_sink s') = written (st_sink s'))"
proof -
  obtain b k where e: "encode_frame (we_crc env) (we_ser env) f = Ok b"
    and a: "we_append env b sync_now (st_sink s) = (Ok (), k)"
    and s': "s' = s\<lparr>st_sink := k, st_pending_unsynced := (if sync_now then 0 else st_pending_unsynced s + 1)\<rparr>"
    using assms(3) by (auto simp: write_frame_def Let_def split: sum.splits prod.splits)
  have "decode_frame (we_crc env) (we_de env) b = Ok f"
    using decode_encode_frame[OF e, of "we_de env"] assms(1) by (auto simp: codec_ok_def)
  then show ?thesis
    using append_law[OF assms(2) a] s' by (intro exI[of _ b]) simp
qed

text \<open>One record is written and the memory follows it.\<close>

lemma write_record_inv:
  assumes "codec_ok env" "storage_inv env written sink_inv s" "record_ok s r"
    and w: "write_frame env (Record r) sync_now s = (Ok (), s1)"
    and m: "\<And>fs. mem_ok s (records fs) \<Longrightarrow> mem_ok s1 (records fs) \<Longrightarrow> mem_ok s2 (records fs @ [r])"
    and same: "same_store s1 s2" "st_pending_unsynced s2 = st_pending_unsynced s1"
  shows "storage_inv env written sink_inv s2 \<and> (sync_now \<longrightarrow> synced env written s2) \<and>
    log_of env written s2 = raw_step r (log_of env written s) \<and>
    view_of env written s2 = view_step r (view_of env written s)"
proof -
  obtain fs where fs: "decode_all env (written (st_sink s)) = Ok fs" "list_all (frame_ok s) fs"
    "mem_ok s (records fs)"
    using storage_invD[OF assms(2)] by metis
  have k: "sink_inv (st_sink s)"
    using assms(2) by (simp add: storage_inv_def)
  obtain b where b: "sink_inv (st_sink s1)" "written (st_sink s1) = written (st_sink s) @ [b]"
    "decode_frame (we_crc env) (we_de env) b = Ok (Record r)"
    "s1 = s\<lparr>st_sink := st_sink s1, st_pending_unsynced := (if sync_now then 0 else st_pending_unsynced s + 1)\<rparr>"
    "sync_now \<longrightarrow> we_read env (st_sink s1) = written (st_sink s1)"
    using write_frame_Ok[OF assms(1) k w] by blast
  have sink: "st_sink s2 = st_sink s1"
    using same(1) by (simp add: same_store_def)
  have d: "decode_all env (written (st_sink s2)) = Ok (fs @ [Record r])"
    unfolding sink b(2) by (rule decode_all_snoc[OF fs(1) b(3)])
  have "mem_ok s1 (records fs)"
    using fs(3) by (subst b(4)) (simp add: mem_ok_def)
  then have m2: "mem_ok s2 (records (fs @ [Record r]))"
    using m[OF fs(3)] by (simp add: records_def)
  have s1: "st_files s1 = st_files s" "st_group_id s1 = st_group_id s"
    "st_format_version s1 = st_format_version s"
    "st_pending_unsynced s1 = (if sync_now then 0 else st_pending_unsynced s + 1)"
    using arg_cong[OF b(4), of st_files] arg_cong[OF b(4), of st_group_id]
      arg_cong[OF b(4), of st_format_version] arg_cong[OF b(4), of st_pending_unsynced] by simp_all
  have fo: "frame_ok s2 f = frame_ok s f" for f
    using same_store_frame_ok[OF same(1), of f] frame_ok_cong[OF s1(1-3), of f] by simp
  have "st_pending_unsynced s2 = 0 \<longrightarrow> synced env written s2" "sync_now \<longrightarrow> synced env written s2"
    using b(5) same(2) s1(4) by (auto simp: synced_def sink split: if_splits)
  moreover have "list_all (frame_ok s2) (fs @ [Record r])"
    using fs(2) assms(3) fo by (simp add: list_all_iff)
  ultimately have "storage_inv env written sink_inv s2 \<and> (sync_now \<longrightarrow> synced env written s2)"
    using b(1) d m2 by (simp add: storage_inv_def sink)
  then show ?thesis
    using fs(1) d by (simp add: log_of_eq records_def)
qed

end

context wal_sink
begin

lemma sync_wal_inv:
  assumes "storage_inv env written sink_inv s" "sync_wal env s = (Ok (), s')"
  shows "storage_inv env written sink_inv s' \<and> synced env written s' \<and>
    log_of env written s' = log_of env written s \<and> view_of env written s' = view_of env written s \<and>
    st_fsync_interval s' = st_fsync_interval s \<and> st_pending_unsynced s' = 0"
proof -
  obtain k where k: "we_sync env (st_sink s) = (Ok (), k)"
    and s': "s' = s\<lparr>st_sink := k, st_pending_unsynced := 0\<rparr>"
    using assms(2) by (auto simp: sync_wal_def Let_def split: sum.splits prod.splits)
  have "sink_inv (st_sink s)"
    using assms(1) by (simp add: storage_inv_def)
  from sync_law[OF this k] have k': "sink_inv k" "written k = written (st_sink s)" "we_read env k = written k"
    by simp_all
  have "frame_ok s' f = frame_ok s f" for f
    by (rule frame_ok_cong) (simp_all add: s')
  then have "storage_inv env written sink_inv s'"
    using assms(1) k' by (auto simp: storage_inv_def synced_def s' mem_ok_def list_all_iff split: sum.splits)
  then show ?thesis
    using k' by (simp add: synced_def log_of_def view_of_def s')
qed

lemma append_entry_inv:
  assumes "codec_ok env" "storage_inv env written sink_inv s"
  shows "\<exists>r s'. append_entry_with_sync env e sync_now s = Some (r, s') \<and>
    (r = Ok () \<longrightarrow> storage_inv env written sink_inv s' \<and>
       st_fsync_interval s' = st_fsync_interval s \<and>
       log_of env written s' = raw_step (AppendLog e) (log_of env written s) \<and>
       view_of env written s' = view_step (AppendLog e) (view_of env written s))"
proof (cases "write_frame env (Record (AppendLog e)) sync_now s")
  case (Pair r s1)
  show ?thesis
  proof (cases r)
    case (Inl er)
    then show ?thesis
      using Pair by (simp add: append_entry_with_sync_def)
  next
    case (Inr u)
    then have w: "write_frame env (Record (AppendLog e)) sync_now s = (Ok (), s1)"
      using Pair by simp
    obtain fs where fs: "mem_ok s (records fs)"
      using storage_invD[OF assms(2)] by metis
    have s1: "mem_ok s1 rs = mem_ok s rs" "st_fsync_interval s1 = st_fsync_interval s" for rs
      using w by (auto simp: write_frame_def mem_ok_def Let_def split: sum.splits prod.splits)
    obtain s2 where s2: "storage_insert e (remember_entry e s1) = Some s2"
      "same_store s1 s2" "st_pending_unsynced s2 = st_pending_unsynced s1"
      using mem_ok_insert[of s1 "records fs" e] fs s1 by blast
    have m: "mem_ok s2 (rs @ [AppendLog e])" if "mem_ok s1 rs" for rs
      using mem_ok_insert[OF that, of e] s2(1) by auto
    have inv2: "storage_inv env written sink_inv s2"
      "log_of env written s2 = raw_step (AppendLog e) (log_of env written s)"
      "view_of env written s2 = view_step (AppendLog e) (view_of env written s)"
      using write_record_inv[OF assms _ w m s2(2,3)] by simp_all
    have fi: "st_fsync_interval s2 = st_fsync_interval s"
      using s2(2) s1(2) by (simp add: same_store_def)
    show ?thesis
      using w s2(1) inv2 fi sync_wal_inv[OF inv2(1)]
      by (cases "sync_wal env s2") (auto simp: append_entry_with_sync_def)
  qed
qed

lemma append_entries_inv:
  assumes "codec_ok env" "storage_inv env written sink_inv s"
  shows "\<exists>r s'. append_entries env es s = Some (r, s') \<and>
    (r = Ok () \<longrightarrow> storage_inv env written sink_inv s' \<and>
       st_fsync_interval s' = st_fsync_interval s \<and>
       log_of env written s' = fold raw_step (map AppendLog es) (log_of env written s) \<and>
       view_of env written s' = fold view_step (map AppendLog es) (view_of env written s))"
  using assms(2)
proof (induction es arbitrary: s)
  case (Cons e es)
  obtain r s1 where s1: "append_entry_with_sync env e False s = Some (r, s1)"
    "r = Ok () \<longrightarrow> storage_inv env written sink_inv s1 \<and> st_fsync_interval s1 = st_fsync_interval s \<and>
       log_of env written s1 = raw_step (AppendLog e) (log_of env written s) \<and>
       view_of env written s1 = view_step (AppendLog e) (view_of env written s)"
    using append_entry_inv[OF assms(1) Cons.prems, of e False] by blast
  show ?case
  proof (cases r)
    case (Inr u)
    then have "storage_inv env written sink_inv s1"
      using s1(2) by simp
    then obtain r' s' where IH: "append_entries env es s1 = Some (r', s')"
      "r' = Ok () \<longrightarrow> storage_inv env written sink_inv s' \<and> st_fsync_interval s' = st_fsync_interval s1 \<and>
         log_of env written s' = fold raw_step (map AppendLog es) (log_of env written s1) \<and>
         view_of env written s' = fold view_step (map AppendLog es) (view_of env written s1)"
      using Cons.IH by blast
    show ?thesis
      by (rule exI[of _ r'], rule exI[of _ s']) (use s1 IH Inr in simp)
  qed (simp add: s1(1))
qed simp

lemma storage_append_refines:
  assumes "codec_ok env" "storage_inv env written sink_inv s"
  shows "\<exists>r s'. storage_append env es s = Some (r, s') \<and>
    (r = Ok () \<longrightarrow> storage_inv env written sink_inv s' \<and> (es \<noteq> [] \<longrightarrow> synced env written s') \<and>
       log_of env written s' = fold raw_step (map AppendLog es) (log_of env written s) \<and>
       view_of env written s' = fold view_step (map AppendLog es) (view_of env written s))"
proof (cases "es = []")
  case False
  obtain r s1 where s1: "append_entries env es s = Some (r, s1)"
    "r = Ok () \<longrightarrow> storage_inv env written sink_inv s1 \<and> st_fsync_interval s1 = st_fsync_interval s \<and>
       log_of env written s1 = fold raw_step (map AppendLog es) (log_of env written s) \<and>
       view_of env written s1 = fold view_step (map AppendLog es) (view_of env written s)"
    using append_entries_inv[OF assms, of es] by blast
  show ?thesis
  proof (cases r)
    case (Inr u)
    then have inv1: "storage_inv env written sink_inv s1"
      and logs: "log_of env written s1 = fold raw_step (map AppendLog es) (log_of env written s)"
      "view_of env written s1 = fold view_step (map AppendLog es) (view_of env written s)"
      using s1(2) by simp_all
    have pend: "st_pending_unsynced s1 = 0 \<Longrightarrow> synced env written s1"
      using inv1 by (simp add: storage_inv_def)
    obtain r' s' where s': "sync_wal env s1 = (r', s')"
      by (cases "sync_wal env s1")
    then have "r' = Ok () \<Longrightarrow> storage_inv env written sink_inv s' \<and> synced env written s' \<and>
       log_of env written s' = log_of env written s1 \<and> view_of env written s' = view_of env written s1 \<and>
       st_pending_unsynced s' = 0"
      using sync_wal_inv[OF inv1, of s'] by simp
    then show ?thesis
      using False s1(1) Inr inv1 pend s' unfolding logs[symmetric]
      by (auto simp: storage_append_def split: sum.splits)
  qed (simp add: s1(1) storage_append_def False)
qed (simp add: storage_append_def assms(2))

lemma storage_truncate_refines:
  assumes "codec_ok env" "storage_inv env written sink_inv s" "li_index lid \<noteq> - 1"
    and "storage_truncate env lid s = (Ok (), s')"
  shows "storage_inv env written sink_inv s' \<and> synced env written s' \<and>
    log_of env written s' = raw_step (Truncate lid) (log_of env written s) \<and>
    view_of env written s' = view_step (Truncate lid) (view_of env written s)"
proof -
  obtain s1 where w: "write_frame env (Record (Truncate lid)) True s = (Ok (), s1)"
    and s': "s' = s1\<lparr>st_cache := truncate_cache (li_index lid) (st_cache s1)\<rparr>"
    using assms(4) by (auto simp: storage_truncate_def split: sum.splits prod.splits)
  show ?thesis
    using write_record_inv[OF assms(1,2) _ w, of s'] mem_ok_truncate[of s1 _ lid] assms(3)
    by (simp add: s' same_store_def)
qed

lemma storage_purge_refines:
  assumes "codec_ok env" "storage_inv env written sink_inv s"
    and "storage_purge env lid s = (Ok (), s')"
  shows "storage_inv env written sink_inv s' \<and> synced env written s' \<and>
    log_of env written s' = raw_step (Purge lid) (log_of env written s) \<and>
    view_of env written s' = view_step (Purge lid) (view_of env written s)"
proof -
  obtain s1 where w: "write_frame env (Record (Purge lid)) True s = (Ok (), s1)"
    and s': "s' = s1\<lparr>st_cache := purge_cache (li_index lid) (st_cache s1), st_last_purged_log_id := Some lid\<rparr>"
    using assms(3) by (auto simp: storage_purge_def split: sum.splits prod.splits)
  show ?thesis
    using write_record_inv[OF assms(1,2) _ w, of s'] mem_ok_purge[of s1 _ lid]
    by (simp add: s' same_store_def)
qed

lemma save_vote_refines:
  assumes "codec_ok env" "storage_inv env written sink_inv s"
    and "save_vote env v s = (Ok (), s')"
  shows "storage_inv env written sink_inv s' \<and> synced env written s' \<and> read_vote s' = Some v \<and>
    log_of env written s' = log_of env written s \<and> view_of env written s' = view_of env written s"
proof -
  obtain s1 where w: "write_frame env (Record (VoteRecord v)) True s = (Ok (), s1)"
    and s': "s' = s1\<lparr>st_vote := Some v\<rparr>"
    using assms(3) by (auto simp: save_vote_def split: sum.splits prod.splits)
  show ?thesis
    using write_record_inv[OF assms(1,2) _ w, of s']
    by (simp add: s' same_store_def mem_ok_def read_vote_def)
qed

end

context wal_sink
begin

lemma install_snapshot_refines:
  assumes "codec_ok env" "storage_inv env written sink_inv s"
    and "install_snapshot env meta data s = (Ok (), s')"
  shows "storage_inv env written sink_inv s' \<and> synced env written s' \<and>
    log_of env written s' = log_of env written s \<and>
    view_of env written s' = view_step (SnapshotApplied meta) (view_of env written s)"
proof -
  let ?path = "snapshot_path (st_group_id s) (sm_snapshot_id meta)"
  obtain mb files sm s3 where
    f: "durably_replace (we_fault env ?path (encode_snapshot_file (we_crc env) mb data (st_snapshot_chunk_size s)))
          ?path (encode_snapshot_file (we_crc env) mb data (st_snapshot_chunk_size s)) (st_files s) = (Ok (), files)"
    and w: "write_frame env (Record (SnapshotApplied meta)) True (s\<lparr>st_files := files, st_state_machine := sm\<rparr>) = (Ok (), s3)"
    and s': "s' = s3\<lparr>st_snapshot_meta := Some meta, st_snapshot_path := Some ?path,
        st_last_applied := sm_last_log_id meta, st_last_membership := sm_last_membership meta,
        st_completed := st_completed s3 @ [(sm_snapshot_id meta, length data)]\<rparr>"
    using assms(3) by (auto simp: install_snapshot_def Let_def split: sum.splits prod.splits)
  let ?s2 = "s\<lparr>st_files := files, st_state_machine := sm\<rparr>"
  have files: "files = (st_files s)(?path \<mapsto> encode_snapshot_file (we_crc env) mb data (st_snapshot_chunk_size s))"
    using f by (auto elim: durably_replace.elims)
  have "frame_ok ?s2 fr" if "frame_ok s fr" for fr
  proof (cases fr)
    case (Record r)
    then show ?thesis
      using that by (cases r) (auto simp: files)
  qed (use that in simp)
  then have inv2: "storage_inv env written sink_inv ?s2"
    using assms(2) by (auto simp: storage_inv_def synced_def mem_ok_def list_all_iff split: sum.splits)
  have g: "st_group_id s3 = st_group_id s"
    using w by (auto simp: write_frame_def Let_def split: sum.splits prod.splits)
  have "log_of env written ?s2 = log_of env written s" "view_of env written ?s2 = view_of env written s"
    by (simp_all add: log_of_def view_of_def)
  then show ?thesis
    using write_record_inv[OF assms(1) inv2 _ w, of s'] g
    by (simp add: s' same_store_def mem_ok_def files)
qed

lemma try_get_log_entries_reads:
  assumes "storage_inv env written sink_inv s" "synced env written s" "\<not> range_panics rg"
  shows "\<exists>es s'. try_get_log_entries env rg s = Some (Ok es, s') \<and>
    storage_inv env written sink_inv s' \<and> log_of env written s' = log_of env written s \<and>
    sorted_wrt (<) (map entry_index es) \<and>
    (\<forall>e\<in>set es. range_contains rg (entry_index e) \<and> log_of env written s (entry_index e) = Some e) \<and>
    (\<forall>k e. range_contains rg k \<longrightarrow> view_of env written s k = Some e \<longrightarrow> e \<in> set es)"
proof -
  obtain fs where fs: "decode_all env (written (st_sink s)) = Ok fs" "fs \<noteq> []" "list_all (frame_ok s) fs"
    "mem_ok s (records fs)"
    using storage_invD[OF assms(1)] by metis
  have r: "decode_all env (we_read env (st_sink s)) = Ok fs"
    using fs(1) assms(2) by (simp add: synced_def)
  have c0: "cache_inv (st_log_cache_size s) (st_cache s)"
    "map_of (lc_map (st_cache s)) \<subseteq>\<^sub>m raw_log (records fs)"
    using fs(4) by (simp_all add: mem_ok_def)
  obtain es c where ec: "try_get_log_entries env rg s = Some (Ok es, s\<lparr>st_cache := c\<rparr>)"
    "cache_inv (st_log_cache_size s) c" "map_of (lc_map c) \<subseteq>\<^sub>m raw_log (records fs)"
    "sorted_wrt (<) (map entry_index es)"
    "\<forall>e\<in>set es. range_contains rg (entry_index e) \<and> raw_log (records fs) (entry_index e) = Some e"
    "\<forall>k e. range_contains rg k \<longrightarrow> wal_view (records fs) k = Some e \<longrightarrow> e \<in> set es"
    using try_get_log_entries_ok[OF c0(1) r c0(2) assms(3)] by blast
  have "frame_ok (s\<lparr>st_cache := c\<rparr>) f = frame_ok s f" for f
    by (rule frame_ok_cong) simp_all
  then have "storage_inv env written sink_inv (s\<lparr>st_cache := c\<rparr>)"
    using assms(1,2) fs ec(2,3) by (simp add: storage_inv_def synced_def mem_ok_def list_all_iff)
  then show ?thesis
    using ec fs(1) by (intro exI[of _ es] exI[of _ "s\<lparr>st_cache := c\<rparr>"]) (simp add: log_of_def view_of_def)
qed

lemma fresh_mem_ok: "mem_ok (fresh_storage dm s) []"
  by (simp add: mem_ok_def fresh_storage_def cache_inv_def cache_wf_def bt_inv_def vote_of_def
      purged_of_def snapshot_of_def)

lemma recover_rebuilds:
  assumes "storage_inv env written sink_inv s" "synced env written s"
    and "list_all fits (written (st_sink s))"
  shows "\<exists>s'. recover_with_sink env now dm s = Some (Ok (), s') \<and>
    storage_inv env written sink_inv s' \<and> synced env written s' \<and>
    log_of env written s' = log_of env written s \<and> view_of env written s' = view_of env written s \<and>
    read_vote s' = read_vote s \<and> st_last_purged_log_id s' = st_last_purged_log_id s \<and>
    get_current_snapshot env s' = get_current_snapshot env s"
proof -
  let ?s0 = "fresh_storage dm s"
  obtain fs where fs: "decode_all env (written (st_sink s)) = Ok fs" "fs \<noteq> []" "list_all (frame_ok s) fs"
    "mem_ok s (records fs)"
    using storage_invD[OF assms(1)] by metis
  have sink: "st_sink ?s0 = st_sink s" "we_read env (st_sink s) = written (st_sink s)"
    using assms(2) by (simp_all add: fresh_storage_def synced_def)
  have si: "sink_inv (st_sink s)"
    using assms(1) by (simp add: storage_inv_def)
  have "written (st_sink s) \<noteq> []"
    using fs(1,2) by auto
  then have ne: "\<not> we_empty env (st_sink s)"
    using empty_law[OF si] sink by simp
  have v: "we_validate env (st_sink s) = Ok ()"
    using validate_law[OF si sink(2) assms(3)] .
  have fo: "frame_ok ?s0 f = frame_ok s f" for f
    by (rule frame_ok_cong) (simp_all add: fresh_storage_def)
  have lf: "list_all (frame_ok ?s0) fs"
    using fs(3) fo by (simp add: list_all_iff)
  obtain s' where s': "replay_records env (we_read env (st_sink s)) ?s0 = Some (Ok (), s')"
    "mem_ok s' ([] @ records fs)" "same_store ?s0 s'"
    using replay_records_ok[OF fs(1) fresh_mem_ok lf] sink(2) by metis
  have eq: "st_sink s' = st_sink s" "st_files s' = st_files s" "st_group_id s' = st_group_id s"
    using s'(3) by (simp_all add: same_store_def fresh_storage_def)
  have "storage_inv env written sink_inv s'"
    using fs s'(2) si sink eq fo same_store_frame_ok[OF s'(3)]
    by (simp add: storage_inv_def synced_def list_all_iff)
  moreover have "st_snapshot_meta s' = st_snapshot_meta s" "st_snapshot_path s' = st_snapshot_path s"
    using s'(2) fs(4) eq by (simp_all add: mem_ok_def)
  then have "get_current_snapshot env s' = get_current_snapshot env s"
    by (simp only: get_current_snapshot_def eq)
  ultimately show ?thesis
    using s' fs(4) ne v sink eq
    by (intro exI[of _ s'])
      (simp add: recover_with_sink_def replay_wal_def Let_def synced_def log_of_def view_of_def
        read_vote_def mem_ok_def)
qed

lemma recover_creates:
  assumes "codec_ok env" "sink_inv (st_sink s)" "written (st_sink s) = []" "we_empty env (st_sink s)"
    and "recover_with_sink env now dm s = Some (Ok (), s')"
  shows "storage_inv env written sink_inv s' \<and> synced env written s' \<and>
    log_of env written s' = Map.empty \<and> read_vote s' = None"
proof -
  let ?s0 = "fresh_storage dm s"
  have k: "st_sink ?s0 = st_sink s"
    by (simp add: fresh_storage_def)
  have w: "write_frame env (Header (build_header now ?s0)) True ?s0 = (Ok (), s')"
    using assms(4,5) by (simp add: recover_with_sink_def Let_def k)
  obtain b where b: "sink_inv (st_sink s')" "written (st_sink s') = [] @ [b]"
    "decode_frame (we_crc env) (we_de env) b = Ok (Header (build_header now ?s0))"
    "s' = ?s0\<lparr>st_sink := st_sink s', st_pending_unsynced := 0\<rparr>"
    "we_read env (st_sink s') = written (st_sink s')"
    using write_frame_Ok[OF assms(1) _ w] assms(2,3) k by auto
  have m: "mem_ok s' []"
    using fresh_mem_ok[of dm s] by (subst b(4)) (simp add: mem_ok_def)
  have fv: "st_format_version s' = st_format_version ?s0"
    using arg_cong[OF b(4), of st_format_version] by simp
  then have "frame_ok s' (Header (build_header now ?s0))"
    by (simp add: build_header_def)
  then have "storage_inv env written sink_inv s'"
    using b(1,2,3,5) m by (simp add: storage_inv_def synced_def records_def)
  then show ?thesis
    using b(2,3,5) m
    by (simp add: synced_def log_of_def read_vote_def mem_ok_def vote_of_def records_def raw_log_def)
qed

end

section \<open>The file sink keeps the contract\<close>

lemma real_env_simps [simp]:
  "we_append (real_env cser rd env) = real_append (we_crc env) cser"
  "we_sync (real_env cser rd env) = real_sync"
  "we_empty (real_env cser rd env) = (\<lambda>k. real_image (we_crc env) k = [])"
  "we_validate (real_env cser rd env) = real_validate (we_crc env)"
  "we_read (real_env cser rd env) = real_read rd (we_crc env)"
  by (simp_all add: real_env_def)

lemma chunk_ok_whole: "chunk_ok cser c \<Longrightarrow> is_whole c"
  by (cases c) simp_all

lemma real_read_whole:
  assumes "real_inv cser k"
  shows "real_read rd crc k = map chunk_value (rs_disk k)"
proof -
  have "list_all is_whole (rs_disk k)"
    using assms chunk_ok_whole by (auto simp: real_inv_def list_all_iff)
  then show ?thesis
    by (simp add: real_read_def)
qed

lemma real_append_record_Ok:
  assumes "real_inv cser k" "real_append_record crc cser v k = (Ok (), k')"
  shows "real_inv cser (k'\<lparr>rs_dirty := True\<rparr>) \<and> real_written k' = real_written k @ [v]"
proof -
  obtain d n where d: "cser v = Ok d" and k': "rs_disk k' = rs_disk k @ take n (rs_buffer k)"
    "rs_buffer k' = drop n (rs_buffer k) @ [Whole v d]"
    using assms(2) by (auto simp: real_append_record_def Let_def split: sum.splits option.splits)
  have "rs_disk k' @ rs_buffer k' = (rs_disk k @ rs_buffer k) @ [Whole v d]"
    by (simp add: k')
  then show ?thesis
    using assms(1) d by (simp add: real_inv_def real_written_def del: map_append list_all_append) simp
qed

lemma real_sync_Ok:
  assumes "real_inv cser k" "real_sync k = (Ok (), k')"
  shows "real_inv cser k' \<and> real_written k' = real_written k \<and> real_read rd crc k' = real_written k'"
proof -
  have "real_inv cser k' \<and> real_written k' = real_written k \<and> rs_buffer k' = []"
    using assms
    by (auto simp: real_sync_def sync_writer_def real_inv_def real_written_def Let_def
        split: sum.splits option.splits if_splits prod.splits)
  then show ?thesis
    using real_read_whole[of cser k' rd crc] by (auto simp: real_written_def)
qed

lemma real_image_Nil: "real_inv cser k \<Longrightarrow> real_image crc k = [] \<longleftrightarrow> rs_disk k = []"
  by (cases "rs_disk k"; cases "hd (rs_disk k)") (auto simp: real_image_def real_inv_def)

lemma real_validate_whole:
  assumes "real_inv cser k" "list_all (fits_record cser) (map chunk_value (rs_disk k))"
  shows "real_validate crc k = Ok ()"
proof -
  define ds where "ds = map (\<lambda>c. case c of Whole v d \<Rightarrow> d | Torn d \<Rightarrow> d) (rs_disk k)"
  have w: "\<exists>v d. c = Whole v d \<and> cser v = Ok d" if "c \<in> set (rs_disk k)" for c
  proof -
    have "chunk_ok cser c"
      using assms(1) that by (simp add: real_inv_def list_all_iff)
    then show ?thesis
      by (cases c) simp_all
  qed
  have "map (chunk_image crc) (rs_disk k) = map (append_record crc) ds"
    unfolding ds_def map_map by (rule map_cong) (use w in force)+
  moreover have "\<forall>r\<in>set ds. length r < 2 ^ 32"
    using assms(2) w by (force simp: ds_def list_all_iff fits_record_def)
  ultimately show ?thesis
    using validate_whole_records[of ds crc] by (simp add: real_validate_def real_image_def)
qed

interpretation real: wal_sink "real_env cser rd env" real_written "real_inv cser" "fits_record cser"
  for cser rd env
proof
  fix k k' :: real_sink and b sync_now
  assume k: "real_inv cser k"
  show "real_inv cser k' \<and> real_written k' = real_written k @ [b] \<and>
      (sync_now \<longrightarrow> we_read (real_env cser rd env) k' = real_written k')"
    if a: "we_append (real_env cser rd env) b sync_now k = (Ok (), k')"
  proof -
    obtain k1 where k1: "real_append_record (we_crc env) cser b k = (Ok (), k1)"
      and k': "(if sync_now then real_sync (k1\<lparr>rs_dirty := True\<rparr>) else (Ok (), k1\<lparr>rs_dirty := True\<rparr>)) = (Ok (), k')"
      using a by (auto simp: real_append_def Let_def split: sum.splits prod.splits)
    have "real_written (k1\<lparr>rs_dirty := True\<rparr>) = real_written k1"
      by (simp add: real_written_def)
    then show ?thesis
      using real_append_record_Ok[OF k k1] k' real_sync_Ok[of cser "k1\<lparr>rs_dirty := True\<rparr>" k' rd "we_crc env"]
      by (auto split: if_splits)
  qed
  show "real_inv cser k' \<and> real_written k' = real_written k \<and> we_read (real_env cser rd env) k' = real_written k'"
    if "we_sync (real_env cser rd env) k = (Ok (), k')"
    using real_sync_Ok[OF k] that by simp
  show "we_validate (real_env cser rd env) k = Ok ()"
    if "we_read (real_env cser rd env) k = real_written k" "list_all (fits_record cser) (real_written k)"
    using real_validate_whole[OF k] that real_read_whole[OF k] by simp
  show "we_empty (real_env cser rd env) k \<longleftrightarrow> we_read (real_env cser rd env) k = []"
    using real_image_Nil[OF k] real_read_whole[OF k] by simp
qed

lemma real_env_codec [simp]:
  "we_ser (real_env cser rd env) = we_ser env" "we_de (real_env cser rd env) = we_de env"
  "we_crc (real_env cser rd env) = we_crc env" "we_ser_meta (real_env cser rd env) = we_ser_meta env"
  "we_de_meta (real_env cser rd env) = we_de_meta env" "we_fault (real_env cser rd env) = we_fault env"
  "we_sm_restore (real_env cser rd env) = we_sm_restore env"
  "codec_ok (real_env cser rd env) = codec_ok env"
  by (simp_all add: real_env_def codec_ok_def)

section \<open>Further facts about single operations\<close>

lemma write_frame_fields:
  assumes "write_frame env f sync_now s = (r, s')"
  shows "st_files s' = st_files s" "st_state_machine s' = st_state_machine s"
    "st_last_applied s' = st_last_applied s" "st_group_id s' = st_group_id s"
  using assms by (auto simp: write_frame_def Let_def split: sum.splits prod.splits)

lemma sync_wal_fields:
  assumes "sync_wal env s = (r, s')"
  shows "st_state_machine s' = st_state_machine s" "st_last_applied s' = st_last_applied s"
  using assms by (auto simp: sync_wal_def Let_def split: sum.splits prod.splits)

lemma append_entry_applied:
  assumes "append_entry_with_sync env e sync_now s = Some (Ok (), s')"
  shows "st_last_applied s' = Some (en_log_id e)" "st_state_machine s' = st_state_machine s"
proof -
  obtain s1 s2 where w: "write_frame env (Record (AppendLog e)) sync_now s = (Ok (), s1)"
    and i: "storage_insert e (remember_entry e s1) = Some s2"
    and r: "(if \<not> sync_now \<and> st_fsync_interval s2 > 0 \<and> st_pending_unsynced s2 \<ge> st_fsync_interval s2
              then sync_wal env s2 else (Ok (), s2)) = (Ok (), s')"
    using assms by (auto simp: append_entry_with_sync_def split: sum.splits prod.splits option.splits)
  have "st_last_applied s2 = Some (en_log_id e)" "st_state_machine s2 = st_state_machine s1"
    using i by (auto simp: storage_insert_def remember_entry_def Let_def split: entry_payload.splits)
  then show "st_last_applied s' = Some (en_log_id e)" "st_state_machine s' = st_state_machine s"
    using r sync_wal_fields[of env s2] write_frame_fields(2)[OF w] by (auto split: if_splits)
qed

lemma append_entries_applied:
  assumes "append_entries env es s = Some (Ok (), s')"
  shows "st_state_machine s' = st_state_machine s \<and>
    (es \<noteq> [] \<longrightarrow> st_last_applied s' = Some (en_log_id (last es)))"
  using assms
proof (induction es arbitrary: s)
  case (Cons e es)
  then obtain s1 where s1: "append_entry_with_sync env e False s = Some (Ok (), s1)"
    "append_entries env es s1 = Some (Ok (), s')"
    by (auto split: option.splits sum.splits)
  show ?case
    using Cons.IH[OF s1(2)] append_entry_applied[OF s1(1)] s1(2) by (cases es) simp_all
qed simp

lemma installed_snapshot_current:
  assumes "install_snapshot env meta data s = (Ok (), s')"
    and "we_ser_meta env meta = Ok mb" "we_de_meta env mb = Ok meta"
    and "mb \<noteq> []" "length mb < 2 ^ 32" "st_snapshot_chunk_size s < 2 ^ 32"
  shows "get_current_snapshot env s' = Ok (Some (meta, data))"
proof -
  let ?path = "snapshot_path (st_group_id s) (sm_snapshot_id meta)"
  let ?file = "encode_snapshot_file (we_crc env) mb data (st_snapshot_chunk_size s)"
  obtain files sm s3 where
    f: "durably_replace (we_fault env ?path ?file) ?path ?file (st_files s) = (Ok (), files)"
    and w: "write_frame env (Record (SnapshotApplied meta)) True (s\<lparr>st_files := files, st_state_machine := sm\<rparr>) = (Ok (), s3)"
    and s': "s' = s3\<lparr>st_snapshot_meta := Some meta, st_snapshot_path := Some ?path,
        st_last_applied := sm_last_log_id meta, st_last_membership := sm_last_membership meta,
        st_completed := st_completed s3 @ [(sm_snapshot_id meta, length data)]\<rparr>"
    using assms(1,2) by (auto simp: install_snapshot_def Let_def split: sum.splits prod.splits)
  have "files ?path = Some ?file"
    using f by (auto elim: durably_replace.elims)
  then show ?thesis
    using write_frame_fields(1)[OF w] read_encode_snapshot_file[OF assms(4-6), of "we_crc env" data] assms(3)
    by (simp add: s' get_current_snapshot_def)
qed

section \<open>A small instance\<close>

text \<open>Three entries, a purge, a truncation, a vote and a snapshot, with a table as serialiser.\<close>

definition demo_entry :: "u64 \<Rightarrow> unit entry" where
  "demo_entry i = \<lparr>en_log_id = LogId 1 1 i, en_payload = Blank\<rparr>"

definition demo_header :: "unit wal_frame" where
  "demo_header = Header \<lparr>wh_magic = WAL_MAGIC, wh_format_version = 1, wh_group_id = GroupId 1,
     wh_node_id = 1, wh_created_at = 0, wh_reserved = []\<rparr>"

definition demo_vote :: vote where
  "demo_vote = \<lparr>vt_term = 1, vt_node = 1, vt_committed = True\<rparr>"

definition demo_meta :: "unit snapshot_meta" where
  "demo_meta = \<lparr>sm_last_log_id = Some (LogId 1 1 1), sm_last_membership = (None, ()), sm_snapshot_id = ''a''\<rparr>"

definition demo_table :: "(unit wal_frame \<times> bytes) list" where
  "demo_table = [(demo_header, [0]), (Record (AppendLog (demo_entry 1)), [1]),
     (Record (AppendLog (demo_entry 2)), [2]), (Record (AppendLog (demo_entry 3)), [3]),
     (Record (Truncate (LogId 1 1 1)), [4]), (Record (Purge (LogId 1 1 1)), [5]),
     (Record (VoteRecord demo_vote), [6]), (Record (SnapshotApplied demo_meta), [7])]"

definition demo_env :: "(unit, real_sink, nat) wal_env" where
  "demo_env =
     \<lparr>we_ser = (\<lambda>f. case map_of demo_table f of Some b \<Rightarrow> Ok b | None \<Rightarrow> Err ''size limit''),
      we_de = (\<lambda>b. case map_of (map (\<lambda>(f, b). (b, f)) demo_table) b of
                     Some f \<Rightarrow> Ok f | None \<Rightarrow> Err ''unexpected end''),
      we_ser_meta = (\<lambda>_. Ok [9]), we_de_meta = (\<lambda>_. Ok demo_meta), we_crc = (\<lambda>_. 0),
      we_append = (\<lambda>_ _ k. (Ok (), k)), we_sync = (\<lambda>k. (Ok (), k)), we_empty = (\<lambda>_. True),
      we_validate = (\<lambda>_. Ok ()), we_read = (\<lambda>_. []),
      we_sm_apply = (\<lambda>_ _ n. (Ok [], n + 1)), we_sm_restore = (\<lambda>_ n. (Ok (), n)),
      we_sm_snapshot = (\<lambda>_. Ok []), we_fault = (\<lambda>_ _. NoFault)\<rparr>"

abbreviation demo :: "(unit, real_sink, nat) wal_env" where
  "demo \<equiv> real_env Ok (\<lambda>_. []) demo_env"

text \<open>The bytes of a frame inside its record, with the constant checksum.\<close>

abbreviation demo_chunk :: "u8 \<Rightarrow> sink_chunk" where
  "demo_chunk b \<equiv> Whole [0, 0, 0, 0, b] [0, 0, 0, 0, b]"

definition demo_storage :: "u8 list \<Rightarrow> (u64 \<times> unit entry) list \<Rightarrow> (unit, real_sink, nat) wal_storage" where
  "demo_storage file cached =
     \<lparr>st_log_cache_size = 2, st_fsync_interval = 0, st_format_version = 1, st_snapshot_chunk_size = 4,
      st_group_id = GroupId 1, st_node_id = 1,
      st_sink = \<lparr>rs_disk = map (\<lambda>b. demo_chunk b) file, rs_buffer = [], rs_dirty = False,
                 rs_io = (\<lambda>_. \<lparr>io_error = None, io_taken = 0, io_spill = 0\<rparr>), rs_ops = 0\<rparr>,
      st_vote = None, st_cache = \<lparr>lc_map = cached, lc_order = map fst cached\<rparr>, st_pending_unsynced = 0,
      st_last_purged_log_id = None, st_purgeable_horizon = None, st_last_applied = None,
      st_last_membership = (None, ()), st_snapshot_meta = None, st_snapshot_path = None,
      st_files = Map.empty, st_state_machine = 0, st_completed = []\<rparr>"

lemmas demo_defs = demo_entry_def demo_header_def demo_vote_def demo_meta_def demo_table_def
  WAL_MAGIC_def entry_index_def

lemma demo_codec: "codec_ok demo_env"
  by (simp add: codec_ok_def demo_env_def demo_defs)

lemma demo_decode [simp]:
  "decode_frame (we_crc demo_env) (we_de demo_env) [0, 0, 0, 0, b] =
     (case map_of (map (\<lambda>(f, b). (b, f)) demo_table) [b] of Some f \<Rightarrow> Ok f | None \<Rightarrow> Err ''unexpected end'')"
  by (simp add: decode_frame_def demo_env_def slice_range_def from_le_bytes_def)

lemma demo_inv:
  "storage_inv demo real_written (real_inv Ok) (demo_storage [0, 1, 2] [(1, demo_entry 1), (2, demo_entry 2)])"
  by (simp add: storage_inv_def demo_storage_def real_inv_def synced_def real_written_def
      real_read_def mem_ok_def cache_inv_def cache_wf_def bt_inv_def demo_defs
      records_def raw_log_def vote_of_def purged_of_def snapshot_of_def map_le_def)

section \<open>Properties\<close>

abbreviation file_inv ::
  "(bytes \<Rightarrow> string + bytes) \<Rightarrow> (bytes \<Rightarrow> bytes list) \<Rightarrow> ('m, real_sink, 'sm) wal_env
     \<Rightarrow> ('m, real_sink, 'sm) wal_storage \<Rightarrow> bool" where
  "file_inv cser rd env \<equiv> storage_inv (real_env cser rd env) real_written (real_inv cser)"

abbreviation file_synced ::
  "(bytes \<Rightarrow> string + bytes) \<Rightarrow> (bytes \<Rightarrow> bytes list) \<Rightarrow> ('m, real_sink, 'sm) wal_env
     \<Rightarrow> ('m, real_sink, 'sm) wal_storage \<Rightarrow> bool" where
  "file_synced cser rd env \<equiv> synced (real_env cser rd env) real_written"

abbreviation file_log ::
  "(bytes \<Rightarrow> string + bytes) \<Rightarrow> (bytes \<Rightarrow> bytes list) \<Rightarrow> ('m, real_sink, 'sm) wal_env
     \<Rightarrow> ('m, real_sink, 'sm) wal_storage \<Rightarrow> u64 \<Rightarrow> 'm entry option" where
  "file_log cser rd env \<equiv> log_of (real_env cser rd env) real_written"

abbreviation file_view ::
  "(bytes \<Rightarrow> string + bytes) \<Rightarrow> (bytes \<Rightarrow> bytes list) \<Rightarrow> ('m, real_sink, 'sm) wal_env
     \<Rightarrow> ('m, real_sink, 'sm) wal_storage \<Rightarrow> u64 \<Rightarrow> 'm entry option" where
  "file_view cser rd env \<equiv> view_of (real_env cser rd env) real_written"





text \<open>
  (C12) A range read returns the log entries of the range in strictly increasing index order:
  only entries of the log, and all of those that no installed snapshot covers; whatever the cache
  held or evicts meanwhile.
\<close>

theorem wal_range_read_is_exact:
  assumes "file_inv cser rd env s" "file_synced cser rd env s" "\<not> range_panics rg"
  shows "\<exists>es s'. try_get_log_entries (real_env cser rd env) rg s = Some (Ok es, s') \<and>
    file_inv cser rd env s' \<and> file_log cser rd env s' = file_log cser rd env s \<and>
    sorted_wrt (<) (map entry_index es) \<and>
    (\<forall>e\<in>set es. range_contains rg (entry_index e) \<and> file_log cser rd env s (entry_index e) = Some e) \<and>
    (\<forall>k e. range_contains rg k \<longrightarrow> file_view cser rd env s k = Some e \<longrightarrow> e \<in> set es)"
  using assms by (rule real.try_get_log_entries_reads)

theorem wal_range_read_is_exact_witness:
  "\<exists>es s'. try_get_log_entries demo (Included 1, Excluded 3)
     (demo_storage [0, 1, 2] [(1, demo_entry 1), (2, demo_entry 2)]) = Some (Ok es, s')
     \<and> sorted_wrt (<) (map entry_index es)"
proof -
  have "synced demo real_written (demo_storage [0, 1, 2] [(1, demo_entry 1), (2, demo_entry 2)])"
    by (simp add: synced_def demo_storage_def real_read_def real_written_def)
  then show ?thesis
    using wal_range_read_is_exact[OF demo_inv, of "(Included 1, Excluded 3)"] by auto
qed

text \<open>
  (C3) Restart: opening the storage again on its own synced file succeeds and brings back the
  same log, vote, purge mark and current snapshot.
\<close>

theorem wal_recovery_restores_state:
  assumes "file_inv cser rd env s" "file_synced cser rd env s"
    and "list_all (fits_record cser) (real_written (st_sink s))"
  shows "\<exists>s'. recover_with_sink (real_env cser rd env) now dm s = Some (Ok (), s') \<and>
    file_inv cser rd env s' \<and> file_log cser rd env s' = file_log cser rd env s \<and>
    read_vote s' = read_vote s \<and> st_last_purged_log_id s' = st_last_purged_log_id s \<and>
    get_current_snapshot (real_env cser rd env) s' = get_current_snapshot (real_env cser rd env) s"
  using real.recover_rebuilds[OF assms, of now dm] by blast

theorem wal_recovery_restores_state_witness:
  "\<exists>s'. recover_with_sink demo 7 (None, ()) (demo_storage [0, 1, 2] [(1, demo_entry 1), (2, demo_entry 2)])
      = Some (Ok (), s') \<and> read_vote s' = None"
proof -
  let ?s = "demo_storage [0, 1, 2] [(1, demo_entry 1), (2, demo_entry 2)]"
  have s: "synced demo real_written ?s" "list_all (fits_record Ok) (real_written (st_sink ?s))" "read_vote ?s = None"
    by (simp_all add: synced_def demo_storage_def real_read_def real_written_def fits_record_def read_vote_def)
  show ?thesis
    using wal_recovery_restores_state[OF demo_inv s(1,2), of 7 "(None, ())"] s(3) by auto
qed

text \<open>
  (C27) An installed snapshot is the current snapshot, with its meta data and content intact, and
  its installation keeps the log.
\<close>

theorem installed_snapshot_is_current:
  assumes "codec_ok env" "file_inv cser rd env s"
    and "install_snapshot (real_env cser rd env) meta data s = (Ok (), s')"
    and "we_ser_meta env meta = Ok mb" "we_de_meta env mb = Ok meta"
    and "mb \<noteq> []" "length mb < 2 ^ 32" "st_snapshot_chunk_size s < 2 ^ 32"
  shows "get_current_snapshot (real_env cser rd env) s' = Ok (Some (meta, data)) \<and>
    file_inv cser rd env s' \<and> file_synced cser rd env s' \<and>
    file_log cser rd env s' = file_log cser rd env s"
  using installed_snapshot_current[OF assms(3)] real.install_snapshot_refines[of cser rd env s meta data s'] assms
  by simp

theorem installed_snapshot_is_current_witness:
  "\<exists>s'. install_snapshot demo demo_meta [1, 2, 3, 4, 5, 6]
       (demo_storage [0, 1, 2] [(1, demo_entry 1), (2, demo_entry 2)]) = (Ok (), s')
     \<and> get_current_snapshot demo s' = Ok (Some (demo_meta, [1, 2, 3, 4, 5, 6]))"
proof -
  let ?s = "demo_storage [0, 1, 2] [(1, demo_entry 1), (2, demo_entry 2)]"
  obtain s' where s': "install_snapshot demo demo_meta [1, 2, 3, 4, 5, 6] ?s = (Ok (), s')"
    by (simp add: install_snapshot_def write_frame_def encode_frame_def demo_env_def demo_defs
        real_append_def real_append_record_def real_sync_def sync_writer_def demo_storage_def Let_def)
  have "get_current_snapshot demo s' = Ok (Some (demo_meta, [1, 2, 3, 4, 5, 6]))"
    using installed_snapshot_is_current[OF demo_codec demo_inv s', of "[9]"]
    by (simp add: demo_env_def demo_storage_def)
  then show ?thesis
    using s' by blast
qed

text \<open>
  Appending marks the entries as applied although the state machine has not seen them: after
  a successful append the reported applied position is the last appended entry, the state machine
  is unchanged, and a snapshot taken then pairs that position with the unchanged state.
\<close>

theorem append_reports_unapplied_entries_as_applied:
  assumes "storage_append env es s = Some (Ok (), s')" "es \<noteq> []"
    and "we_sm_snapshot env (st_state_machine s) = Ok data"
  shows "fst (applied_state s') = Some (en_log_id (last es)) \<and> st_state_machine s' = st_state_machine s \<and>
    (\<exists>b. get_snapshot_builder env now s' = Some b \<and> sb_data b = data \<and>
         sm_last_log_id (sb_meta b) = Some (en_log_id (last es)))"
proof -
  obtain s1 where s1: "append_entries env es s = Some (Ok (), s1)"
    using assms(1,2) by (auto simp: storage_append_def split: option.splits sum.splits)
  have "st_last_applied s' = st_last_applied s1 \<and> st_state_machine s' = st_state_machine s1"
    using assms(1,2) s1 sync_wal_fields[of env]
    by (auto simp: storage_append_def Let_def split: sum.splits prod.splits if_splits)
  then show ?thesis
    using append_entries_applied[OF s1] assms(2,3)
    by (simp add: applied_state_def get_snapshot_builder_def Let_def)
qed

theorem append_reports_unapplied_entries_as_applied_witness:
  "\<exists>s'. storage_append demo [demo_entry 3] (demo_storage [0, 1, 2] []) = Some (Ok (), s') \<and>
     fst (applied_state s') = Some (LogId 1 1 3) \<and> st_state_machine s' = 0"
proof -
  obtain s' where s': "storage_append demo [demo_entry 3] (demo_storage [0, 1, 2] []) = Some (Ok (), s')"
    by (simp add: storage_append_def append_entry_with_sync_def write_frame_def encode_frame_def demo_env_def
        demo_defs real_append_def real_append_record_def real_sync_def sync_writer_def demo_storage_def Let_def
        storage_insert_def insert_entry_def remember_entry_def touch_cache_def evict_loop.simps sync_wal_def)
  then show ?thesis
    using append_reports_unapplied_entries_as_applied[OF s', of "[]" 0]
    by (simp add: demo_env_def real_env_def demo_storage_def demo_entry_def)
qed

text \<open>
  The reported last log position is that of the cache, not of the log: with room for two
  entries, a file holding entries 1 to 3 and a truncation back to 1 recovers with entry 1 in the
  log and no last log position at all.
\<close>

theorem recovered_log_state_misses_entries:
  "\<exists>s'. recover_with_sink demo 0 (None, ()) (demo_storage [0, 1, 2, 3, 4] []) = Some (Ok (), s') \<and>
     log_of demo real_written s' 1 = Some (demo_entry 1) \<and> get_log_state s' = (None, None)"
proof -
  let ?s = "demo_storage [0, 1, 2, 3, 4] []"
  have "real_validate (we_crc demo_env) (st_sink ?s) = Ok ()"
    by (rule real_validate_whole[of Ok]) (simp_all add: demo_storage_def real_inv_def fits_record_def)
  then show ?thesis
    by (simp add: recover_with_sink_def replay_wal_def fresh_storage_def demo_storage_def real_image_def
        real_read_def real_written_def log_of_def get_log_state_def last_log_id_def demo_defs replay_frame_def
        apply_wal_record_def storage_insert_def insert_entry_def remember_entry_def touch_cache_def
        truncate_cache_def evict_loop.simps bt_range_def bt_remove_def bt_last_def records_def raw_log_def Let_def
        word_le_nat_alt)
qed

end
