(* ===== verification/Multi_Raft.thy ===== *)
theory Multi_Raft
  imports Raft_Rpc Wal_Log
begin

text \<open>
  Many Raft groups on one node, \<^verbatim>\<open>alopex-chirps/src/multi_raft\<close>: the storage namespace of a group
  (\<^verbatim>\<open>id.rs\<close>), the transactional storage factory (\<^verbatim>\<open>storage.rs\<close>), the lifecycle of a
  group (\<^verbatim>\<open>group.rs\<close>) and the registry that creates, routes to and removes groups (\<^verbatim>\<open>manager.rs\<close>).
  Operations of the registry run under its lifecycle lock, so they are functions on its state; the lifecycle of
  one group, where operations and shutdown race, is a step relation.  What openraft and the file system
  answer is in the environment \<open>multi_env\<close>.
\<close>

section \<open>Errors\<close>

datatype multi_raft_error =
    GroupAlreadyExists group_id
  | UnknownGroup group_id
  | GroupUnavailable group_id
  | GroupLimitExceeded nat
  | InvalidGroupId string
  | StorageCreation group_id string
  | NodeInitialization group_id string
  | TransportRegistration group_id string
  | Routing group_id string
  | MembershipFailure group_id string
  | InvalidTransportRoute string
  | ShutdownFailure group_id string
  | UnsupportedProfile string string

section \<open>Namespaces\<close>

definition NAMESPACE_PREFIX :: string where
  "NAMESPACE_PREFIX = ''groups/''"

definition GROUP_ID_HEX_LEN :: nat where
  "GROUP_ID_HEX_LEN = 16"

text \<open>The format \<^verbatim>\<open>{:016x}\<close> and \<^verbatim>\<open>from_str_radix(16)\<close> on lower-case digits.\<close>

definition hex_digit :: "nat \<Rightarrow> char" where
  "hex_digit d = (if d < 10 then char_of (48 + d) else char_of (87 + d))"

primrec hex_of :: "nat \<Rightarrow> nat \<Rightarrow> string" where
  "hex_of 0 x = []"
| "hex_of (Suc n) x = hex_of n (x div 16) @ [hex_digit (x mod 16)]"

definition is_hex :: "char \<Rightarrow> bool" where
  "is_hex c = (let v = of_char c :: nat in (48 \<le> v \<and> v \<le> 57) \<or> (97 \<le> v \<and> v \<le> 102))"

definition hex_digit_value :: "char \<Rightarrow> nat" where
  "hex_digit_value c = (let v = of_char c :: nat in if v \<le> 57 then v - 48 else v - 87)"

definition hex_value :: "string \<Rightarrow> nat" where
  "hex_value s = foldl (\<lambda>acc c. 16 * acc + hex_digit_value c) 0 s"

definition group_namespace :: "group_id \<Rightarrow> string" where
  "group_namespace g = NAMESPACE_PREFIX @ hex_of GROUP_ID_HEX_LEN (unat (group_num g))"

definition parse_group_namespace :: "string \<Rightarrow> multi_raft_error + group_id" where
  "parse_group_namespace value =
     (if take (length NAMESPACE_PREFIX) value \<noteq> NAMESPACE_PREFIX then Err (InvalidGroupId value)
      else let hex = drop (length NAMESPACE_PREFIX) value
           in if length hex \<noteq> GROUP_ID_HEX_LEN \<or> \<not> list_all is_hex hex then Err (InvalidGroupId value)
              else if hex_value hex \<ge> 2 ^ 64 then Err (InvalidGroupId value)
              else let g = GroupId (of_nat (hex_value hex))
                   in if group_namespace g \<noteq> value then Err (InvalidGroupId value) else Ok g)"

section \<open>Configuration and environment\<close>

record raft_config =
  rcf_group_id :: group_id
  rcf_node_id :: u64
  rcf_election_timeout_ms :: u64
  rcf_heartbeat_interval_ms :: u64
  rcf_max_batch_size :: nat
  rcf_proposal_concurrency :: nat
  rcf_snapshot_threshold :: u64
  rcf_max_in_snapshot_log_to_keep :: u64
  rcf_snapshot_chunk_threshold :: nat
  rcf_snapshot_chunk_size :: nat
  rcf_snapshot_max_concurrent_chunks :: nat
  rcf_snapshot_max_retries :: nat

definition raft_config_default :: raft_config where
  "raft_config_default =
     \<lparr>rcf_group_id = GroupId 0, rcf_node_id = 0, rcf_election_timeout_ms = 150, rcf_heartbeat_interval_ms = 50,
      rcf_max_batch_size = 1000, rcf_proposal_concurrency = 64, rcf_snapshot_threshold = 10000,
      rcf_max_in_snapshot_log_to_keep = 1000, rcf_snapshot_chunk_threshold = 10 * 1024 * 1024,
      rcf_snapshot_chunk_size = 1024 * 1024, rcf_snapshot_max_concurrent_chunks = 4, rcf_snapshot_max_retries = 3\<rparr>"

definition raft_snapshot_transfer_config :: "raft_config \<Rightarrow> snapshot_transfer_config" where
  "raft_snapshot_transfer_config c =
     \<lparr>chunk_threshold = rcf_snapshot_chunk_threshold c, cfg_chunk_size = rcf_snapshot_chunk_size c,
      max_concurrent_chunks = rcf_snapshot_max_concurrent_chunks c, max_retries = rcf_snapshot_max_retries c,
      transfer_timeout = 60 * 10 ^ 9\<rparr>"

text \<open>
  The environment: openraft's handlers; recovery of a storage from its two directories (absent or with a
  content), which also leaves them in some state; the outcomes of creating, initialising, ticking and stopping a core; the error
  of removing a directory, if any; and the texts of errors.
\<close>

record ('m, 'r, 'd, 's) multi_env =
  me_raft :: "('m, 'r) raft_env"
  me_recover :: "group_id \<Rightarrow> u64 \<Rightarrow> 'd option \<Rightarrow> 'd option \<Rightarrow> (string + 's) \<times> 'd option \<times> 'd option"
  me_raft_new :: "raft_config \<Rightarrow> 's \<Rightarrow> openraft_error + 'r"
  me_initialize :: "u64 list \<Rightarrow> 'r \<Rightarrow> (openraft_error + unit) \<times> 'r"
  me_node_shutdown :: "'r \<Rightarrow> (string + unit) \<times> 'r"
  me_heartbeat :: "'r \<Rightarrow> (openraft_error + unit) \<times> 'r"
  me_remove_error :: "string \<Rightarrow> string option"
  me_error_text :: "raft_error \<Rightarrow> string"
  me_transport_text :: "transport_error \<Rightarrow> string"

section \<open>The storage factory\<close>

type_synonym 'd directories = "string \<Rightarrow> 'd option"

record wal_storage_factory =
  sf_wal_dir :: string
  sf_snapshot_dir :: string
  sf_node_id :: u64

record 's storage_transaction =
  tx_group_id :: group_id
  tx_namespace :: string
  tx_wal_dir :: string
  tx_snapshot_dir :: string
  tx_storage :: 's

definition path_join :: "string \<Rightarrow> string \<Rightarrow> string" where
  "path_join base rest = base @ ''/'' @ rest"

definition remove_dir_if_present ::
  "('m, 'r, 'd, 's) multi_env \<Rightarrow> string \<Rightarrow> 'd directories \<Rightarrow> (string + unit) \<times> 'd directories" where
  "remove_dir_if_present env path fs =
     (if fs path = None then (Ok (), fs)
      else case me_remove_error env path of
        Some e \<Rightarrow> (Err e, fs)
      | None \<Rightarrow> (Ok (), fs(path := None)))"

definition remove_group_dirs ::
  "('m, 'r, 'd, 's) multi_env \<Rightarrow> string \<Rightarrow> string \<Rightarrow> 'd directories \<Rightarrow> (string + unit) \<times> 'd directories" where
  "remove_group_dirs env wal_dir snapshot_dir fs =
     (let (r, fs1) = remove_dir_if_present env wal_dir fs
      in case r of
           Inl e \<Rightarrow> (Err e, fs1)
         | Inr _ \<Rightarrow> if snapshot_dir \<noteq> wal_dir then remove_dir_if_present env snapshot_dir fs1 else (Ok (), fs1))"

definition begin_storage ::
  "('m, 'r, 'd, 's) multi_env \<Rightarrow> wal_storage_factory \<Rightarrow> group_id \<Rightarrow> 'd directories
     \<Rightarrow> (multi_raft_error + 's storage_transaction) \<times> 'd directories" where
  "begin_storage env fac g fs =
     (let namespace = group_namespace g; wal_dir = path_join (sf_wal_dir fac) namespace;
          snapshot_dir = path_join (sf_snapshot_dir fac) namespace;
          (r, wal, snap) = me_recover env g (sf_node_id fac) (fs wal_dir) (fs snapshot_dir);
          fs1 = fs(wal_dir := wal, snapshot_dir := snap)
      in case r of
           Inr storage \<Rightarrow>
             (Ok \<lparr>tx_group_id = g, tx_namespace = namespace, tx_wal_dir = wal_dir, tx_snapshot_dir = snapshot_dir,
                  tx_storage = storage\<rparr>, fs1)
         | Inl e \<Rightarrow>
             (let (cleanup, fs2) = remove_group_dirs env wal_dir snapshot_dir fs1
              in (Err (StorageCreation g (case cleanup of Inr _ \<Rightarrow> e
                    | Inl c \<Rightarrow> e @ ''; partial-state cleanup failed: '' @ c)), fs2)))"

definition transaction_commit :: "'s storage_transaction \<Rightarrow> 's" where
  "transaction_commit tx = tx_storage tx"

definition transaction_abort ::
  "('m, 'r, 'd, 's) multi_env \<Rightarrow> 's storage_transaction \<Rightarrow> 'd directories \<Rightarrow> (multi_raft_error + unit) \<times> 'd directories" where
  "transaction_abort env tx fs =
     (let (r, fs1) = remove_group_dirs env (tx_wal_dir tx) (tx_snapshot_dir tx) fs
      in (case r of
            Inl e \<Rightarrow> Err (StorageCreation (tx_group_id tx) (''partial-state cleanup failed: '' @ e))
          | Inr _ \<Rightarrow> Ok (), fs1))"

section \<open>Groups\<close>

text \<open>
  A group handle between two operations: admission, the result of its shutdown once it ran, its node
  and its transport.
\<close>

record ('m, 'r) group_handle =
  gh_group_id :: group_id
  gh_node :: "('m, 'r) raft_node"
  gh_transport :: raft_transport
  gh_accepting :: bool
  gh_shutdown_result :: "(string + unit) option"
  gh_proposal_permits :: nat

definition group_handle_new :: "group_id \<Rightarrow> ('m, 'r) raft_node \<Rightarrow> raft_transport \<Rightarrow> nat \<Rightarrow> ('m, 'r) group_handle" where
  "group_handle_new g node t proposal_concurrency =
     \<lparr>gh_group_id = g, gh_node = node, gh_transport = t, gh_accepting = True, gh_shutdown_result = None,
      gh_proposal_permits = max proposal_concurrency 1\<rparr>"

definition lifecycle_acquire :: "('m, 'r) group_handle \<Rightarrow> multi_raft_error + unit" where
  "lifecycle_acquire h = (if gh_accepting h then Ok () else Err (GroupUnavailable (gh_group_id h)))"

definition group_propose ::
  "('m, 'r, 'd, 's) multi_env \<Rightarrow> bytes \<Rightarrow> ('m, 'r) group_handle \<Rightarrow> (multi_raft_error + bytes) \<times> ('m, 'r) group_handle" where
  "group_propose env command h =
     (case lifecycle_acquire h of
        Inl e \<Rightarrow> (Err e, h)
      | Inr _ \<Rightarrow>
          (let (r, node) = node_propose (me_raft env) command (gh_node h)
           in (case r of Inl e \<Rightarrow> Err (Routing (gh_group_id h) (me_error_text env e)) | Inr x \<Rightarrow> Ok x, h\<lparr>gh_node := node\<rparr>)))"

text \<open>\<open>None\<close> is a panic in the handler of the node.\<close>

definition group_handle_message ::
  "('m, 'r, 'd, 's) multi_env \<Rightarrow> 'm raft_frame_payload \<Rightarrow> ('m, 'r) group_handle
     \<Rightarrow> ((multi_raft_error + 'm raft_message) \<times> ('m, 'r) group_handle) option" where
  "group_handle_message env payload h =
     (case lifecycle_acquire h of
        Inl e \<Rightarrow> Some (Err e, h)
      | Inr _ \<Rightarrow>
          map_option (\<lambda>(r, _, node).
              (case r of Inl e \<Rightarrow> Err (Routing (gh_group_id h) (me_error_text env e)) | Inr m \<Rightarrow> Ok m, h\<lparr>gh_node := node\<rparr>))
            (handle_message (me_raft env) payload (gh_node h)))"

text \<open>A response completes a call before the lifecycle is asked, a request needs admission.\<close>

definition group_dispatch_message ::
  "('m, 'r, 'd, 's) multi_env \<Rightarrow> u64 \<Rightarrow> 'm raft_frame_payload \<Rightarrow> ('m, 'r) group_handle
     \<Rightarrow> ((multi_raft_error + 'm raft_message option) \<times> ('m, 'r) group_handle) option" where
  "group_dispatch_message env source payload h =
     (let (r, _, t) = consume_incoming_from source payload (gh_transport h); h1 = h\<lparr>gh_transport := t\<rparr>
      in case r of
           Inl e \<Rightarrow> Some (Err (Routing (gh_group_id h) (me_transport_text env e)), h1)
         | Inr None \<Rightarrow> Some (Ok None, h1)
         | Inr (Some request) \<Rightarrow>
             map_option (\<lambda>(r, h2). (case r of Inl e \<Rightarrow> Err e | Inr m \<Rightarrow> Ok (Some m), h2))
               (group_handle_message env request h1))"

definition group_tick ::
  "('m, 'r, 'd, 's) multi_env \<Rightarrow> ('m, 'r) group_handle \<Rightarrow> (multi_raft_error + unit) \<times> ('m, 'r) group_handle" where
  "group_tick env h =
     (case lifecycle_acquire h of
        Inl e \<Rightarrow> (Err e, h)
      | Inr _ \<Rightarrow>
          (let (r, raft) = me_heartbeat env (rn_raft (gh_node h))
           in (case r of Inl e \<Rightarrow> Err (Routing (gh_group_id h) (me_error_text env (raft_error_from e))) | Inr _ \<Rightarrow> Ok (),
               h\<lparr>gh_node := (gh_node h)\<lparr>rn_raft := raft\<rparr>\<rparr>)))"

text \<open>The body of the shutdown runs once; later calls return its result.\<close>

definition group_shutdown ::
  "('m, 'r, 'd, 's) multi_env \<Rightarrow> ('m, 'r) group_handle \<Rightarrow> (multi_raft_error + unit) \<times> ('m, 'r) group_handle" where
  "group_shutdown env h =
     (let answer = (\<lambda>r. case r of Inl reason \<Rightarrow> Err (ShutdownFailure (gh_group_id h) reason) | Inr _ \<Rightarrow> Ok ());
          h1 = h\<lparr>gh_accepting := False\<rparr>
      in case gh_shutdown_result h of
           Some r \<Rightarrow> (answer r, h1)
         | None \<Rightarrow>
             (let t = cancel_pending_rpcs (close_rpc_admission (gh_transport h));
                  (r, raft) = me_node_shutdown env (rn_raft (gh_node h))
              in (answer r, h1\<lparr>gh_transport := t, gh_node := (gh_node h)\<lparr>rn_raft := raft\<rparr>, gh_shutdown_result := Some r\<rparr>)))"

definition group_send_response ::
  "('m, 'r, 'd, 's) multi_env \<Rightarrow> ('m raft_frame_payload \<Rightarrow> string + bytes) \<Rightarrow> (node_id \<Rightarrow> frame \<Rightarrow> transport_error + unit)
     \<Rightarrow> u64 \<Rightarrow> u64 \<Rightarrow> 'm raft_message \<Rightarrow> ('m, 'r) group_handle \<Rightarrow> multi_raft_error + unit" where
  "group_send_response env ser send target correlation_id message h =
     (let t = gh_transport h;
          r = (case encode_raft_frame ser \<lparr>fp_correlation_id = correlation_id, fp_message = message\<rparr> t of
                 Inl e \<Rightarrow> Err (SendError e)
               | Inr f \<Rightarrow> send (encode_node_id target t) f)
      in case r of Inl e \<Rightarrow> Err (Routing (gh_group_id h) (me_transport_text env e)) | Inr _ \<Rightarrow> Ok ())"

section \<open>The registry\<close>

record ('m, 'r, 'd) multi_raft_manager =
  mm_transport :: raft_transport
  mm_factory :: wal_storage_factory
  mm_raft_config :: raft_config
  mm_max_groups :: nat
  mm_groups :: "(group_id \<times> ('m, 'r) group_handle) list"
  mm_dirs :: "'d directories"

definition manager_new ::
  "raft_transport \<Rightarrow> wal_storage_factory \<Rightarrow> raft_config \<Rightarrow> nat \<Rightarrow> 'd directories \<Rightarrow> ('m, 'r, 'd) multi_raft_manager" where
  "manager_new t fac cfg max_groups fs =
     \<lparr>mm_transport = t, mm_factory = fac, mm_raft_config = cfg\<lparr>rcf_node_id := rt_node_id t\<rparr>, mm_max_groups = max_groups,
      mm_groups = [], mm_dirs = fs\<rparr>"

text \<open>\<^verbatim>\<open>RaftNode::new\<close>: the snapshot settings are checked first, then openraft is started.\<close>

definition raft_node_new ::
  "('m, 'r, 'd, 's) multi_env \<Rightarrow> raft_config \<Rightarrow> 's \<Rightarrow> raft_transport \<Rightarrow> raft_error + ('m, 'r) raft_node \<times> raft_transport" where
  "raft_node_new env cfg storage t =
     (case configure_snapshot_transfer (raft_snapshot_transfer_config cfg) t of
        (Inl e, _) \<Rightarrow> Err (Internal (transfer_error_text e))
      | (Inr _, t1) \<Rightarrow>
          (case me_raft_new env cfg storage of
             Inl e \<Rightarrow> Err (raft_error_from e)
           | Inr raft \<Rightarrow>
               Ok (\<lparr>rn_group_id = rcf_group_id cfg, rn_node_id = rcf_node_id cfg, rn_raft = raft, rn_incoming_snapshots = []\<rparr>, t1)))"

definition node_initialization_error :: "('m, 'r, 'd, 's) multi_env \<Rightarrow> group_id \<Rightarrow> raft_error \<Rightarrow> multi_raft_error + unit \<Rightarrow> multi_raft_error" where
  "node_initialization_error env g e cleanup =
     NodeInitialization g (me_error_text env e @ (case cleanup of Inr _ \<Rightarrow> [] | Inl _ \<Rightarrow> ''; storage rollback failed''))"

definition create_group_inner ::
  "('m, 'r, 'd, 's) multi_env \<Rightarrow> group_id \<Rightarrow> u64 list option \<Rightarrow> ('m, 'r, 'd) multi_raft_manager
     \<Rightarrow> (multi_raft_error + unit) \<times> ('m, 'r, 'd) multi_raft_manager" where
  "create_group_inner env g initial_members mm =
     (if map_of (mm_groups mm) g \<noteq> None then (Err (GroupAlreadyExists g), mm)
      else if length (mm_groups mm) \<ge> mm_max_groups mm then (Err (GroupLimitExceeded (mm_max_groups mm)), mm)
      else
        let (r, fs1) = begin_storage env (mm_factory mm) g (mm_dirs mm); mm1 = mm\<lparr>mm_dirs := fs1\<rparr>
        in case r of
             Inl e \<Rightarrow> (Err e, mm1)
           | Inr tx \<Rightarrow>
               let t = fork_for_group g (mm_transport mm); cfg = (mm_raft_config mm)\<lparr>rcf_group_id := g\<rparr>
               in case raft_node_new env cfg (tx_storage tx) t of
                    Inl e \<Rightarrow>
                      (let (cleanup, fs2) = transaction_abort env tx fs1
                       in (Err (node_initialization_error env g e cleanup), mm1\<lparr>mm_dirs := fs2\<rparr>))
                  | Inr (node, t1) \<Rightarrow>
                      (let (init, raft) = (case initial_members of None \<Rightarrow> (Ok (), rn_raft node)
                                           | Some members \<Rightarrow> me_initialize env members (rn_raft node))
                       in case init of
                            Inl e \<Rightarrow>
                              (let (stopped, _) = me_node_shutdown env raft; (cleanup, fs2) = transaction_abort env tx fs1
                               in (Err (NodeInitialization g (me_error_text env (raft_error_from e)
                                      @ (case stopped of Inr _ \<Rightarrow> [] | Inl s \<Rightarrow> ''; node rollback failed: '' @ s)
                                      @ (case cleanup of Inr _ \<Rightarrow> [] | Inl _ \<Rightarrow> ''; storage rollback failed''))),
                                   mm1\<lparr>mm_dirs := fs2\<rparr>))
                          | Inr _ \<Rightarrow>
                              (let handle = group_handle_new g (node\<lparr>rn_raft := raft\<rparr>) t1 (rcf_proposal_concurrency cfg)
                               in case map_of (mm_groups mm1) g of
                                    Some previous \<Rightarrow> (Err (GroupAlreadyExists g), mm1)
                                  | None \<Rightarrow> (Ok (), mm1\<lparr>mm_groups := hm_insert g handle (mm_groups mm1)\<rparr>))))"

definition get_group :: "group_id \<Rightarrow> ('m, 'r, 'd) multi_raft_manager \<Rightarrow> ('m, 'r) group_handle option" where
  "get_group g mm = map_of (mm_groups mm) g"

definition list_groups :: "('m, 'r, 'd) multi_raft_manager \<Rightarrow> group_id list" where
  "list_groups mm = sort_key group_num (map fst (mm_groups mm))"

definition groups_count :: "('m, 'r, 'd) multi_raft_manager \<Rightarrow> nat" where
  "groups_count mm = length (mm_groups mm)"

definition put_group :: "group_id \<Rightarrow> ('m, 'r) group_handle \<Rightarrow> ('m, 'r, 'd) multi_raft_manager \<Rightarrow> ('m, 'r, 'd) multi_raft_manager" where
  "put_group g h mm = mm\<lparr>mm_groups := hm_insert g h (mm_groups mm)\<rparr>"

definition manager_register_node_id :: "u64 \<Rightarrow> node_id \<Rightarrow> ('m, 'r, 'd) multi_raft_manager \<Rightarrow> ('m, 'r, 'd) multi_raft_manager" where
  "manager_register_node_id i w mm =
     mm\<lparr>mm_transport := register_node_id i w (mm_transport mm),
        mm_groups := map (\<lambda>(g, h). (g, h\<lparr>gh_transport := register_node_id i w (gh_transport h)\<rparr>)) (mm_groups mm)\<rparr>"

definition learn_source_node_id ::
  "node_id \<Rightarrow> 'm raft_frame_payload \<Rightarrow> ('m, 'r, 'd) multi_raft_manager \<Rightarrow> u64 option \<times> ('m, 'r, 'd) multi_raft_manager" where
  "learn_source_node_id source payload mm =
     (case decode_node_id source (mm_transport mm) of
        Some i \<Rightarrow> (Some i, mm)
      | None \<Rightarrow>
          (case source_node_id (fp_message payload) of
             None \<Rightarrow> (None, mm)
           | Some i \<Rightarrow> (Some i, manager_register_node_id i source mm)))"

definition remove_group ::
  "('m, 'r, 'd, 's) multi_env \<Rightarrow> group_id \<Rightarrow> ('m, 'r, 'd) multi_raft_manager
     \<Rightarrow> (multi_raft_error + bool) \<times> ('m, 'r, 'd) multi_raft_manager" where
  "remove_group env g mm =
     (case get_group g mm of
        None \<Rightarrow> (Ok False, mm)
      | Some h \<Rightarrow>
          (let (r, h1) = group_shutdown env h; mm1 = put_group g h1 mm
           in case r of
                Inl e \<Rightarrow> (Err e, mm1)
              | Inr _ \<Rightarrow> (Ok True, mm1\<lparr>mm_groups := hm_remove g (mm_groups mm1)\<rparr>)))"

record 'm routed_raft_response =
  rrr_source :: u64
  rrr_destination :: u64
  rrr_correlation_id :: u64
  rrr_message :: "'m raft_message"

text \<open>Requests for compatibility callers; responses are refused.\<close>

definition route_message ::
  "('m, 'r, 'd, 's) multi_env \<Rightarrow> u64 \<Rightarrow> u64 \<Rightarrow> 'm raft_frame_payload \<Rightarrow> ('m, 'r, 'd) multi_raft_manager
     \<Rightarrow> ((multi_raft_error + 'm routed_raft_response) \<times> ('m, 'r, 'd) multi_raft_manager) option" where
  "route_message env source destination payload mm =
     (let g = message_group_id (fp_message payload)
      in if is_response (fp_message payload)
         then Some (Err (InvalidTransportRoute ''Raft responses must be delivered through dispatch_message''), mm)
         else if destination \<noteq> rt_node_id (mm_transport mm) then Some (Err (Routing g ''destination mismatch''), mm)
         else case get_group g mm of
           None \<Rightarrow> Some (Err (UnknownGroup g), mm)
         | Some h \<Rightarrow>
             map_option (\<lambda>(r, h1).
                 (case r of
                    Inl e \<Rightarrow> Err e
                  | Inr m \<Rightarrow> if message_group_id m \<noteq> g then Err (Routing g ''Raft response group mismatch'')
                             else Ok \<lparr>rrr_source = destination, rrr_destination = source,
                                      rrr_correlation_id = fp_correlation_id payload, rrr_message = m\<rparr>,
                  put_group g h1 mm))
               (group_handle_message env payload h))"

definition dispatch_message ::
  "('m, 'r, 'd, 's) multi_env \<Rightarrow> u64 \<Rightarrow> u64 \<Rightarrow> 'm raft_frame_payload \<Rightarrow> ('m, 'r, 'd) multi_raft_manager
     \<Rightarrow> ((multi_raft_error + 'm routed_raft_response option) \<times> ('m, 'r, 'd) multi_raft_manager) option" where
  "dispatch_message env source destination payload mm =
     (let g = message_group_id (fp_message payload)
      in if destination \<noteq> rt_node_id (mm_transport mm) then Some (Err (Routing g ''destination mismatch''), mm)
         else case get_group g mm of
           None \<Rightarrow> Some (Err (UnknownGroup g), mm)
         | Some h \<Rightarrow>
             map_option (\<lambda>(r, h1).
                 (case r of
                    Inl e \<Rightarrow> Err e
                  | Inr None \<Rightarrow> Ok None
                  | Inr (Some m) \<Rightarrow>
                      if message_group_id m \<noteq> g then Err (Routing g ''Raft response group mismatch'')
                      else Ok (Some \<lparr>rrr_source = destination, rrr_destination = source,
                                     rrr_correlation_id = fp_correlation_id payload, rrr_message = m\<rparr>),
                  put_group g h1 mm))
               (group_dispatch_message env source payload h))"

text \<open>The part that \<^verbatim>\<open>route_frame\<close> and \<^verbatim>\<open>dispatch_frame\<close> share: decoding and the two node numbers.\<close>

definition decode_route ::
  "(bytes \<Rightarrow> string + 'm raft_frame_payload) \<Rightarrow> node_id \<Rightarrow> node_id \<Rightarrow> frame \<Rightarrow> ('m, 'r, 'd) multi_raft_manager
     \<Rightarrow> (multi_raft_error + u64 \<times> u64 \<times> 'm raft_frame_payload) \<times> ('m, 'r, 'd) multi_raft_manager" where
  "decode_route de source destination f mm =
     (case decode_raft_frame de f of
        None \<Rightarrow> (Err (InvalidTransportRoute ''frame is not a valid group-consistent Raft frame''), mm)
      | Some payload \<Rightarrow>
          (case learn_source_node_id source payload mm of
             (None, mm1) \<Rightarrow> (Err (InvalidTransportRoute ''source NodeId is not registered and carries no Raft identity''), mm1)
           | (Some src, mm1) \<Rightarrow>
               (case decode_node_id destination (mm_transport mm1) of
                  None \<Rightarrow> (Err (InvalidTransportRoute ''destination NodeId is not registered or canonical''), mm1)
                | Some dst \<Rightarrow> (Ok (src, dst, payload), mm1))))"

definition route_frame ::
  "('m, 'r, 'd, 's) multi_env \<Rightarrow> (bytes \<Rightarrow> string + 'm raft_frame_payload) \<Rightarrow> node_id \<Rightarrow> node_id \<Rightarrow> frame
     \<Rightarrow> ('m, 'r, 'd) multi_raft_manager
     \<Rightarrow> ((multi_raft_error + 'm routed_raft_response) \<times> ('m, 'r, 'd) multi_raft_manager) option" where
  "route_frame env de source destination f mm =
     (case decode_route de source destination f mm of
        (Inl e, mm1) \<Rightarrow> Some (Err e, mm1)
      | (Inr (src, dst, payload), mm1) \<Rightarrow> route_message env src dst payload mm1)"

definition dispatch_frame ::
  "('m, 'r, 'd, 's) multi_env \<Rightarrow> (bytes \<Rightarrow> string + 'm raft_frame_payload) \<Rightarrow> node_id \<Rightarrow> node_id \<Rightarrow> frame
     \<Rightarrow> ('m, 'r, 'd) multi_raft_manager
     \<Rightarrow> ((multi_raft_error + 'm routed_raft_response option) \<times> ('m, 'r, 'd) multi_raft_manager) option" where
  "dispatch_frame env de source destination f mm =
     (case decode_route de source destination f mm of
        (Inl e, mm1) \<Rightarrow> Some (Err e, mm1)
      | (Inr (src, dst, payload), mm1) \<Rightarrow> dispatch_message env src dst payload mm1)"

definition send_routed_response ::
  "('m, 'r, 'd, 's) multi_env \<Rightarrow> ('m raft_frame_payload \<Rightarrow> string + bytes) \<Rightarrow> (node_id \<Rightarrow> frame \<Rightarrow> transport_error + unit)
     \<Rightarrow> 'm routed_raft_response \<Rightarrow> ('m, 'r, 'd) multi_raft_manager \<Rightarrow> multi_raft_error + unit" where
  "send_routed_response env ser send response mm =
     (if rrr_source response \<noteq> rt_node_id (mm_transport mm) then Err (InvalidTransportRoute ''response source mismatch'')
      else let g = message_group_id (rrr_message response)
           in case get_group g mm of
                None \<Rightarrow> Err (UnknownGroup g)
              | Some h \<Rightarrow> group_send_response env ser send (rrr_destination response) (rrr_correlation_id response)
                            (rrr_message response) h)"

text \<open>The receive loop of the mesh: dispatch, then send the response there is.\<close>

definition handle_raft_frame ::
  "('m, 'r, 'd, 's) multi_env \<Rightarrow> ('m raft_frame_payload \<Rightarrow> string + bytes) \<Rightarrow> (bytes \<Rightarrow> string + 'm raft_frame_payload)
     \<Rightarrow> (node_id \<Rightarrow> frame \<Rightarrow> transport_error + unit) \<Rightarrow> node_id \<Rightarrow> node_id \<Rightarrow> frame \<Rightarrow> ('m, 'r, 'd) multi_raft_manager
     \<Rightarrow> ((multi_raft_error + unit) \<times> ('m, 'r, 'd) multi_raft_manager) option" where
  "handle_raft_frame env ser de send source destination f mm =
     map_option (\<lambda>(r, mm1).
         (case r of
            Inl e \<Rightarrow> Err e
          | Inr None \<Rightarrow> Ok ()
          | Inr (Some response) \<Rightarrow> send_routed_response env ser send response mm1, mm1))
       (dispatch_frame env de source destination f mm)"

text \<open>Ticks run as one task per group; the results are sorted by group.\<close>

definition tick_all ::
  "('m, 'r, 'd, 's) multi_env \<Rightarrow> ('m, 'r, 'd) multi_raft_manager
     \<Rightarrow> (group_id \<times> (multi_raft_error + unit)) list \<times> ('m, 'r, 'd) multi_raft_manager" where
  "tick_all env mm =
     (sort_key (group_num \<circ> fst) (map (\<lambda>(g, h). (g, fst (group_tick env h))) (mm_groups mm)),
      mm\<lparr>mm_groups := map (\<lambda>(g, h). (g, snd (group_tick env h))) (mm_groups mm)\<rparr>)"

fun shutdown_loop ::
  "('m, 'r, 'd, 's) multi_env \<Rightarrow> group_id list \<Rightarrow> ('m, 'r, 'd) multi_raft_manager
     \<Rightarrow> (multi_raft_error + unit) \<times> ('m, 'r, 'd) multi_raft_manager" where
  "shutdown_loop env [] mm = (Ok (), mm)"
| "shutdown_loop env (g # gs) mm =
     (case remove_group env g mm of
        (Inl e, mm1) \<Rightarrow> (Err e, mm1)
      | (Inr _, mm1) \<Rightarrow> shutdown_loop env gs mm1)"

definition shutdown_all ::
  "('m, 'r, 'd, 's) multi_env \<Rightarrow> ('m, 'r, 'd) multi_raft_manager \<Rightarrow> (multi_raft_error + unit) \<times> ('m, 'r, 'd) multi_raft_manager" where
  "shutdown_all env mm = shutdown_loop env (list_groups mm) mm"

section \<open>Operations racing with shutdown\<close>

text \<open>
  The lifecycle of one group with tasks: an operation checks admission, takes the shared lock, checks again and
  runs; a shutdown closes admission, becomes the one initialiser of the result cell, takes the
  exclusive lock, runs the body and stores its result.  A dropped initialiser leaves the cell empty for
  the next caller.
\<close>

datatype op_phase = OpStarted | OpChecked | OpLocked | OpRunning | OpFinished | OpRefused

datatype shutdown_phase = SdIdle | SdInit | SdDrained | SdDone "string + unit"

record group_lifecycle =
  gl_accepting :: bool
  gl_result :: "(string + unit) option"
  gl_ops :: "nat \<Rightarrow> op_phase"
  gl_shutdown :: shutdown_phase
  gl_bodies :: nat

definition lifecycle_new :: group_lifecycle where
  "lifecycle_new = \<lparr>gl_accepting = True, gl_result = None, gl_ops = (\<lambda>_. OpStarted), gl_shutdown = SdIdle, gl_bodies = 0\<rparr>"

definition readers :: "group_lifecycle \<Rightarrow> nat set" where
  "readers l = {i. gl_ops l i = OpLocked \<or> gl_ops l i = OpRunning}"

inductive lifecycle_step :: "group_lifecycle \<Rightarrow> group_lifecycle \<Rightarrow> bool" where
  check: "gl_ops l i = OpStarted \<Longrightarrow>
    lifecycle_step l (l\<lparr>gl_ops := (gl_ops l)(i := if gl_accepting l then OpChecked else OpRefused)\<rparr>)"
| lock: "gl_ops l i = OpChecked \<Longrightarrow> gl_shutdown l \<noteq> SdDrained \<Longrightarrow> lifecycle_step l (l\<lparr>gl_ops := (gl_ops l)(i := OpLocked)\<rparr>)"
| recheck: "gl_ops l i = OpLocked \<Longrightarrow>
    lifecycle_step l (l\<lparr>gl_ops := (gl_ops l)(i := if gl_accepting l then OpRunning else OpRefused)\<rparr>)"
| finish: "gl_ops l i = OpRunning \<Longrightarrow> lifecycle_step l (l\<lparr>gl_ops := (gl_ops l)(i := OpFinished)\<rparr>)"
| dropped: "gl_ops l i \<in> {OpChecked, OpLocked} \<Longrightarrow> lifecycle_step l (l\<lparr>gl_ops := (gl_ops l)(i := OpRefused)\<rparr>)"
| close_admission: "lifecycle_step l (l\<lparr>gl_accepting := False\<rparr>)"
| init: "\<not> gl_accepting l \<Longrightarrow> gl_result l = None \<Longrightarrow> gl_shutdown l = SdIdle \<Longrightarrow> lifecycle_step l (l\<lparr>gl_shutdown := SdInit\<rparr>)"
| drained: "gl_shutdown l = SdInit \<Longrightarrow> readers l = {} \<Longrightarrow>
    lifecycle_step l (l\<lparr>gl_shutdown := SdDrained, gl_bodies := gl_bodies l + 1\<rparr>)"
| stored: "gl_shutdown l = SdDrained \<Longrightarrow> lifecycle_step l (l\<lparr>gl_shutdown := SdDone r, gl_result := Some r\<rparr>)"
| cancelled: "gl_shutdown l \<in> {SdInit, SdDrained} \<Longrightarrow> lifecycle_step l (l\<lparr>gl_shutdown := SdIdle\<rparr>)"

section \<open>Namespaces are canonical\<close>

lemma hex_digit_value_hex_digit: "d < 16 \<Longrightarrow> hex_digit_value (hex_digit d) = d"
  by (auto simp: hex_digit_value_def hex_digit_def Let_def)

lemma is_hex_hex_digit: "d < 16 \<Longrightarrow> is_hex (hex_digit d)"
  by (auto simp: is_hex_def hex_digit_def Let_def)

lemma hex_digit_hex_digit_value: "is_hex c \<Longrightarrow> hex_digit (hex_digit_value c) = c \<and> hex_digit_value c < 16"
proof -
  assume h: "is_hex c"
  define v where "v = (of_char c :: nat)"
  have c: "char_of v = c"
    by (simp add: v_def)
  have "(48 \<le> v \<and> v \<le> 57) \<or> (97 \<le> v \<and> v \<le> 102)"
    using h by (simp add: is_hex_def v_def Let_def)
  then show ?thesis
    using c by (auto simp: hex_digit_def hex_digit_value_def Let_def v_def[symmetric])
qed

lemma length_hex_of [simp]: "length (hex_of n x) = n"
  by (induction n arbitrary: x) simp_all

lemma list_all_hex_of: "list_all is_hex (hex_of n x)"
  by (induction n arbitrary: x) (simp_all add: is_hex_hex_digit)

lemma hex_value_snoc: "hex_value (s @ [c]) = 16 * hex_value s + hex_digit_value c"
  by (simp add: hex_value_def)

lemma hex_value_hex_of: "hex_value (hex_of n x) = x mod 16 ^ n"
proof (induction n arbitrary: x)
  case (Suc n)
  have "x mod 16 ^ Suc n = 16 * (x div 16 mod 16 ^ n) + x mod 16"
    by (simp add: mod_mult2_eq)
  with Suc show ?case
    by (simp add: hex_value_snoc hex_digit_value_hex_digit)
qed (simp add: hex_value_def)

lemma hex_of_hex_value: "list_all is_hex s \<Longrightarrow> hex_of (length s) (hex_value s) = s"
proof (induction s rule: rev_induct)
  case (snoc c s)
  then have c: "hex_digit (hex_digit_value c) = c" "hex_digit_value c < 16"
    using hex_digit_hex_digit_value by simp_all
  then have "(16 * hex_value s + hex_digit_value c) div 16 = hex_value s" "(16 * hex_value s + hex_digit_value c) mod 16 = hex_digit_value c"
    by simp_all
  then show ?case
    using snoc c by (simp add: hex_value_snoc)
qed simp

lemma group_namespace_shape:
  "take (length NAMESPACE_PREFIX) (group_namespace g) = NAMESPACE_PREFIX"
  "drop (length NAMESPACE_PREFIX) (group_namespace g) = hex_of 16 (unat (group_num g))"
  by (simp_all add: group_namespace_def GROUP_ID_HEX_LEN_def)

lemma parse_group_namespace_iff: "parse_group_namespace v = Ok g \<longleftrightarrow> v = group_namespace g"
proof
  assume "parse_group_namespace v = Ok g"
  then show "v = group_namespace g"
    by (auto simp: parse_group_namespace_def Let_def split: if_splits)
next
  assume v: "v = group_namespace g"
  have "hex_value (hex_of 16 (unat (group_num g))) = unat (group_num g)"
    using unat_bound[of "group_num g"] by (simp add: hex_value_hex_of)
  then show "parse_group_namespace v = Ok g"
    using unat_bound[of "group_num g"]
    by (cases g) (simp add: v parse_group_namespace_def group_namespace_shape list_all_hex_of GROUP_ID_HEX_LEN_def Let_def)
qed

section \<open>Shutdown drains the group\<close>

definition lifecycle_inv :: "group_lifecycle \<Rightarrow> bool" where
  "lifecycle_inv l \<longleftrightarrow>
     (gl_shutdown l \<noteq> SdIdle \<or> gl_result l \<noteq> None \<longrightarrow> \<not> gl_accepting l) \<and>
     (gl_shutdown l = SdDrained \<longrightarrow> readers l = {}) \<and>
     (gl_result l \<noteq> None \<longrightarrow> (\<forall>i. gl_ops l i \<noteq> OpRunning)) \<and>
     (\<forall>r. gl_result l = Some r \<longleftrightarrow> gl_shutdown l = SdDone r) \<and>
     finite {i. gl_ops l i \<noteq> OpStarted}"

lemma ops_update_inv:
  assumes inv: "lifecycle_inv l" and x: "gl_shutdown l = SdDrained \<Longrightarrow> x \<noteq> OpLocked \<and> x \<noteq> OpRunning" "gl_result l \<noteq> None \<Longrightarrow> x \<noteq> OpRunning"
  shows "lifecycle_inv (l\<lparr>gl_ops := (gl_ops l)(i := x)\<rparr>)"
proof -
  let ?l = "l\<lparr>gl_ops := (gl_ops l)(i := x)\<rparr>"
  have "finite {j. ((gl_ops l)(i := x)) j \<noteq> OpStarted}"
    by (rule finite_subset[of _ "insert i {j. gl_ops l j \<noteq> OpStarted}"]) (use inv in \<open>auto simp: lifecycle_inv_def\<close>)
  moreover have "readers ?l = {}" if d: "gl_shutdown l = SdDrained"
  proof -
    have "readers l = {}"
      using inv d by (simp add: lifecycle_inv_def)
    then show ?thesis
      using x(1)[OF d] by (auto simp: readers_def)
  qed
  ultimately show ?thesis
    using inv x(2) by (simp add: lifecycle_inv_def)
qed

lemma lifecycle_step_inv:
  assumes "lifecycle_step l l'" "lifecycle_inv l"
  shows "lifecycle_inv l'"
  using assms(1)
proof cases
  case (recheck i)
  have "gl_shutdown l \<noteq> SdDrained"
    using assms(2) recheck(2) by (auto simp: lifecycle_inv_def readers_def)
  then show ?thesis
    unfolding recheck(1) by (intro ops_update_inv[OF assms(2)]) (use assms(2) in \<open>auto simp: lifecycle_inv_def\<close>)
next
  case (lock i)
  then show ?thesis
    by (auto intro!: ops_update_inv[OF assms(2)])
next
  case (check i)
  then show ?thesis
    by (auto intro!: ops_update_inv[OF assms(2)])
next
  case (finish i)
  then show ?thesis
    by (auto intro!: ops_update_inv[OF assms(2)])
next
  case (dropped i)
  then show ?thesis
    by (auto intro!: ops_update_inv[OF assms(2)])
next
  case (stored r)
  have "readers l = {}"
    using assms(2) stored by (simp add: lifecycle_inv_def)
  then have "gl_ops l i \<noteq> OpRunning" for i
    by (auto simp: readers_def)
  then show ?thesis
    using assms(2) stored by (auto simp: lifecycle_inv_def readers_def)
next
  case drained
  then show ?thesis
    using assms(2) by (simp add: lifecycle_inv_def readers_def)
next
  case init
  then show ?thesis
    using assms(2) by (simp add: lifecycle_inv_def readers_def)
next
  case cancelled
  then show ?thesis
    using assms(2) by (auto simp: lifecycle_inv_def)
next
  case close_admission
  then show ?thesis
    using assms(2) by (simp add: lifecycle_inv_def readers_def)
qed

lemma lifecycle_run_inv: "lifecycle_step\<^sup>*\<^sup>* l l' \<Longrightarrow> lifecycle_inv l \<Longrightarrow> lifecycle_inv l'"
  by (induction rule: rtranclp_induct) (auto intro: lifecycle_step_inv)

lemma lifecycle_new_inv: "lifecycle_inv lifecycle_new"
  by (simp add: lifecycle_inv_def lifecycle_new_def readers_def)

lemma lifecycle_step_result:
  "lifecycle_step l l' \<Longrightarrow> lifecycle_inv l \<Longrightarrow> gl_result l = Some r \<Longrightarrow> gl_result l' = Some r \<and> gl_bodies l' = gl_bodies l"
  by (induction rule: lifecycle_step.induct) (auto simp: lifecycle_inv_def)

lemma lifecycle_run_result:
  assumes "lifecycle_step\<^sup>*\<^sup>* l l'" "lifecycle_inv l" "gl_result l = Some r"
  shows "gl_result l' = Some r \<and> gl_bodies l' = gl_bodies l"
  using assms
proof (induction rule: rtranclp_induct)
  case (step y z)
  then show ?case
    using lifecycle_step_result[OF step.hyps(2) lifecycle_run_inv[OF step.hyps(1)]] by auto
qed simp

text \<open>Once admission is closed and nothing runs, nothing runs again.\<close>

definition quiet :: "group_lifecycle \<Rightarrow> bool" where
  "quiet l \<longleftrightarrow> \<not> gl_accepting l \<and> (\<forall>i. gl_ops l i \<noteq> OpRunning)"

lemma quiet_step: "lifecycle_step l l' \<Longrightarrow> quiet l \<Longrightarrow> quiet l'"
  by (induction rule: lifecycle_step.induct) (auto simp: quiet_def)

lemma quiet_run: "lifecycle_step\<^sup>*\<^sup>* l l' \<Longrightarrow> quiet l \<Longrightarrow> quiet l'"
  by (induction rule: rtranclp_induct) (auto intro: quiet_step)

lemma quiet_when_drained:
  assumes "lifecycle_inv l" "gl_shutdown l = SdDrained \<or> gl_result l \<noteq> None"
  shows "quiet l"
proof (cases "gl_result l = None")
  case True
  then have "readers l = {}" "\<not> gl_accepting l"
    using assms by (auto simp: lifecycle_inv_def)
  then show ?thesis
    by (auto simp: quiet_def readers_def)
next
  case False
  then show ?thesis
    using assms(1) by (simp add: quiet_def lifecycle_inv_def)
qed

text \<open>The operations that hold the lock can finish one after the other, and then the body runs.\<close>

lemma lifecycle_can_drain:
  assumes "lifecycle_inv l" "gl_shutdown l = SdInit"
  shows "\<exists>l'. lifecycle_step\<^sup>*\<^sup>* l l' \<and> gl_shutdown l' = SdDrained"
  using assms
proof (induction "card (readers l)" arbitrary: l rule: less_induct)
  case less
  have fin: "finite (readers l)"
    by (rule finite_subset[of _ "{i. gl_ops l i \<noteq> OpStarted}"]) (use less.prems in \<open>auto simp: readers_def lifecycle_inv_def\<close>)
  show ?case
  proof (cases "readers l = {}")
    case True
    then show ?thesis
      using lifecycle_step.drained[OF less.prems(2)]
      by (intro exI[of _ "l\<lparr>gl_shutdown := SdDrained, gl_bodies := gl_bodies l + 1\<rparr>"]) auto
  next
    case False
    then obtain i where i: "i \<in> readers l"
      by auto
    obtain x where x: "lifecycle_step l (l\<lparr>gl_ops := (gl_ops l)(i := x)\<rparr>)" "x \<noteq> OpLocked" "x \<noteq> OpRunning"
      using i lifecycle_step.finish[of l i] lifecycle_step.dropped[of l i] by (auto simp: readers_def)
    let ?l = "l\<lparr>gl_ops := (gl_ops l)(i := x)\<rparr>"
    have "readers ?l = readers l - {i}"
      using x(2,3) by (auto simp: readers_def)
    then have "card (readers ?l) < card (readers l)"
      using i fin by (metis card_Diff1_less)
    then obtain l' where "lifecycle_step\<^sup>*\<^sup>* ?l l'" "gl_shutdown l' = SdDrained"
      using less.hyps[of ?l] lifecycle_step_inv[OF x(1) less.prems(1)] less.prems(2) by auto
    then show ?thesis
      using x(1) by (meson converse_rtranclp_into_rtranclp)
  qed
qed

section \<open>The registry keeps its groups apart\<close>

fun request_type :: "'m raft_message \<Rightarrow> rpc_types option" where
  "request_type (AppendEntries _ _) = Some RpcAppendEntries"
| "request_type (Vote _ _) = Some RpcVote"
| "request_type (InstallSnapshot _ _) = Some RpcInstallSnapshot"
| "request_type (SnapshotTransfer _ _) = Some RpcInstallSnapshot"
| "request_type _ = None"

definition receivers_ok :: "('m, 'r) raft_node \<Rightarrow> bool" where
  "receivers_ok node \<longleftrightarrow> (\<forall>sid ses. map_of (rn_incoming_snapshots node) sid = Some ses \<longrightarrow> rcv_ok (ins_receiver ses))"

lemma receivers_ok_simps [simp]:
  "receivers_ok (node\<lparr>rn_raft := r\<rparr>) \<longleftrightarrow> receivers_ok node"
  by (simp add: receivers_ok_def)

lemma handle_snapshot_transfer_ok:
  assumes ok: "receivers_ok node"
  shows "\<exists>resp call node'. handle_snapshot_transfer env req node = Some (resp, call, node') \<and> receivers_ok node' \<and>
    rn_group_id node' = rn_group_id node"
proof (cases req)
  case (SnapBegin b)
  then show ?thesis
    using ok receiver_new_ok(1)
    by (auto simp: snapshot_begin_def receivers_ok_def update_conv split: sum.split)
next
  case (SnapChunk c)
  show ?thesis
  proof (cases "map_of (rn_incoming_snapshots node) (chk_snapshot_id c)")
    case None
    then show ?thesis
      using ok SnapChunk by (simp add: snapshot_accept_chunk_def)
  next
    case (Some ses)
    then have r: "rcv_ok (ins_receiver ses)"
      using ok by (simp add: receivers_ok_def)
    obtain res r' where a: "accept (re_sha env) c (ins_receiver ses) = Some (res, r')"
      using accept_total[OF r] by blast
    have "rcv_ok r'"
      using accept_ok[OF r a] by simp
    then show ?thesis
      using ok Some a SnapChunk by (auto simp: snapshot_accept_chunk_def receivers_ok_def update_conv)
  qed
next
  case (SnapFinish sid)
  then show ?thesis
    using ok by (auto simp: snapshot_finish_def receivers_ok_def delete_conv Let_def split: option.split sum.split prod.split)
next
  case (SnapAbort sid)
  then show ?thesis
    using ok by (auto simp: receivers_ok_def delete_conv)
qed

lemma handle_message_ok:
  assumes ok: "receivers_ok node"
  shows "\<exists>r call node'. handle_message env p node = Some (r, call, node') \<and> receivers_ok node' \<and> rn_group_id node' = rn_group_id node \<and>
    (\<forall>m. r = Ok m \<longrightarrow> message_group_id m = rn_group_id node \<and>
       (\<forall>ty. request_type (fp_message p) = Some ty \<longrightarrow> response_matches ty m))"
proof (cases "message_group_id (fp_message p) = rn_group_id node")
  case False
  then show ?thesis
    using ok by (simp add: handle_message_def)
next
  case True
  show ?thesis
  proof (cases "\<exists>g req. fp_message p = SnapshotTransfer g req")
    case snap: True
    then obtain g req where req: "fp_message p = SnapshotTransfer g req"
      by blast
    then show ?thesis
      using handle_snapshot_transfer_ok[OF ok, of env req] True by (auto simp: handle_message_def)
  next
    case False
    then show ?thesis
      using ok True by (cases "fp_message p") (auto simp: handle_message_def split: prod.split sum.split)
  qed
qed

definition handle_ok :: "u64 \<Rightarrow> group_id \<Rightarrow> ('m, 'r) group_handle \<Rightarrow> bool" where
  "handle_ok n g h \<longleftrightarrow> gh_group_id h = g \<and> rn_group_id (gh_node h) = g \<and> rt_group_id (gh_transport h) = g \<and>
     rt_node_id (gh_transport h) = n \<and> receivers_ok (gh_node h)"

definition mm_inv :: "('m, 'r, 'd) multi_raft_manager \<Rightarrow> bool" where
  "mm_inv mm \<longleftrightarrow> distinct (map fst (mm_groups mm)) \<and> length (mm_groups mm) \<le> mm_max_groups mm \<and>
     (\<forall>g h. map_of (mm_groups mm) g = Some h \<longrightarrow> handle_ok (rt_node_id (mm_transport mm)) g h)"

lemma consume_incoming_from_ids:
  assumes "consume_incoming_from source payload t = (r, w, t')"
  shows "rt_group_id t' = rt_group_id t" "rt_node_id t' = rt_node_id t" "rt_node_ids t' = rt_node_ids t"
  using assms by (auto simp: consume_incoming_from_def Let_def split: if_splits option.splits)

lemma group_handle_message_ok:
  assumes ok: "handle_ok n g h"
  shows "\<exists>r h'. group_handle_message env payload h = Some (r, h') \<and> handle_ok n g h' \<and> gh_transport h' = gh_transport h \<and>
    (\<forall>m. r = Ok m \<longrightarrow> gh_accepting h \<and> message_group_id m = g \<and>
       (\<forall>ty. request_type (fp_message payload) = Some ty \<longrightarrow> response_matches ty m))"
proof (cases "gh_accepting h")
  case False
  then show ?thesis
    using ok by (simp add: group_handle_message_def lifecycle_acquire_def)
next
  case True
  obtain r call node' where r: "handle_message (me_raft env) payload (gh_node h) = Some (r, call, node')" "receivers_ok node'"
    "rn_group_id node' = rn_group_id (gh_node h)" "\<forall>m. r = Ok m \<longrightarrow> message_group_id m = rn_group_id (gh_node h) \<and>
       (\<forall>ty. request_type (fp_message payload) = Some ty \<longrightarrow> response_matches ty m)"
    using handle_message_ok[of "gh_node h" "me_raft env" payload] ok by (auto simp: handle_ok_def)
  then show ?thesis
    using ok True by (auto simp: group_handle_message_def lifecycle_acquire_def handle_ok_def split: sum.split)
qed

lemma group_dispatch_message_ok:
  assumes ok: "handle_ok n g h"
  shows "\<exists>r h'. group_dispatch_message env source payload h = Some (r, h') \<and> handle_ok n g h' \<and>
    rt_node_ids (gh_transport h') = rt_node_ids (gh_transport h) \<and>
    (\<forall>m. r = Ok (Some m) \<longrightarrow> gh_accepting h \<and> \<not> is_response (fp_message payload) \<and> message_group_id m = g \<and>
       (\<forall>ty. request_type (fp_message payload) = Some ty \<longrightarrow> response_matches ty m))"
proof -
  obtain r w t where c: "consume_incoming_from source payload (gh_transport h) = (r, w, t)"
    by (cases "consume_incoming_from source payload (gh_transport h)") auto
  note ids = consume_incoming_from_ids[OF c]
  let ?h = "h\<lparr>gh_transport := t\<rparr>"
  have ok': "handle_ok n g ?h"
    using ok ids by (simp add: handle_ok_def)
  show ?thesis
  proof (cases "\<exists>q. r = Ok (Some q)")
    case True
    then have q: "r = Ok (Some payload)" "\<not> is_response (fp_message payload)"
      using c by (auto simp: consume_incoming_from_def Let_def split: if_splits option.splits)
    obtain r2 h2 where h2: "group_handle_message env payload ?h = Some (r2, h2)" "handle_ok n g h2" "gh_transport h2 = t"
      "\<And>m. r2 = Ok m \<Longrightarrow> gh_accepting h \<and> message_group_id m = g \<and>
        (\<forall>ty. request_type (fp_message payload) = Some ty \<longrightarrow> response_matches ty m)"
      using group_handle_message_ok[OF ok', of env payload] by auto
    have "group_dispatch_message env source payload h = Some (case r2 of Inl e \<Rightarrow> Err e | Inr m \<Rightarrow> Ok (Some m), h2)"
      using c q(1) h2(1) by (simp add: group_dispatch_message_def)
    then show ?thesis
      using h2(2-) q(2) ids by (cases r2) auto
  next
    case False
    then show ?thesis
      using c ok' ids by (cases r; cases "projr r") (auto simp: group_dispatch_message_def)
  qed
qed

datatype mm_op =
    CreateGroup group_id "u64 list option"
  | RemoveGroup group_id
  | DispatchFrame node_id node_id frame
  | RouteFrame node_id node_id frame
  | RegisterNode u64 node_id
  | TickAll
  | ShutdownAll

fun mm_apply ::
  "('m, 'r, 'd, 's) multi_env \<Rightarrow> (bytes \<Rightarrow> string + 'm raft_frame_payload) \<Rightarrow> mm_op \<Rightarrow> ('m, 'r, 'd) multi_raft_manager
     \<Rightarrow> ('m, 'r, 'd) multi_raft_manager option" where
  "mm_apply env de (CreateGroup g members) mm = Some (snd (create_group_inner env g members mm))"
| "mm_apply env de (RemoveGroup g) mm = Some (snd (remove_group env g mm))"
| "mm_apply env de (DispatchFrame source destination f) mm = map_option snd (dispatch_frame env de source destination f mm)"
| "mm_apply env de (RouteFrame source destination f) mm = map_option snd (route_frame env de source destination f mm)"
| "mm_apply env de (RegisterNode i w) mm = Some (manager_register_node_id i w mm)"
| "mm_apply env de TickAll mm = Some (snd (tick_all env mm))"
| "mm_apply env de ShutdownAll mm = Some (snd (shutdown_all env mm))"

fun mm_run ::
  "('m, 'r, 'd, 's) multi_env \<Rightarrow> (bytes \<Rightarrow> string + 'm raft_frame_payload) \<Rightarrow> mm_op list \<Rightarrow> ('m, 'r, 'd) multi_raft_manager
     \<Rightarrow> ('m, 'r, 'd) multi_raft_manager option" where
  "mm_run env de [] mm = Some mm"
| "mm_run env de (x # xs) mm = (case mm_apply env de x mm of None \<Rightarrow> None | Some mm1 \<Rightarrow> mm_run env de xs mm1)"

lemma mm_invD:
  assumes "mm_inv mm"
  shows "distinct (map fst (mm_groups mm))" "length (mm_groups mm) \<le> mm_max_groups mm"
    "\<And>g h. map_of (mm_groups mm) g = Some h \<Longrightarrow> handle_ok (rt_node_id (mm_transport mm)) g h"
  using assms by (auto simp: mm_inv_def)

lemma length_hm_insert: "length (hm_insert k v m) = (if k \<in> fst ` set m then length m else Suc (length m))"
  using arg_cong[OF update_keys[of k v m], of length] by (simp split: if_splits)

lemma map_of_map_values: "map_of (map (\<lambda>(k, v). (k, f v)) m) k = map_option f (map_of m k)"
  by (induction m) auto

lemma put_group_inv:
  assumes inv: "mm_inv mm" and h: "get_group g mm = Some h0" "handle_ok (rt_node_id (mm_transport mm)) g h"
  shows "mm_inv (put_group g h mm)"
proof -
  have "g \<in> fst ` set (mm_groups mm)"
    using h(1) by (metis get_group_def domI dom_map_of_conv_image_fst)
  then show ?thesis
    using mm_invD[OF inv] h(2) by (auto simp: mm_inv_def put_group_def length_hm_insert distinct_update update_conv)
qed

lemma map_groups_inv:
  assumes inv: "mm_inv mm" and f: "\<And>g h. handle_ok (rt_node_id (mm_transport mm)) g h \<Longrightarrow> handle_ok (rt_node_id (mm_transport mm)) g (f h)"
  shows "mm_inv (mm\<lparr>mm_groups := map (\<lambda>(g, h). (g, f h)) (mm_groups mm)\<rparr>)"
proof -
  have keys: "fst \<circ> (\<lambda>(g, h). (g, f h)) = fst"
    by auto
  show ?thesis
    using mm_invD[OF inv] f by (auto simp: mm_inv_def map_of_map_values keys simp del: map_of_eq_Some_iff)
qed

lemma manager_register_inv:
  assumes "mm_inv mm"
  shows "mm_inv (manager_register_node_id i w mm)"
proof -
  let ?f = "\<lambda>h. h\<lparr>gh_transport := register_node_id i w (gh_transport h)\<rparr>"
  have "mm_inv (mm\<lparr>mm_groups := map (\<lambda>(g, h). (g, ?f h)) (mm_groups mm)\<rparr>)"
    by (rule map_groups_inv[OF assms]) (auto simp: handle_ok_def register_node_id_def)
  then show ?thesis
    by (auto simp: mm_inv_def manager_register_node_id_def register_node_id_def)
qed

lemma group_tick_ok: "handle_ok n g h \<Longrightarrow> handle_ok n g (snd (group_tick env h))"
  by (auto simp: group_tick_def handle_ok_def split: sum.split prod.split)

lemma group_shutdown_ok: "handle_ok n g h \<Longrightarrow> handle_ok n g (snd (group_shutdown env h))"
  by (auto simp: group_shutdown_def handle_ok_def cancel_pending_rpcs_def close_rpc_admission_def Let_def
      split: option.split sum.split prod.split)

lemma remove_group_inv:
  assumes inv: "mm_inv mm"
  shows "mm_inv (snd (remove_group env g mm))"
proof (cases "get_group g mm")
  case None
  then show ?thesis
    using inv by (simp add: remove_group_def)
next
  case (Some h)
  obtain r h1 where s: "group_shutdown env h = (r, h1)"
    by fastforce
  have "handle_ok (rt_node_id (mm_transport mm)) g h1"
    using group_shutdown_ok[of _ g h env] mm_invD(3)[OF inv] Some s by (auto simp: get_group_def)
  then have p: "mm_inv (put_group g h1 mm)"
    using put_group_inv[OF inv Some] by simp
  then have "mm_inv ((put_group g h1 mm)\<lparr>mm_groups := hm_remove g (mm_groups (put_group g h1 mm))\<rparr>)"
    using mm_invD[OF p] order_trans[OF length_delete_le] by (auto simp: mm_inv_def distinct_delete delete_conv split: if_splits)
  then show ?thesis
    using p Some s by (cases r) (auto simp: remove_group_def Let_def)
qed

lemma shutdown_loop_inv: "mm_inv mm \<Longrightarrow> mm_inv (snd (shutdown_loop env gs mm))"
proof (induction gs arbitrary: mm)
  case (Cons g gs)
  then show ?case
    using remove_group_inv[OF Cons.prems, of env g] by (auto split: prod.split sum.split)
qed simp

lemma dirs_inv [simp]: "mm_inv (mm\<lparr>mm_dirs := fs\<rparr>) \<longleftrightarrow> mm_inv mm"
  by (simp add: mm_inv_def)

lemma fork_for_group_ids [simp]:
  "rt_group_id (fork_for_group g t) = g" "rt_node_id (fork_for_group g t) = rt_node_id t" "rt_node_ids (fork_for_group g t) = rt_node_ids t"
  "rt_pending (fork_for_group g t) = []"
  by (simp_all add: fork_for_group_def raft_transport_new_def)

lemma raft_node_new_Ok:
  assumes "raft_node_new env cfg st t = Ok (node, t1)"
  shows "rn_group_id node = rcf_group_id cfg" "rt_group_id t1 = rt_group_id t" "rt_node_id t1 = rt_node_id t" "receivers_ok node"
  using assms by (auto simp: raft_node_new_def configure_snapshot_transfer_def receivers_ok_def split: prod.splits sum.splits)

lemma new_group_inv:
  assumes inv: "mm_inv mm" and g: "map_of (mm_groups mm) g = None" "length (mm_groups mm) < mm_max_groups mm"
    and h: "handle_ok (rt_node_id (mm_transport mm)) g h"
  shows "mm_inv (mm\<lparr>mm_groups := hm_insert g h (mm_groups mm)\<rparr>)"
proof -
  have "g \<notin> fst ` set (mm_groups mm)"
    using g(1) by (simp add: map_of_eq_None_iff)
  then show ?thesis
    using mm_invD[OF inv] g(2) h by (auto simp: mm_inv_def length_hm_insert distinct_update update_conv)
qed

text \<open>Creation ends in one of four ways.\<close>

lemma create_group_cases:
  obtains (refused) e where "create_group_inner env g members mm = (Err e, mm)" "map_of (mm_groups mm) g \<noteq> None \<or> length (mm_groups mm) \<ge> mm_max_groups mm"
  | (failed) e fs where "create_group_inner env g members mm = (Err e, mm\<lparr>mm_dirs := fs\<rparr>)"
  | (created) st fs node t1 raft where "map_of (mm_groups mm) g = None" "length (mm_groups mm) < mm_max_groups mm"
      "raft_node_new env ((mm_raft_config mm)\<lparr>rcf_group_id := g\<rparr>) st (fork_for_group g (mm_transport mm)) = Ok (node, t1)"
      "create_group_inner env g members mm = (Ok (), mm\<lparr>mm_dirs := fs, mm_groups :=
         hm_insert g (group_handle_new g (node\<lparr>rn_raft := raft\<rparr>) t1 (rcf_proposal_concurrency (mm_raft_config mm))) (mm_groups mm)\<rparr>)"
proof (cases "map_of (mm_groups mm) g \<noteq> None \<or> length (mm_groups mm) \<ge> mm_max_groups mm")
  case True
  then show ?thesis
    using refused[of "GroupAlreadyExists g"] refused[of "GroupLimitExceeded (mm_max_groups mm)"]
    by (cases "map_of (mm_groups mm) g = None") (simp_all add: create_group_inner_def)
next
  case False
  obtain r fs1 where b: "begin_storage env (mm_factory mm) g (mm_dirs mm) = (r, fs1)"
    by fastforce
  show ?thesis
  proof (cases r)
    case (Inl e)
    then show ?thesis
      using failed[of e fs1] False b by (simp add: create_group_inner_def)
  next
    case (Inr tx)
    show ?thesis
    proof (cases "raft_node_new env ((mm_raft_config mm)\<lparr>rcf_group_id := g\<rparr>) (tx_storage tx) (fork_for_group g (mm_transport mm))")
      case (Inl e)
      obtain cleanup fs2 where "transaction_abort env tx fs1 = (cleanup, fs2)"
        by fastforce
      then show ?thesis
        using failed[of "node_initialization_error env g e cleanup" fs2] False b \<open>r = Inr tx\<close> Inl
        by (simp add: create_group_inner_def Let_def)
    next
      case ok: (Inr nt)
      obtain node t1 where nt: "nt = (node, t1)"
        by fastforce
      obtain init raft where i: "(case members of None \<Rightarrow> (Ok (), rn_raft node) | Some ms \<Rightarrow> me_initialize env ms (rn_raft node)) = (init, raft)"
        by fastforce
      show ?thesis
      proof (cases init)
        case (Inl e)
        obtain cleanup fs2 where "transaction_abort env tx fs1 = (cleanup, fs2)"
          by fastforce
        then show ?thesis
          using failed[of _ fs2] False b \<open>r = Inr tx\<close> ok nt i Inl
          by (cases "me_node_shutdown env raft") (simp add: create_group_inner_def Let_def)
      next
        case (Inr u)
        then show ?thesis
          using created[of "tx_storage tx" node t1 raft fs1] False b \<open>r = Inr tx\<close> ok nt i
          by (simp add: create_group_inner_def Let_def)
      qed
    qed
  qed
qed

lemma create_group_inv:
  assumes "mm_inv mm"
  shows "mm_inv (snd (create_group_inner env g members mm))"
proof (cases rule: create_group_cases[of env g members mm])
  case (created st fs node t1 raft)
  note n = raft_node_new_Ok[OF created(3)]
  have "handle_ok (rt_node_id (mm_transport mm)) g (group_handle_new g (node\<lparr>rn_raft := raft\<rparr>) t1 (rcf_proposal_concurrency (mm_raft_config mm)))"
    using n by (simp add: handle_ok_def group_handle_new_def)
  then have "mm_inv ((mm\<lparr>mm_dirs := fs\<rparr>)\<lparr>mm_groups := hm_insert g (group_handle_new g (node\<lparr>rn_raft := raft\<rparr>) t1
      (rcf_proposal_concurrency (mm_raft_config mm))) (mm_groups (mm\<lparr>mm_dirs := fs\<rparr>))\<rparr>)"
    by (intro new_group_inv) (use assms created(1,2) in simp_all)
  then show ?thesis
    using created(4) by simp
qed (use assms in simp_all)

definition group_view ::
  "group_id \<Rightarrow> ('m, 'r, 'd) multi_raft_manager \<Rightarrow> (('m, 'r) raft_node \<times> bool \<times> (string + unit) option \<times> (u64 \<times> pending_rpc) list) option" where
  "group_view g mm = map_option (\<lambda>h. (gh_node h, gh_accepting h, gh_shutdown_result h, rt_pending (gh_transport h))) (get_group g mm)"

lemma group_view_put [simp]: "g' \<noteq> g \<Longrightarrow> group_view g' (put_group g h mm) = group_view g' mm"
  by (simp add: group_view_def get_group_def put_group_def update_conv)

lemma group_view_register [simp]: "group_view g (manager_register_node_id i w mm) = group_view g mm"
  by (simp add: group_view_def get_group_def manager_register_node_id_def map_of_map_values option.map_comp comp_def register_node_id_def)

lemma register_transport_id [simp]: "rt_node_id (mm_transport (manager_register_node_id i w mm)) = rt_node_id (mm_transport mm)"
  by (simp add: manager_register_node_id_def register_node_id_def)

lemma put_group_transport [simp]: "mm_transport (put_group g h mm) = mm_transport mm"
  by (simp add: put_group_def)

lemma dispatch_message_ok:
  assumes inv: "mm_inv mm"
  shows "\<exists>r mm'. dispatch_message env src dst payload mm = Some (r, mm') \<and> mm_inv mm' \<and>
    (\<forall>g'. g' \<noteq> message_group_id (fp_message payload) \<longrightarrow> group_view g' mm' = group_view g' mm) \<and>
    (\<forall>resp. r = Ok (Some resp) \<longrightarrow> rrr_source resp = rt_node_id (mm_transport mm) \<and> rrr_destination resp = src \<and>
       rrr_correlation_id resp = fp_correlation_id payload \<and> message_group_id (rrr_message resp) = message_group_id (fp_message payload) \<and>
       \<not> is_response (fp_message payload) \<and>
       (\<forall>ty. request_type (fp_message payload) = Some ty \<longrightarrow> response_matches ty (rrr_message resp)))"
proof -
  let ?g = "message_group_id (fp_message payload)"
  show ?thesis
  proof (cases "dst = rt_node_id (mm_transport mm) \<and> get_group ?g mm \<noteq> None")
    case False
    then show ?thesis
      using inv by (auto simp: dispatch_message_def Let_def)
  next
    case True
    then obtain h where h: "get_group ?g mm = Some h"
      by auto
    obtain r h' where d: "group_dispatch_message env src payload h = Some (r, h')" "handle_ok (rt_node_id (mm_transport mm)) ?g h'"
      "\<And>m. r = Ok (Some m) \<Longrightarrow> \<not> is_response (fp_message payload) \<and> message_group_id m = ?g \<and>
         (\<forall>ty. request_type (fp_message payload) = Some ty \<longrightarrow> response_matches ty m)"
      using group_dispatch_message_ok[OF mm_invD(3)[OF inv], of ?g h env src payload] h by (auto simp: get_group_def)
    let ?r = "case r of Inl e \<Rightarrow> Err e | Inr None \<Rightarrow> Ok None | Inr (Some m) \<Rightarrow>
      if message_group_id m \<noteq> ?g then Err (Routing ?g ''Raft response group mismatch'')
      else Ok (Some \<lparr>rrr_source = rt_node_id (mm_transport mm), rrr_destination = src, rrr_correlation_id = fp_correlation_id payload, rrr_message = m\<rparr>)"
    have eq: "dispatch_message env src dst payload mm = Some (?r, put_group ?g h' mm)"
      using True h d(1) by (simp add: dispatch_message_def Let_def)
    have "rrr_source resp = rt_node_id (mm_transport mm) \<and> rrr_destination resp = src \<and>
       rrr_correlation_id resp = fp_correlation_id payload \<and> message_group_id (rrr_message resp) = ?g \<and>
       \<not> is_response (fp_message payload) \<and>
       (\<forall>ty. request_type (fp_message payload) = Some ty \<longrightarrow> response_matches ty (rrr_message resp))" if "?r = Ok (Some resp)" for resp
    proof -
      obtain m where "r = Ok (Some m)" "resp = \<lparr>rrr_source = rt_node_id (mm_transport mm), rrr_destination = src,
          rrr_correlation_id = fp_correlation_id payload, rrr_message = m\<rparr>"
        using \<open>?r = Ok (Some resp)\<close> by (auto split: sum.splits option.splits if_splits)
      then show ?thesis
        using d(3) by simp
    qed
    moreover have "mm_inv (put_group ?g h' mm)" "\<forall>g'. g' \<noteq> ?g \<longrightarrow> group_view g' (put_group ?g h' mm) = group_view g' mm"
      using put_group_inv[OF inv h d(2)] by simp_all
    ultimately show ?thesis
      using eq by blast
  qed
qed

lemma route_message_ok:
  assumes inv: "mm_inv mm"
  shows "\<exists>r mm'. route_message env src dst payload mm = Some (r, mm') \<and> mm_inv mm'"
proof -
  let ?g = "message_group_id (fp_message payload)"
  show ?thesis
  proof (cases "get_group ?g mm")
    case None
    then show ?thesis
      using inv by (simp add: route_message_def Let_def)
  next
    case (Some h)
    obtain r h' where d: "group_handle_message env payload h = Some (r, h')" "handle_ok (rt_node_id (mm_transport mm)) ?g h'"
      using group_handle_message_ok[OF mm_invD(3)[OF inv], of ?g h env payload] Some by (auto simp: get_group_def)
    then show ?thesis
      using inv Some put_group_inv[OF inv Some d(2)] by (simp add: route_message_def Let_def)
  qed
qed

lemma decode_route_ok:
  assumes inv: "mm_inv mm" and d: "decode_route de source destination f mm = (r, mm')"
  shows "mm_inv mm'" "group_view g mm' = group_view g mm" "rt_node_id (mm_transport mm') = rt_node_id (mm_transport mm)"
    "r = Ok (src, dst, payload) \<Longrightarrow> decode_raft_frame de f = Some payload \<and>
       (decode_node_id source (mm_transport mm) = Some src \<or>
        decode_node_id source (mm_transport mm) = None \<and> source_node_id (fp_message payload) = Some src)"
proof -
  have m: "mm' = mm \<or> (\<exists>i. mm' = manager_register_node_id i source mm)"
    using d by (auto simp: decode_route_def learn_source_node_id_def split: option.splits prod.splits)
  then show "mm_inv mm'" "group_view g mm' = group_view g mm" "rt_node_id (mm_transport mm') = rt_node_id (mm_transport mm)"
    using inv manager_register_inv[OF inv] by auto
  show "decode_raft_frame de f = Some payload \<and> (decode_node_id source (mm_transport mm) = Some src \<or>
      decode_node_id source (mm_transport mm) = None \<and> source_node_id (fp_message payload) = Some src)" if "r = Ok (src, dst, payload)"
    using d that by (auto simp: decode_route_def learn_source_node_id_def split: option.splits prod.splits)
qed

lemma mm_apply_inv:
  assumes inv: "mm_inv mm"
  shows "\<exists>mm'. mm_apply env de x mm = Some mm' \<and> mm_inv mm'"
proof (cases x)
  case (CreateGroup g members)
  then show ?thesis
    using create_group_inv[OF inv] by simp
next
  case (RemoveGroup g)
  then show ?thesis
    using remove_group_inv[OF inv] by simp
next
  case (DispatchFrame source destination f)
  obtain r mm1 where d: "decode_route de source destination f mm = (r, mm1)"
    by fastforce
  note inv1 = decode_route_ok(1)[OF inv d]
  show ?thesis
  proof (cases r)
    case (Inl e)
    then show ?thesis
      using d DispatchFrame inv1 by (simp add: dispatch_frame_def)
  next
    case (Inr rt)
    obtain src dst payload where rt: "rt = (src, dst, payload)"
      by (cases rt) auto
    obtain r2 mm2 where "dispatch_message env src dst payload mm1 = Some (r2, mm2)" "mm_inv mm2"
      using dispatch_message_ok[OF inv1, of env src dst payload] by blast
    then show ?thesis
      using d DispatchFrame Inr rt by (simp add: dispatch_frame_def)
  qed
next
  case (RouteFrame source destination f)
  obtain r mm1 where d: "decode_route de source destination f mm = (r, mm1)"
    by fastforce
  note inv1 = decode_route_ok(1)[OF inv d]
  show ?thesis
  proof (cases r)
    case (Inl e)
    then show ?thesis
      using d RouteFrame inv1 by (simp add: route_frame_def)
  next
    case (Inr rt)
    obtain src dst payload where rt: "rt = (src, dst, payload)"
      by (cases rt) auto
    obtain r2 mm2 where "route_message env src dst payload mm1 = Some (r2, mm2)" "mm_inv mm2"
      using route_message_ok[OF inv1, of env src dst payload] by blast
    then show ?thesis
      using d RouteFrame Inr rt by (simp add: route_frame_def)
  qed
next
  case (RegisterNode i w)
  then show ?thesis
    using manager_register_inv[OF inv] by simp
next
  case TickAll
  then show ?thesis
    using map_groups_inv[OF inv, of "\<lambda>h. snd (group_tick env h)", OF group_tick_ok] by (simp add: tick_all_def)
next
  case ShutdownAll
  then show ?thesis
    using shutdown_loop_inv[OF inv] by (simp add: shutdown_all_def)
qed

lemma mm_run_inv: "mm_inv mm \<Longrightarrow> \<exists>mm'. mm_run env de xs mm = Some mm' \<and> mm_inv mm'"
proof (induction xs arbitrary: mm)
  case (Cons x xs)
  then show ?case
    using mm_apply_inv[OF Cons.prems, of env de x] by fastforce
qed simp

lemma manager_new_inv: "mm_inv (manager_new t fac cfg max_groups fs)"
  by (simp add: mm_inv_def manager_new_def)

definition demo_multi_env :: "(unit, unit, unit, unit) multi_env" where
  "demo_multi_env =
     \<lparr>me_raft = demo_raft_env, me_recover = (\<lambda>_ _ w s. (Ok (), Some (), Some ())), me_raft_new = (\<lambda>_ _. Ok ()),
      me_initialize = (\<lambda>_ r. (Err (ApiOther ''not allowed''), r)), me_node_shutdown = (\<lambda>r. (Ok (), r)),
      me_heartbeat = (\<lambda>r. (Ok (), r)), me_remove_error = (\<lambda>_. None), me_error_text = (\<lambda>_. []), me_transport_text = (\<lambda>_. [])\<rparr>"

section \<open>Properties\<close>

text \<open>
  (C39) Storage namespaces identify groups: exactly the canonical namespace of a group parses, and to that group, so
  two groups never share a directory and no other text, in particular none with a path separator
  or a dot after the prefix, is accepted.
\<close>

theorem group_namespace_roundtrip:
  "(parse_group_namespace v = Ok g \<longleftrightarrow> v = group_namespace g) \<and> length (group_namespace g) = 23 \<and>
   list_all is_hex (drop 7 (group_namespace g))"
  by (simp add: parse_group_namespace_iff)
     (simp add: group_namespace_def NAMESPACE_PREFIX_def GROUP_ID_HEX_LEN_def list_all_hex_of)

text \<open>
  (C11) Shutdown of a group waits for its operations and happens once: in every interleaving, while the body of the shutdown runs
  and after it no operation runs and none can start any more; the first stored result is final; and a shutdown
  that has begun can always reach its body, so the operations that are refused do not block it.
\<close>

theorem group_shutdown_drains:
  assumes "lifecycle_step\<^sup>*\<^sup>* lifecycle_new l"
  shows "(gl_shutdown l = SdDrained \<or> gl_result l \<noteq> None \<longrightarrow>
      (\<forall>l' i. lifecycle_step\<^sup>*\<^sup>* l l' \<longrightarrow> gl_ops l' i \<noteq> OpRunning)) \<and>
    (\<forall>r l'. gl_result l = Some r \<longrightarrow> lifecycle_step\<^sup>*\<^sup>* l l' \<longrightarrow> gl_result l' = Some r \<and> gl_bodies l' = gl_bodies l) \<and>
    (gl_shutdown l = SdInit \<longrightarrow> (\<exists>l'. lifecycle_step\<^sup>*\<^sup>* l l' \<and> gl_shutdown l' = SdDrained))"
proof -
  have inv: "lifecycle_inv l"
    by (rule lifecycle_run_inv[OF assms lifecycle_new_inv])
  show ?thesis
  proof (intro conjI impI allI)
    show "gl_ops l' i \<noteq> OpRunning" if "gl_shutdown l = SdDrained \<or> gl_result l \<noteq> None" "lifecycle_step\<^sup>*\<^sup>* l l'" for l' i
      using quiet_run[OF that(2) quiet_when_drained[OF inv that(1)]] by (simp add: quiet_def)
    show "gl_result l' = Some r" "gl_bodies l' = gl_bodies l" if "gl_result l = Some r" "lifecycle_step\<^sup>*\<^sup>* l l'" for r l'
      using lifecycle_run_result[OF that(2) inv that(1)] by simp_all
    show "\<exists>l'. lifecycle_step\<^sup>*\<^sup>* l l' \<and> gl_shutdown l' = SdDrained" if "gl_shutdown l = SdInit"
      by (rule lifecycle_can_drain[OF inv that])
  qed
qed

theorem group_shutdown_drains_witness:
  "\<exists>l l'. lifecycle_step\<^sup>*\<^sup>* lifecycle_new l \<and> gl_shutdown l = SdInit \<and> lifecycle_step\<^sup>*\<^sup>* l l' \<and> gl_shutdown l' = SdDrained"
proof -
  let ?a = "lifecycle_new\<lparr>gl_accepting := False\<rparr>"
  let ?b = "?a\<lparr>gl_shutdown := SdInit\<rparr>"
  have "lifecycle_step lifecycle_new ?a"
    by (rule lifecycle_step.close_admission)
  moreover have "lifecycle_step ?a ?b"
    by (rule lifecycle_step.init) (simp_all add: lifecycle_new_def)
  ultimately have run: "lifecycle_step\<^sup>*\<^sup>* lifecycle_new ?b"
    by (meson converse_rtranclp_into_rtranclp r_into_rtranclp)
  obtain l' where "lifecycle_step\<^sup>*\<^sup>* ?b l'" "gl_shutdown l' = SdDrained"
    using conjunct2[OF conjunct2[OF group_shutdown_drains[OF run]]] by auto
  then show ?thesis
    using run by (intro exI[of _ ?b] exI[of _ l']) simp
qed




abbreviation demo_append :: "unit raft_frame_payload" where
  "demo_append \<equiv> \<lparr>fp_correlation_id = 9, fp_message = AppendEntries (GroupId 4)
     \<lparr>aer_vote = demo_vote, aer_prev_log_id = None, aer_entries = [], aer_leader_commit = None\<rparr>\<rparr>"

abbreviation demo_manager :: "(unit, unit, unit) multi_raft_manager" where
  "demo_manager \<equiv> manager_new (raft_transport_new (GroupId 0) 1) \<lparr>sf_wal_dir = ''w'', sf_snapshot_dir = ''s'', sf_node_id = 1\<rparr>
     raft_config_default 1 (\<lambda>_. None)"


text \<open>
  (C40) Creating a group that already has durable state can destroy that state: when the group's directories hold a log, and either
  its recovery reports an error (such as the torn last record a crash leaves behind) or openraft refuses to initialise it again, as it does
  for a node that already has a log, the creation fails and has deleted both directories, so the next creation starts
  from nothing.
\<close>

theorem failed_creation_erases_durable_group:
  assumes "map_of (mm_groups mm) g = None" "length (mm_groups mm) < mm_max_groups mm" "\<forall>path. me_remove_error env path = None"
    and "wal = path_join (sf_wal_dir (mm_factory mm)) (group_namespace g)" "mm_dirs mm wal = Some d"
    and "snap = path_join (sf_snapshot_dir (mm_factory mm)) (group_namespace g)"
    and "me_recover env g (sf_node_id (mm_factory mm)) (Some d) (mm_dirs mm snap) = (r, Some d, snap')"
    and "(\<exists>e. r = Err e) \<or> (\<exists>st raft e. r = Ok st \<and> transfer_config_validate (raft_snapshot_transfer_config (mm_raft_config mm)) = Ok c \<and>
      me_raft_new env ((mm_raft_config mm)\<lparr>rcf_group_id := g\<rparr>) st = Ok raft \<and> fst (me_initialize env members raft) = Err e)"
  shows "(\<exists>e. fst (create_group_inner env g (Some members) mm) = Err e) \<and>
    mm_dirs (snd (create_group_inner env g (Some members) mm)) wal = None \<and>
    mm_dirs (snd (create_group_inner env g (Some members) mm)) snap = None"
proof -
  let ?fs = "(mm_dirs mm)(wal := Some d, snap := snap')"
  have gone: "\<exists>fs2. remove_group_dirs env wal snap ?fs = (Ok (), fs2) \<and> fs2 wal = None \<and> fs2 snap = None"
    using assms(3) by (auto simp: remove_group_dirs_def remove_dir_if_present_def)
  then obtain fs2 where fs2: "remove_group_dirs env wal snap ?fs = (Ok (), fs2)" "fs2 wal = None" "fs2 snap = None"
    by blast
  consider (recovery) e where "r = Err e"
    | (init) st raft e where "r = Ok st" "transfer_config_validate (raft_snapshot_transfer_config (mm_raft_config mm)) = Ok c"
      "me_raft_new env ((mm_raft_config mm)\<lparr>rcf_group_id := g\<rparr>) st = Ok raft" "fst (me_initialize env members raft) = Err e"
    using assms(8) by blast
  then show ?thesis
  proof cases
    case (recovery e)
    then have "begin_storage env (mm_factory mm) g (mm_dirs mm) = (Err (StorageCreation g e), fs2)"
      using assms(4-7) fs2(1) by (simp add: begin_storage_def Let_def)
    then show ?thesis
      using assms(1,2) fs2(2,3) by (simp add: create_group_inner_def)
  next
    case (init st raft e)
    let ?tx = "\<lparr>tx_group_id = g, tx_namespace = group_namespace g, tx_wal_dir = wal, tx_snapshot_dir = snap, tx_storage = st\<rparr>"
    have b: "begin_storage env (mm_factory mm) g (mm_dirs mm) = (Ok ?tx, ?fs)"
      using assms(4-7) init(1) by (simp add: begin_storage_def Let_def)
    have a: "transaction_abort env ?tx ?fs = (Ok (), fs2)"
      using fs2(1) by (simp add: transaction_abort_def)
    have cfg: "raft_snapshot_transfer_config ((mm_raft_config mm)\<lparr>rcf_group_id := g\<rparr>) = raft_snapshot_transfer_config (mm_raft_config mm)"
      by (simp add: raft_snapshot_transfer_config_def)
    obtain raft2 where i: "me_initialize env members raft = (Err e, raft2)"
      using init(4) by (cases "me_initialize env members raft") simp
    show ?thesis
      using assms(1,2) b a init(2,3) i fs2(2,3) cfg
      by (cases "me_node_shutdown env raft2")
         (simp add: create_group_inner_def raft_node_new_def configure_snapshot_transfer_def Let_def)
  qed
qed

theorem failed_creation_erases_durable_group_witness:
  "\<exists>mm :: (unit, unit, unit) multi_raft_manager. mm_dirs mm (path_join ''w'' (group_namespace (GroupId 4))) = Some () \<and>
     mm_dirs (snd (create_group_inner demo_multi_env (GroupId 4) (Some [1]) mm)) (path_join ''w'' (group_namespace (GroupId 4))) = None"
proof -
  let ?mm = "demo_manager\<lparr>mm_dirs := (\<lambda>_. Some ())\<rparr>"
  have "transfer_config_validate (raft_snapshot_transfer_config (mm_raft_config ?mm)) =
      Ok (raft_snapshot_transfer_config raft_config_default)"
    by (simp add: manager_new_def raft_snapshot_transfer_config_def raft_config_default_def transfer_config_validate_def)
  then show ?thesis
    using failed_creation_erases_durable_group[of ?mm "GroupId 4" demo_multi_env _ "()" _ "Ok ()" "Some ()"
        "raft_snapshot_transfer_config raft_config_default" "[1]", OF _ _ _ refl _ refl]
    by (intro exI[of _ ?mm]) (simp add: manager_new_def demo_multi_env_def)
qed

end
