(* ===== verification/File_Chunks.thy ===== *)
theory File_Chunks
  imports Std_Maps Wire Snapshot_Transfer "HOL-Library.Sublist"
begin

text \<open>
  The building blocks of the file transfer crate, \<^verbatim>\<open>chirps-file-transfer/src\<close>: chunk layout and chunk
  I/O (\<^verbatim>\<open>chunk.rs\<close>, \<^verbatim>\<open>integrity.rs\<close>), manifests (\<^verbatim>\<open>manifest.rs\<close>), the chunk tracker, the
  codec of a chunk stream (\<^verbatim>\<open>stream.rs\<close>), the bandwidth throttle (\<^verbatim>\<open>bandwidth.rs\<close>) and the path
  validator (\<^verbatim>\<open>path.rs\<close>).  The checksum of the \<^verbatim>\<open>xxhash\<close> crate is the parameter \<open>xxh\<close>, the digests
  of the hash crates the parameter \<open>digest\<close>; an incremental hasher is the bytes fed to it, since
  feeding pieces equals feeding their concatenation.  A file is its content.  The types of the crate and
  of the wire have the same fields and the conversions between them (\<^verbatim>\<open>ops/conversions.rs\<close>) copy field
  by field, so both are the wire types.
\<close>

section \<open>Paths\<close>

text \<open>
  A path of the standard library is compared by its components, so a path is the list of
  its components: empty segments vanish, and a dot is kept only at the start of a relative path.
\<close>

datatype component = RootDir | CurDir | ParentDir | Normal string

type_synonym path = "component list"

primrec split_slash :: "string \<Rightarrow> string list" where
  "split_slash [] = [[]]"
| "split_slash (c # cs) =
     (if c = CHR ''/'' then [] # split_slash cs
      else case split_slash cs of [] \<Rightarrow> [[c]] | s # ss \<Rightarrow> (c # s) # ss)"

definition segment :: "string \<Rightarrow> component list" where
  "segment s = (if s = [] \<or> s = ''.'' then [] else if s = ''..'' then [ParentDir] else [Normal s])"

definition components :: "string \<Rightarrow> path" where
  "components s =
     (let parts = split_slash s; tail = concat (map segment parts)
      in if take 1 s = ''/'' then RootDir # tail
         else if parts \<noteq> [] \<and> hd parts = ''.'' then CurDir # tail
         else tail)"

definition is_absolute :: "path \<Rightarrow> bool" where
  "is_absolute p \<longleftrightarrow> p \<noteq> [] \<and> hd p = RootDir"

definition path_join :: "path \<Rightarrow> path \<Rightarrow> path" where
  "path_join p q = (if is_absolute q \<or> p = [] then q else p @ filter (\<lambda>c. c \<noteq> CurDir) q)"

definition starts_with :: "path \<Rightarrow> path \<Rightarrow> bool" where
  "starts_with p base \<longleftrightarrow> prefix base p"

definition strip_prefix :: "path \<Rightarrow> path \<Rightarrow> path option" where
  "strip_prefix p base = (if prefix base p then Some (drop (length base) p) else None)"

definition file_name :: "path \<Rightarrow> string option" where
  "file_name p = (if p = [] then None else case last p of Normal s \<Rightarrow> Some s | _ \<Rightarrow> None)"

definition path_parent :: "path \<Rightarrow> path option" where
  "path_parent p = (if p = [] \<or> last p = RootDir then None else Some (butlast p))"

definition with_file_name :: "path \<Rightarrow> string \<Rightarrow> path" where
  "with_file_name p s = (case file_name p of Some _ \<Rightarrow> butlast p @ [Normal s] | None \<Rightarrow> p @ [Normal s])"

section \<open>Errors\<close>

text \<open>Where the code stores the rendering of a path in an error, the error here has the path.\<close>

datatype io_error = IoInvalidInput string | IoInvalidData string | IoUnexpectedEof | IoNotFound
  | IoWriteZero | IoOther string

datatype file_transfer_error =
    SessionNotFound transfer_session_id
  | SessionAlreadyExists transfer_session_id
  | InvalidState string string
  | FileNotFound path
  | FileAlreadyExists path
  | PermissionDenied string
  | DiskFull
  | PathTraversal path
  | ChunkChecksumMismatch chunk_index
  | FileHashMismatch
  | TransferTimeout
  | TransferCancelled
  | MaxRetriesExceeded chunk_index
  | SyncConflict string
  | FtIo io_error
  | FtTransport string
  | FtRejected string
  | FtSerialization string
  | FtCompression string
  | FtInternal string

fun error_code :: "file_transfer_error \<Rightarrow> u32" where
  "error_code (SessionNotFound _) = 1001"
| "error_code (SessionAlreadyExists _) = 1002"
| "error_code (InvalidState _ _) = 1003"
| "error_code (FileNotFound _) = 2001"
| "error_code (FileAlreadyExists _) = 2002"
| "error_code (PermissionDenied _) = 2003"
| "error_code DiskFull = 2004"
| "error_code (PathTraversal _) = 2005"
| "error_code (ChunkChecksumMismatch _) = 3001"
| "error_code FileHashMismatch = 3002"
| "error_code TransferTimeout = 3003"
| "error_code TransferCancelled = 3004"
| "error_code (MaxRetriesExceeded _) = 3005"
| "error_code (SyncConflict _) = 4001"
| "error_code (FtIo _) = 9001"
| "error_code (FtTransport _) = 9001"
| "error_code (FtRejected _) = 9001"
| "error_code (FtSerialization _) = 9001"
| "error_code (FtCompression _) = 9001"
| "error_code (FtInternal _) = 9001"

definition is_recoverable :: "file_transfer_error \<Rightarrow> bool" where
  "is_recoverable e \<longleftrightarrow>
     (case e of ChunkChecksumMismatch _ \<Rightarrow> True | TransferTimeout \<Rightarrow> True | FtTransport _ \<Rightarrow> True | _ \<Rightarrow> False)"

section \<open>The path validator\<close>

text \<open>
  What the validator asks the operating system: whether a path exists (following symbolic links), its
  canonical form, and whether the path itself is a symbolic link.
\<close>

record fs_env =
  fs_exists :: "path \<Rightarrow> bool"
  fs_canonicalize :: "path \<Rightarrow> io_error + path"
  fs_is_symlink :: "path \<Rightarrow> bool"

record path_validator =
  pv_base_path :: path
  pv_configured_base_path :: path
  pv_follow_symlinks :: bool

definition path_validator_new :: "fs_env \<Rightarrow> path \<Rightarrow> bool \<Rightarrow> path_validator" where
  "path_validator_new env base follow =
     \<lparr>pv_base_path = (case fs_canonicalize env base of Ok p \<Rightarrow> p | Err _ \<Rightarrow> base),
      pv_configured_base_path = base, pv_follow_symlinks = follow\<rparr>"

definition contains_parent_dir :: "path \<Rightarrow> bool" where
  "contains_parent_dir p \<longleftrightarrow> list_ex (\<lambda>c. c = ParentDir) p"

definition is_within_base :: "path_validator \<Rightarrow> path \<Rightarrow> bool" where
  "is_within_base v p \<longleftrightarrow> starts_with p (pv_base_path v)"

text \<open>The loop that climbs to the deepest existing ancestor; \<open>missing\<close> is in the order of the pushes.\<close>

function climb :: "fs_env \<Rightarrow> path \<Rightarrow> string list \<Rightarrow> io_error + path \<times> string list" where
  "climb env existing missing =
     (if fs_exists env existing then Ok (existing, missing)
      else case file_name existing of
             None \<Rightarrow> Err IoNotFound
           | Some name \<Rightarrow>
               (case path_parent existing of
                  None \<Rightarrow> Err IoNotFound
                | Some parent \<Rightarrow> climb env parent (missing @ [name])))"
  by pat_completeness auto

termination
  by (relation "measure (\<lambda>(_, p, _). length p)") (auto simp: path_parent_def split: if_splits)

declare climb.simps [simp del]

definition resolve_symlink :: "fs_env \<Rightarrow> path \<Rightarrow> io_error + path" where
  "resolve_symlink env p =
     and_then (climb env p []) (\<lambda>(existing, missing).
     and_then (fs_canonicalize env existing) (\<lambda>resolved.
       Ok (resolved @ map Normal (rev missing))))"

text \<open>The prefixes of a path from its first component on, and the first of them that is a link.\<close>

definition first_symlink :: "fs_env \<Rightarrow> path \<Rightarrow> path option" where
  "first_symlink env p = List.find (fs_is_symlink env) (map (\<lambda>n. take (Suc n) p) [0..<length p])"

definition reject_symlink_components :: "fs_env \<Rightarrow> path \<Rightarrow> file_transfer_error + unit" where
  "reject_symlink_components env p =
     (case first_symlink env p of Some q \<Rightarrow> Err (PathTraversal q) | None \<Rightarrow> Ok ())"

definition resolve_without_following_symlinks ::
  "fs_env \<Rightarrow> path_validator \<Rightarrow> path \<Rightarrow> file_transfer_error + path" where
  "resolve_without_following_symlinks env v candidate =
     and_then
       (case strip_prefix candidate (pv_configured_base_path v) of
          Some rest \<Rightarrow> Ok rest
        | None \<Rightarrow> ok_or (strip_prefix candidate (pv_base_path v)) (PathTraversal candidate))
       (\<lambda>rest.
          let resolved = path_join (pv_base_path v) rest
          in and_then (reject_symlink_components env resolved) (\<lambda>_. Ok resolved))"

definition validate_path :: "fs_env \<Rightarrow> path_validator \<Rightarrow> path \<Rightarrow> file_transfer_error + path" where
  "validate_path env v p =
     (if contains_parent_dir p then Err (PathTraversal p)
      else
        let candidate = (if is_absolute p then p else path_join (pv_base_path v) p)
        in and_then
             (if pv_follow_symlinks v
              then (case resolve_symlink env candidate of Ok r \<Rightarrow> Ok r | Err e \<Rightarrow> Err (FtIo e))
              else resolve_without_following_symlinks env v candidate)
             (\<lambda>resolved.
                if \<not> is_within_base v resolved then Err (PathTraversal resolved) else Ok resolved))"

section \<open>Chunk layout and chunk I/O\<close>

definition MIN_CHUNK_SIZE :: nat where
  "MIN_CHUNK_SIZE = 64 * 1024"

definition MAX_CHUNK_SIZE :: nat where
  "MAX_CHUNK_SIZE = 16 * 1024 * 1024"

record file_chunk =
  fc_index :: chunk_index
  fc_offset :: u64
  fc_size :: u32
  fc_checksum :: chunk_checksum
  fc_data :: bytes

record chunk_manager =
  cmg_chunk_size :: nat

definition chunk_manager_new :: "nat \<Rightarrow> chunk_manager" where
  "chunk_manager_new n = \<lparr>cmg_chunk_size = max MIN_CHUNK_SIZE (min n MAX_CHUNK_SIZE)\<rparr>"

text \<open>The number of chunks is cast to 32 bits.\<close>

definition calculate_chunk_count :: "chunk_manager \<Rightarrow> u64 \<Rightarrow> u32" where
  "calculate_chunk_count m file_size = of_nat (div_ceil (unat file_size) (cmg_chunk_size m))"

definition read_exact_at :: "bytes \<Rightarrow> nat \<Rightarrow> nat \<Rightarrow> io_error + bytes" where
  "read_exact_at content offset n =
     (if offset + n \<le> length content \<or> n = 0 then Ok (take n (drop offset content)) else Err IoUnexpectedEof)"

definition read_chunk :: "(bytes \<Rightarrow> u64) \<Rightarrow> chunk_manager \<Rightarrow> bytes \<Rightarrow> chunk_index \<Rightarrow> io_error + file_chunk" where
  "read_chunk xxh m content index =
     (let offset = (ucast index :: u64) * of_nat (cmg_chunk_size m);
          bytes_to_read = min (length content - unat offset) (cmg_chunk_size m)
      in and_then (read_exact_at content (unat offset) bytes_to_read) (\<lambda>data.
           Ok \<lparr>fc_index = index, fc_offset = offset, fc_size = of_nat bytes_to_read,
               fc_checksum = xxh data, fc_data = data\<rparr>))"

text \<open>Writing at an offset extends the file, with zeros in a gap.\<close>

definition write_at :: "bytes \<Rightarrow> nat \<Rightarrow> bytes \<Rightarrow> bytes" where
  "write_at content offset data =
     (if data = [] then content
      else take offset content @ replicate (offset - length content) 0 @ data
           @ drop (offset + length data) content)"

definition write_chunk :: "bytes \<Rightarrow> file_chunk \<Rightarrow> bytes" where
  "write_chunk content c = write_at content (unat (fc_offset c)) (fc_data c)"

definition verify_chunk :: "(bytes \<Rightarrow> u64) \<Rightarrow> file_chunk \<Rightarrow> bool" where
  "verify_chunk xxh c \<longleftrightarrow> xxh (fc_data c) = fc_checksum c"

definition chunk_meta_at :: "(bytes \<Rightarrow> u64) \<Rightarrow> chunk_manager \<Rightarrow> bytes \<Rightarrow> u64 \<Rightarrow> nat \<Rightarrow> io_error + chunk_meta" where
  "chunk_meta_at xxh m content file_size idx =
     (let offset = idx * cmg_chunk_size m;
          size = min (unat file_size - offset) (cmg_chunk_size m)
      in and_then (read_exact_at content offset size) (\<lambda>data.
           Ok \<lparr>cm_index = of_nat idx, cm_offset = of_nat offset, cm_size = of_nat size, cm_checksum = xxh data\<rparr>))"

primrec generate_metas_loop ::
  "(bytes \<Rightarrow> u64) \<Rightarrow> chunk_manager \<Rightarrow> bytes \<Rightarrow> u64 \<Rightarrow> nat list \<Rightarrow> io_error + chunk_meta list" where
  "generate_metas_loop xxh m content file_size [] = Ok []"
| "generate_metas_loop xxh m content file_size (idx # idxs) =
     and_then (chunk_meta_at xxh m content file_size idx) (\<lambda>meta.
     and_then (generate_metas_loop xxh m content file_size idxs) (\<lambda>metas. Ok (meta # metas)))"

definition generate_chunk_metas ::
  "(bytes \<Rightarrow> u64) \<Rightarrow> chunk_manager \<Rightarrow> bytes \<Rightarrow> u64 \<Rightarrow> io_error + chunk_meta list" where
  "generate_chunk_metas xxh m content file_size =
     generate_metas_loop xxh m content file_size [0..<unat (calculate_chunk_count m file_size)]"

definition layout_meta :: "nat \<Rightarrow> nat \<Rightarrow> nat \<Rightarrow> chunk_meta" where
  "layout_meta file_size chunk_size index =
     \<lparr>cm_index = of_nat index, cm_offset = of_nat (index * chunk_size),
      cm_size = of_nat (min (file_size - index * chunk_size) chunk_size), cm_checksum = 0\<rparr>"

definition build_chunk_layout :: "u64 \<Rightarrow> nat \<Rightarrow> io_error + chunk_meta list" where
  "build_chunk_layout file_size chunk_size =
     (if chunk_size = 0 \<or> chunk_size > 2 ^ 32 - 1
      then Err (IoInvalidInput ''chunk_size must be between 1 and u32::MAX'')
      else
        let count = div_ceil (unat file_size) chunk_size
        in if count > 2 ^ 32 - 1 then Err (IoInvalidInput ''chunk count exceeds u32::MAX'')
           else Ok (map (layout_meta (unat file_size) chunk_size) [0..<count]))"

text \<open>
  The scan of the source in batches of whole chunks: one read and one hasher update per batch, chunk
  metadata from the batch in memory.  The index saturates; the offsets stay below the file size.
\<close>

definition SOURCE_SCAN_BATCH_BYTES :: nat where
  "SOURCE_SCAN_BATCH_BYTES = 8 * 1024 * 1024"

fun scan_batch ::
  "(bytes \<Rightarrow> u64) \<Rightarrow> nat \<Rightarrow> nat \<Rightarrow> u32 \<Rightarrow> bytes \<Rightarrow> u32 \<times> chunk_meta list" where
  "scan_batch xxh chunk_size offset index data =
     (if data = [] \<or> chunk_size = 0 then (index, [])
      else
        let piece = take chunk_size data;
            (index', metas) = scan_batch xxh chunk_size (offset + length piece) (saturating_add index 1)
                                (drop chunk_size data)
        in (index', \<lparr>cm_index = index, cm_offset = of_nat offset, cm_size = of_nat (length piece),
                     cm_checksum = xxh piece\<rparr> # metas))"

declare scan_batch.simps [simp del]

function scan_loop ::
  "(bytes \<Rightarrow> u64) \<Rightarrow> nat \<Rightarrow> nat \<Rightarrow> bytes \<Rightarrow> nat \<Rightarrow> u32 \<Rightarrow> bytes \<times> chunk_meta list" where
  "scan_loop xxh chunk_size batch_bytes content offset index =
     (if length content \<le> offset \<or> batch_bytes = 0 then ([], [])
      else
        let batch = take batch_bytes (drop offset content);
            (index', metas) = scan_batch xxh chunk_size offset index batch;
            (hashed, metas') = scan_loop xxh chunk_size batch_bytes content (offset + length batch) index'
        in (batch @ hashed, metas @ metas'))"
  by pat_completeness auto

termination
  by (relation "measure (\<lambda>(_, _, _, content, offset, _). length content - offset)") auto

declare scan_loop.simps [simp del]

definition compute_file_hash :: "(hash_algorithm \<Rightarrow> bytes \<Rightarrow> bytes) \<Rightarrow> hash_algorithm \<Rightarrow> bytes \<Rightarrow> bytes" where
  "compute_file_hash digest algorithm content = digest algorithm content"

definition compute_file_hash_and_chunk_metas ::
  "(bytes \<Rightarrow> u64) \<Rightarrow> (hash_algorithm \<Rightarrow> bytes \<Rightarrow> bytes) \<Rightarrow> bytes \<Rightarrow> hash_algorithm \<Rightarrow> nat \<Rightarrow> io_error + bytes \<times> chunk_meta list"
where
  "compute_file_hash_and_chunk_metas xxh digest content algorithm chunk_size =
     (if chunk_size = 0 then Err (IoInvalidInput ''chunk_size must be greater than zero'')
      else
        let batch_bytes = chunk_size * max (SOURCE_SCAN_BATCH_BYTES div chunk_size) 1
        in if batch_bytes \<ge> 2 ^ 64 then Err (IoInvalidInput ''source scan buffer overflow'')
           else let (hashed, chunks) = scan_loop xxh chunk_size batch_bytes content 0 0
                in Ok (digest algorithm hashed, chunks))"

text \<open>
  Writing an owned chunk: each positional write takes some of the remaining bytes, as many as
  the next element of \<open>writes\<close> says.
\<close>

fun write_owned_chunk_at :: "nat list \<Rightarrow> bytes \<Rightarrow> u64 \<Rightarrow> bytes \<Rightarrow> nat \<Rightarrow> (io_error + bytes) option" where
  "write_owned_chunk_at writes content offset data written =
     (if length data \<le> written then Some (Ok content)
      else case writes of
             [] \<Rightarrow> None
           | w # ws \<Rightarrow>
               (case checked_add offset (of_nat written) of
                  None \<Rightarrow> Some (Err (IoInvalidInput ''chunk offset overflow''))
                | Some write_offset \<Rightarrow>
                    let part = take w (drop written data)
                    in if part = [] then Some (Err IoWriteZero)
                       else write_owned_chunk_at ws (write_at content (unat write_offset) part) offset data
                              (written + length part)))"

declare write_owned_chunk_at.simps [simp del]

section \<open>Manifests\<close>

datatype manifest_error =
    UnsupportedVersion u16
  | ChunkCountMismatch u32 u32
  | ChunkIndexMismatch u32 u32
  | SizeMismatch u64 u64

definition CURRENT_VERSION :: u16 where
  "CURRENT_VERSION = 2"

definition uses_trailing_integrity :: "transfer_manifest \<Rightarrow> bool" where
  "uses_trailing_integrity m \<longleftrightarrow> tm_version m \<ge> 2"

primrec sum_chunk_sizes :: "nat \<Rightarrow> u64 \<Rightarrow> chunk_meta list \<Rightarrow> manifest_error + u64" where
  "sum_chunk_sizes i total_size [] = Ok total_size"
| "sum_chunk_sizes i total_size (chunk # chunks) =
     (if cm_index chunk \<noteq> of_nat i then Err (ChunkIndexMismatch (of_nat i) (cm_index chunk))
      else sum_chunk_sizes (Suc i) (total_size + ucast (cm_size chunk)) chunks)"

definition validate_transfer_manifest :: "transfer_manifest \<Rightarrow> manifest_error + unit" where
  "validate_transfer_manifest m =
     (if tm_version m > CURRENT_VERSION then Err (UnsupportedVersion (tm_version m))
      else if length (tm_chunks m) \<noteq> unat (tm_chunk_count m)
      then Err (ChunkCountMismatch (tm_chunk_count m) (of_nat (length (tm_chunks m))))
      else and_then (sum_chunk_sizes 0 0 (tm_chunks m)) (\<lambda>total_size.
             if total_size \<noteq> tm_file_size m then Err (SizeMismatch (tm_file_size m) total_size)
             else Ok ()))"

section \<open>The chunk tracker\<close>

text \<open>An ordered set is the ordered map to the unit value.\<close>

record chunk_tracker =
  ct_total_chunks :: u32
  ct_completed :: "(chunk_index \<times> unit) list"
  ct_in_flight :: "(chunk_index \<times> unit) list"
  ct_failed :: "(chunk_index \<times> u8) list"
  ct_max_retries :: u8

definition chunk_tracker_new :: "u32 \<Rightarrow> u8 \<Rightarrow> chunk_tracker" where
  "chunk_tracker_new total_chunks retries =
     \<lparr>ct_total_chunks = total_chunks, ct_completed = [], ct_in_flight = [], ct_failed = [], ct_max_retries = retries\<rparr>"

abbreviation bs_contains :: "('k \<times> unit) list \<Rightarrow> 'k \<Rightarrow> bool" where
  "bs_contains s k \<equiv> map_of s k \<noteq> None"

text \<open>The loops push a matching index and return as soon as the length has reached the count.\<close>

primrec push_until :: "nat \<Rightarrow> chunk_index list \<Rightarrow> chunk_index list \<Rightarrow> chunk_index list \<times> bool" where
  "push_until count result [] = (result, False)"
| "push_until count result (idx # idxs) =
     (let result' = result @ [idx]
      in if length result' \<ge> count then (result', True) else push_until count result' idxs)"

definition next_chunks :: "chunk_tracker \<Rightarrow> nat \<Rightarrow> chunk_index list" where
  "next_chunks t count =
     (let retry = map fst (filter (\<lambda>(idx, retries). retries < ct_max_retries t \<and> \<not> bs_contains (ct_in_flight t) idx)
                             (ct_failed t));
          fresh = filter (\<lambda>idx. \<not> bs_contains (ct_completed t) idx \<and> \<not> bs_contains (ct_in_flight t) idx
                               \<and> map_of (ct_failed t) idx = None)
                    (map of_nat [0..<unat (ct_total_chunks t)]);
          (result, full) = push_until count [] retry
      in if full then result else fst (push_until count result fresh))"

definition mark_in_flight :: "chunk_index \<Rightarrow> chunk_tracker \<Rightarrow> chunk_tracker" where
  "mark_in_flight index t = t\<lparr>ct_in_flight := bt_insert index () (ct_in_flight t)\<rparr>"

definition mark_completed :: "chunk_index \<Rightarrow> chunk_tracker \<Rightarrow> chunk_tracker" where
  "mark_completed index t =
     t\<lparr>ct_in_flight := bt_remove index (ct_in_flight t), ct_failed := bt_remove index (ct_failed t),
       ct_completed := bt_insert index () (ct_completed t)\<rparr>"

definition mark_failed :: "chunk_index \<Rightarrow> chunk_tracker \<Rightarrow> chunk_tracker" where
  "mark_failed index t =
     (let retries = (case map_of (ct_failed t) index of Some r \<Rightarrow> r | None \<Rightarrow> 0)
      in t\<lparr>ct_in_flight := bt_remove index (ct_in_flight t),
           ct_failed := bt_insert index (saturating_add retries 1) (ct_failed t)\<rparr>)"

definition is_complete :: "chunk_tracker \<Rightarrow> bool" where
  "is_complete t \<longleftrightarrow> length (ct_completed t) = unat (ct_total_chunks t)"

definition completion_ratio :: "chunk_tracker \<Rightarrow> rat" where
  "completion_ratio t =
     (if ct_total_chunks t = 0 then 1
      else of_nat (length (ct_completed t)) / of_nat (unat (ct_total_chunks t)))"

definition permanently_failed :: "chunk_tracker \<Rightarrow> chunk_index list" where
  "permanently_failed t = map fst (filter (\<lambda>(_, retries). retries \<ge> ct_max_retries t) (ct_failed t))"

section \<open>The codec of a chunk stream\<close>

definition FILE_CHUNK_STREAM_MAGIC :: u8 where
  "FILE_CHUNK_STREAM_MAGIC = 0x46"

definition MAX_WIRE_CHUNK_SIZE :: nat where
  "MAX_WIRE_CHUNK_SIZE = MAX_CHUNK_SIZE + 128 * 1024"

record chunk_stream_header =
  csh_session_id :: transfer_session_id
  csh_chunk_index :: u32
  csh_data_len :: nat

fun session_id_as_bytes :: "transfer_session_id \<Rightarrow> bytes" where
  "session_id_as_bytes (TransferSessionId bs) = bs"

definition encode_header :: "transfer_session_id \<Rightarrow> u32 \<Rightarrow> nat \<Rightarrow> io_error + bytes" where
  "encode_header sid index data_len =
     (if data_len > MAX_WIRE_CHUNK_SIZE \<or> data_len > 2 ^ 32 - 1
      then Err (IoInvalidInput ''encoded chunk data exceeds maximum size'')
      else Ok ([FILE_CHUNK_STREAM_MAGIC] @ session_id_as_bytes sid @ to_le_bytes index
               @ to_le_bytes (of_nat data_len :: u32)))"

definition decode_header_bytes :: "bytes \<Rightarrow> io_error + chunk_stream_header" where
  "decode_header_bytes header =
     (if header ! 0 \<noteq> FILE_CHUNK_STREAM_MAGIC then Err (IoInvalidData ''invalid chunk stream magic'')
      else
        case transfer_session_id_from_bytes (slice_range header 1 17) of
          Err _ \<Rightarrow> Err (IoInvalidData ''invalid session id'')
        | Ok sid \<Rightarrow>
            let data_len = unat (from_le_bytes (slice_range header 21 25) :: u32)
            in if data_len > MAX_WIRE_CHUNK_SIZE
               then Err (IoInvalidData ''encoded chunk data exceeds maximum size'')
               else Ok \<lparr>csh_session_id = sid, csh_chunk_index = from_le_bytes (slice_range header 17 21),
                        csh_data_len = data_len\<rparr>)"

text \<open>A stream is the bytes still to be read; reading exactly so many bytes fails at an early end.\<close>

definition read_exact :: "bytes \<Rightarrow> nat \<Rightarrow> io_error + bytes \<times> bytes" where
  "read_exact stream n =
     (if n \<le> length stream then Ok (take n stream, drop n stream) else Err IoUnexpectedEof)"

definition chunk_encode :: "transfer_session_id \<Rightarrow> u32 \<Rightarrow> bytes \<Rightarrow> io_error + bytes" where
  "chunk_encode sid index data =
     and_then (encode_header sid index (length data)) (\<lambda>header. Ok (header @ data))"

definition encode_with_checksum :: "transfer_session_id \<Rightarrow> u32 \<Rightarrow> bytes \<Rightarrow> u64 \<Rightarrow> io_error + bytes" where
  "encode_with_checksum sid index data checksum =
     and_then (chunk_encode sid index data) (\<lambda>frame. Ok (frame @ to_le_bytes checksum))"

definition decode_header :: "bytes \<Rightarrow> io_error + chunk_stream_header \<times> bytes" where
  "decode_header stream =
     and_then (read_exact stream 24) (\<lambda>(header, rest).
     and_then (decode_header_bytes (FILE_CHUNK_STREAM_MAGIC # header)) (\<lambda>h. Ok (h, rest)))"

definition decode_payload :: "bytes \<Rightarrow> nat \<Rightarrow> io_error + bytes \<times> bytes" where
  "decode_payload stream data_len =
     (if data_len > MAX_WIRE_CHUNK_SIZE
      then Err (IoInvalidData ''encoded chunk data exceeds maximum size'')
      else read_exact stream data_len)"

definition decode_checksum :: "bytes \<Rightarrow> io_error + u64 \<times> bytes" where
  "decode_checksum stream = and_then (read_exact stream 8) (\<lambda>(bs, rest). Ok (from_le_bytes bs, rest))"

section \<open>The bandwidth throttle\<close>

text \<open>
  Instants and durations are nanoseconds; the products of the code are computed in 128 bits and stay
  below, since an elapsed time is below \<open>2 ^ 64\<close> nanoseconds.  The loop holds the lock for one
  round, so a round is one step, and the loop takes the clock reading of each round from a list.
\<close>

record bandwidth_throttle =
  bw_limit :: u64
  bw_tokens :: u64
  bw_last_refill :: nat

definition throttle_new :: "u64 \<Rightarrow> nat \<Rightarrow> bandwidth_throttle" where
  "throttle_new limit now = \<lparr>bw_limit = limit, bw_tokens = (if limit = 0 then 0 else limit), bw_last_refill = now\<rparr>"

definition throttle_tokens_for_elapsed :: "u64 \<Rightarrow> nat \<Rightarrow> u64" where
  "throttle_tokens_for_elapsed limit elapsed =
     (if limit = 0 then 0 else of_nat (min (elapsed * unat limit div 1000000000) (2 ^ 64 - 1)))"

definition missing_wait :: "u64 \<Rightarrow> u64 \<Rightarrow> nat option" where
  "missing_wait limit missing =
     (if limit = 0 then None
      else Some (min (max (unat missing * 1000000000 div unat limit) 1) (2 ^ 64 - 1)))"

text \<open>One round: either the request is satisfied, or what it still lacks and how long it sleeps.\<close>

datatype round_result = Granted | Lacking u64 "nat option"

definition throttle_round :: "nat \<Rightarrow> u64 \<Rightarrow> bandwidth_throttle \<Rightarrow> bandwidth_throttle \<times> round_result" where
  "throttle_round now remaining b =
     (let add = throttle_tokens_for_elapsed (bw_limit b) (now - bw_last_refill b);
          b1 = (if add > 0 then b\<lparr>bw_tokens := min (saturating_add (bw_tokens b) add) (bw_limit b), bw_last_refill := now\<rparr>
                else b);
          available = bw_tokens b1
      in if available \<ge> remaining then (b1\<lparr>bw_tokens := available - remaining\<rparr>, Granted)
         else
           let (b2, remaining') =
                 (if available > 0 then (b1\<lparr>bw_tokens := 0\<rparr>, saturating_sub remaining available) else (b1, remaining))
           in (b2, Lacking remaining' (missing_wait (bw_limit b) remaining')))"

text \<open>
  The loop with exact sleeps: the instant at which it returns, or none when the fuel does not
  suffice.
\<close>

fun acquire_loop :: "nat \<Rightarrow> nat \<Rightarrow> u64 \<Rightarrow> bandwidth_throttle \<Rightarrow> (nat \<times> bandwidth_throttle) option" where
  "acquire_loop 0 now remaining b = (if remaining > 0 then None else Some (now, b))"
| "acquire_loop (Suc fuel) now remaining b =
     (if remaining = 0 then Some (now, b)
      else case throttle_round now remaining b of
             (b', Granted) \<Rightarrow> Some (now, b')
           | (b', Lacking r None) \<Rightarrow> Some (now, b')
           | (b', Lacking r (Some wait)) \<Rightarrow> acquire_loop fuel (now + wait) r b')"

definition throttle_acquire :: "nat \<Rightarrow> nat \<Rightarrow> u64 \<Rightarrow> bandwidth_throttle \<Rightarrow> (nat \<times> bandwidth_throttle) option" where
  "throttle_acquire fuel now n b =
     (if n = 0 \<or> bw_limit b = 0 then Some (now, b) else acquire_loop fuel now n b)"

section \<open>Hashing chunks that arrive out of order\<close>

record incremental_receive_hash =
  irh_next_index :: u32
  irh_pending :: "(u32 \<times> bytes) list"
  irh_algorithm :: hash_algorithm
  irh_hashed :: bytes

definition incremental_new :: "hash_algorithm \<Rightarrow> incremental_receive_hash" where
  "incremental_new algorithm =
     \<lparr>irh_next_index = 0, irh_pending = [], irh_algorithm = algorithm, irh_hashed = []\<rparr>"

text \<open>The loop removes a pending chunk in each round, so as many rounds as there are pending chunks do.\<close>

fun drain_pending :: "nat \<Rightarrow> incremental_receive_hash \<Rightarrow> u64 \<Rightarrow> incremental_receive_hash \<times> u64" where
  "drain_pending 0 s bytes_hashed = (s, bytes_hashed)"
| "drain_pending (Suc n) s bytes_hashed =
     (case map_of (irh_pending s) (irh_next_index s) of
        None \<Rightarrow> (s, bytes_hashed)
      | Some data \<Rightarrow>
          drain_pending n
            (s\<lparr>irh_pending := bt_remove (irh_next_index s) (irh_pending s), irh_hashed := irh_hashed s @ data,
               irh_next_index := saturating_add (irh_next_index s) 1\<rparr>)
            (saturating_add bytes_hashed (of_nat (length data))))"

definition incremental_record :: "u32 \<Rightarrow> bytes \<Rightarrow> incremental_receive_hash \<Rightarrow> incremental_receive_hash \<times> u64" where
  "incremental_record index data s =
     (if index < irh_next_index s \<or> map_of (irh_pending s) index \<noteq> None then (s, 0)
      else let s' = s\<lparr>irh_pending := bt_insert index data (irh_pending s)\<rparr>
           in drain_pending (length (irh_pending s')) s' 0)"

definition incremental_finalize :: "(hash_algorithm \<Rightarrow> bytes \<Rightarrow> bytes) \<Rightarrow> incremental_receive_hash \<Rightarrow> bytes" where
  "incremental_finalize digest s = digest (irh_algorithm s) (irh_hashed s)"

section \<open>Chunk arithmetic\<close>

lemma div_ceil_0 [simp]: "div_ceil 0 b = 0"
  by (simp add: div_ceil_def)

lemma div_ceil_add: "0 < b \<Longrightarrow> div_ceil (k * b + a) b = k + div_ceil a b"
  by (simp add: div_ceil_def)

lemma div_ceil_step:
  assumes "0 < b" "0 < a"
  shows "div_ceil a b = Suc (div_ceil (a - b) b)"
proof (cases "b \<le> a")
  case True
  then show ?thesis
    using div_ceil_add[OF assms(1), of 1 "a - b"] by simp
next
  case False
  then show ?thesis
    using assms by (simp add: div_ceil_def)
qed

lemma div_ceil_less: "0 < b \<Longrightarrow> i < div_ceil a b \<Longrightarrow> i * b < a"
  using div_ceil_bounds(2)[of b a i] by (cases "a = 0") auto

lemma div_ceil_le: "0 < b \<Longrightarrow> a \<le> div_ceil a b * b"
  using div_ceil_bounds(1)[of b a] by (cases "a = 0") auto

text \<open>The chunks of a file.\<close>

definition piece :: "nat \<Rightarrow> bytes \<Rightarrow> nat \<Rightarrow> bytes" where
  "piece cs content i = take cs (drop (i * cs) content)"

lemma length_piece: "length (piece cs content i) = min (length content - i * cs) cs"
  by (simp add: piece_def min.commute)

lemma take_min_piece: "take (min (length content - i * cs) cs) (drop (i * cs) content) = piece cs content i"
  by (simp add: piece_def min_def)

lemma concat_pieces_upto: "concat (map (piece cs content) [0..<n]) = take (n * cs) content"
proof (induction n)
  case (Suc n)
  have "take (n * cs + cs) content = take (n * cs) content @ take cs (drop (n * cs) content)"
    by (rule take_add)
  then show ?case
    using Suc by (simp add: piece_def add.commute)
qed simp

lemma concat_pieces:
  "0 < cs \<Longrightarrow> concat (map (piece cs content) [0..<div_ceil (length content) cs]) = content"
  by (simp add: concat_pieces_upto div_ceil_le)

lemma piece_drop: "piece cs (drop (k * cs) content) i = piece cs content (k + i)"
  by (simp add: piece_def add_mult_distrib add.commute)

lemma piece_take:
  assumes "(i + 1) * cs \<le> n"
  shows "piece cs (take n content) i = piece cs content i"
proof -
  have "cs \<le> n - i * cs"
    using assms by simp
  then show ?thesis
    by (simp add: piece_def drop_take min_absorb1)
qed

section \<open>The batched scan\<close>

definition scan_meta :: "(bytes \<Rightarrow> u64) \<Rightarrow> nat \<Rightarrow> bytes \<Rightarrow> nat \<Rightarrow> chunk_meta" where
  "scan_meta xxh cs content i =
     \<lparr>cm_index = of_nat i, cm_offset = of_nat (i * cs), cm_size = of_nat (length (piece cs content i)),
      cm_checksum = xxh (piece cs content i)\<rparr>"

lemma unat_of_nat_small: "n < 2 ^ LENGTH('w::len) \<Longrightarrow> unat (of_nat n :: 'w word) = n"
  by (simp add: unat_of_nat take_bit_nat_eq_self)

lemma saturating_succ:
  assumes "Suc i < 2 ^ LENGTH('w::len)"
  shows "saturating_add (of_nat i :: 'w word) 1 = of_nat (Suc i)"
proof -
  have "unat (saturating_add (of_nat i :: 'w word) 1) = Suc i"
    using assms unat_of_nat_small[of i, where 'w = 'w] by (simp add: unat_saturating_add)
  then show ?thesis
    by (simp only: word_unat_eq_iff unat_of_nat_small[OF assms])
qed

definition piece_meta :: "(bytes \<Rightarrow> u64) \<Rightarrow> nat \<Rightarrow> nat \<Rightarrow> bytes \<Rightarrow> nat \<Rightarrow> nat \<Rightarrow> chunk_meta" where
  "piece_meta xxh cs off data i j =
     \<lparr>cm_index = of_nat (i + j), cm_offset = of_nat (off + (i + j) * cs),
      cm_size = of_nat (length (piece cs data j)), cm_checksum = xxh (piece cs data j)\<rparr>"

lemma piece_meta_drop: "piece_meta xxh cs off (drop cs data) (Suc i) = (\<lambda>j. piece_meta xxh cs off data i (Suc j))"
proof
  fix j
  show "piece_meta xxh cs off (drop cs data) (Suc i) j = piece_meta xxh cs off data i (Suc j)"
    using piece_drop[of cs 1 data j] by (simp add: piece_meta_def)
qed

lemma scan_batch_eq:
  assumes "0 < cs" "i + div_ceil (length data) cs < 2 ^ 32"
  shows "scan_batch xxh cs (off + i * cs) (of_nat i) data =
    (of_nat (i + div_ceil (length data) cs), map (piece_meta xxh cs off data i) [0..<div_ceil (length data) cs])"
  using assms(2)
proof (induction "length data" arbitrary: data i rule: less_induct)
  case less
  show ?case
  proof (cases "data = []")
    case True
    then show ?thesis
      by (simp add: scan_batch.simps)
  next
    case False
    let ?d = "drop cs data" and ?n = "div_ceil (length data) cs"
    have n: "?n = Suc (div_ceil (length ?d) cs)"
      using div_ceil_step[OF assms(1), of "length data"] False by simp
    have sat: "saturating_add (of_nat i :: u32) 1 = of_nat (Suc i)"
      using less(2) n by (intro saturating_succ) simp
    have IH: "scan_batch xxh cs (off + Suc i * cs) (of_nat (Suc i)) ?d =
      (of_nat (Suc i + div_ceil (length ?d) cs),
       map (piece_meta xxh cs off ?d (Suc i)) [0..<div_ceil (length ?d) cs])"
      using less(1)[of ?d "Suc i"] less(2) assms(1) False n by simp
    have tail: "scan_batch xxh cs (off + i * cs + length (take cs data)) (of_nat (Suc i)) ?d =
      (of_nat (i + ?n), map (\<lambda>j. piece_meta xxh cs off data i (Suc j)) [0..<div_ceil (length ?d) cs])"
    proof (cases "cs \<le> length data")
      case True
      then have "off + i * cs + length (take cs data) = off + Suc i * cs"
        by simp
      then show ?thesis
        using IH n by (simp only: piece_meta_drop add_Suc add_Suc_right)
    next
      case short: False
      then have "?d = []"
        by simp
      then show ?thesis
        using n by (simp add: scan_batch.simps)
    qed
    have head: "\<lparr>cm_index = of_nat i, cm_offset = of_nat (off + i * cs), cm_size = of_nat (length (take cs data)),
        cm_checksum = xxh (take cs data)\<rparr> = piece_meta xxh cs off data i 0"
      by (simp add: piece_meta_def piece_def)
    have "map (piece_meta xxh cs off data i) [0..<?n] =
        piece_meta xxh cs off data i 0 # map (\<lambda>j. piece_meta xxh cs off data i (Suc j)) [0..<div_ceil (length ?d) cs]"
      unfolding n by (simp add: map_upt_Suc del: upt_Suc)
    then show ?thesis
      using tail head False assms(1)
      by (subst scan_batch.simps) (simp only: sat Let_def, simp)
  qed
qed

lemma piece_metas_shift:
  assumes "\<And>j. j < n \<Longrightarrow> piece cs batch j = piece cs content (i + j)"
  shows "map (piece_meta xxh cs 0 batch i) [0..<n] = map (piece_meta xxh cs 0 content 0) [i..<i + n]"
  using assms by (intro nth_equalityI) (simp_all add: piece_meta_def)

text \<open>The batches together are the file and its chunks.\<close>

lemma scan_loop_eq:
  assumes cs: "0 < cs" and k: "0 < k" and n: "div_ceil (length content) cs < 2 ^ 32"
    and i: "i \<le> div_ceil (length content) cs"
  shows "scan_loop xxh cs (k * cs) content (i * cs) (of_nat i) =
    (drop (i * cs) content, map (piece_meta xxh cs 0 content 0) [i..<div_ceil (length content) cs])"
  using i
proof (induction "div_ceil (length content) cs - i" arbitrary: i rule: less_induct)
  case less
  let ?N = "div_ceil (length content) cs" and ?rest = "drop (i * cs) content"
  let ?batch = "take (k * cs) ?rest"
  show ?case
  proof (cases "i = ?N")
    case True
    then show ?thesis
      using div_ceil_le[OF cs, of "length content"] by (simp add: scan_loop.simps)
  next
    case False
    then have iN: "i < ?N"
      using less(2) by simp
    have lt: "i * cs < length content"
      by (rule div_ceil_less[OF cs iN])
    have N: "?N = i + div_ceil (length ?rest) cs"
      using div_ceil_add[OF cs, of i "length content - i * cs"] lt by simp
    have step: "scan_loop xxh cs (k * cs) content (i * cs) (of_nat i) =
      (let (index', metas) = scan_batch xxh cs (i * cs) (of_nat i) ?batch;
           (hashed, metas') = scan_loop xxh cs (k * cs) content (i * cs + length ?batch) index'
       in (?batch @ hashed, metas @ metas'))"
      using lt k cs by (subst scan_loop.simps) (simp add: Let_def)
    show ?thesis
    proof (cases "k * cs \<le> length ?rest")
      case full: True
      have N': "?N = i + k + div_ceil (length ?rest - k * cs) cs"
        using N div_ceil_add[OF cs, of k "length ?rest - k * cs"] le_add_diff_inverse[OF full] by (simp only: add.assoc)
      have len: "length ?batch = k * cs" "div_ceil (length ?batch) cs = k"
        using full div_ceil_add[OF cs, of k 0] by simp_all
      have pc: "piece cs ?batch j = piece cs content (i + j)" if "j < k" for j
      proof -
        have "(j + 1) * cs \<le> k * cs"
          using that by (intro mult_right_mono) auto
        then show ?thesis
          by (simp only: piece_take piece_drop)
      qed
      have "scan_batch xxh cs (i * cs) (of_nat i) ?batch =
          (of_nat (i + k), map (piece_meta xxh cs 0 content 0) [i..<i + k])"
        using scan_batch_eq[OF cs, of i ?batch xxh 0] n N' len piece_metas_shift[OF pc, of k xxh] by simp
      moreover have "scan_loop xxh cs (k * cs) content (i * cs + k * cs) (of_nat (i + k)) =
          (drop ((i + k) * cs) content, map (piece_meta xxh cs 0 content 0) [i + k..<?N])"
        using less(1)[of "i + k"] N' k by (simp add: add_mult_distrib)
      moreover have "?batch @ drop ((i + k) * cs) content = ?rest"
        using append_take_drop_id[of "k * cs" ?rest] by (simp add: add_mult_distrib add.commute)
      moreover have "[i..<i + k] @ [i + k..<?N] = [i..<?N]"
        using N' upt_add_eq_append[of i "i + k" "?N - (i + k)"] by simp
      ultimately show ?thesis
        using step len(1) by (simp only: Let_def prod.case map_append[symmetric])
    next
      case False
      then have b: "?batch = ?rest"
        by simp
      have pc: "piece cs ?rest j = piece cs content (i + j)" for j
        by (rule piece_drop)
      have "scan_batch xxh cs (i * cs) (of_nat i) ?rest = (of_nat ?N, map (piece_meta xxh cs 0 content 0) [i..<?N])"
        using scan_batch_eq[OF cs, of i ?rest xxh 0] n N piece_metas_shift[where n = "div_ceil (length ?rest) cs" and xxh = xxh, OF pc] by simp
      moreover have "scan_loop xxh cs (k * cs) content (i * cs + length ?rest) (of_nat ?N) = ([], [])"
        using lt by (simp add: scan_loop.simps)
      ultimately show ?thesis
        using step unfolding b by (simp only: Let_def prod.case append_Nil2)
    qed
  qed
qed

lemma read_exact_at_min: "off \<le> length content \<Longrightarrow> read_exact_at content off (min (length content - off) n) = Ok (take n (drop off content))"
  by (auto simp: read_exact_at_def min_def)

lemma generate_metas_eq:
  assumes cs: "0 < cmg_chunk_size m" and len: "length content < 2 ^ 64"
    and idxs: "\<forall>i\<in>set idxs. i < div_ceil (length content) (cmg_chunk_size m)"
  shows "generate_metas_loop xxh m content (of_nat (length content)) idxs =
    Ok (map (piece_meta xxh (cmg_chunk_size m) 0 content 0) idxs)"
  using idxs
proof (induction idxs)
  case (Cons i idxs)
  let ?cs = "cmg_chunk_size m"
  have "i * ?cs < length content"
    using div_ceil_less[OF cs] Cons.prems by simp
  moreover have "unat (of_nat (length content) :: u64) = length content"
    using len by (intro unat_of_nat_small) simp
  ultimately have "chunk_meta_at xxh m content (of_nat (length content)) i = Ok (piece_meta xxh ?cs 0 content 0 i)"
    by (simp add: chunk_meta_at_def Let_def read_exact_at_min piece_meta_def length_piece piece_def)
  with Cons show ?case
    by simp
qed simp

section \<open>Manifests\<close>

lemma sum_chunk_sizes_eq:
  assumes "\<And>j. j < length chunks \<Longrightarrow> cm_index (chunks ! j) = of_nat (i + j)"
  shows "sum_chunk_sizes i t chunks = Ok (t + of_nat (sum_list (map (\<lambda>c. unat (cm_size c)) chunks)))"
  using assms
proof (induction chunks arbitrary: i t)
  case (Cons c chunks)
  have "cm_index c = of_nat i"
    using Cons.prems[of 0] by simp
  moreover have "sum_chunk_sizes (Suc i) (t + ucast (cm_size c)) chunks =
      Ok (t + ucast (cm_size c) + of_nat (sum_list (map (\<lambda>c. unat (cm_size c)) chunks)))"
    using Cons.prems[of "Suc _"] by (intro Cons.IH) simp
  ultimately show ?case
    by (simp add: add.assoc)
qed simp

lemma sum_chunk_sizes_Ok:
  "sum_chunk_sizes i t chunks = Ok s \<Longrightarrow> j < length chunks \<Longrightarrow> cm_index (chunks ! j) = of_nat (i + j)"
proof (induction chunks arbitrary: i t j)
  case (Cons c chunks)
  then show ?case
    by (cases j) (auto split: if_splits)
qed simp

definition layout_sizes :: "chunk_meta list \<Rightarrow> nat" where
  "layout_sizes chunks = sum_list (map (\<lambda>c. unat (cm_size c)) chunks)"

lemma layout_sizes_bound: "layout_sizes chunks \<le> length chunks * (2 ^ 32 - 1)"
proof (induction chunks)
  case (Cons c chunks)
  have "unat (cm_size c) \<le> 2 ^ 32 - 1"
    using unat_bound[of "cm_size c"] by simp
  with Cons show ?case
    by (simp add: layout_sizes_def)
qed (simp add: layout_sizes_def)

text \<open>What validation establishes: the number of chunks, their indices and the sum of their sizes.\<close>

lemma validate_transfer_manifest_Ok:
  assumes "validate_transfer_manifest m = Ok ()"
  shows "tm_version m \<le> 2" "length (tm_chunks m) = unat (tm_chunk_count m)"
    "\<And>j. j < length (tm_chunks m) \<Longrightarrow> cm_index (tm_chunks m ! j) = of_nat j"
    "layout_sizes (tm_chunks m) = unat (tm_file_size m)"
proof -
  show 1: "tm_version m \<le> 2" "length (tm_chunks m) = unat (tm_chunk_count m)"
    using assms by (auto simp: validate_transfer_manifest_def CURRENT_VERSION_def split: if_splits)
  then have s: "sum_chunk_sizes 0 0 (tm_chunks m) = Ok (tm_file_size m)"
    using assms
    by (cases "sum_chunk_sizes 0 0 (tm_chunks m)") (auto simp: validate_transfer_manifest_def split: if_splits)
  show 2: "cm_index (tm_chunks m ! j) = of_nat j" if "j < length (tm_chunks m)" for j
    using sum_chunk_sizes_Ok[OF s that] by simp
  have e: "tm_file_size m = of_nat (layout_sizes (tm_chunks m))"
    using sum_chunk_sizes_eq[of "tm_chunks m" 0 0] 2 s by (simp add: layout_sizes_def)
  have "length (tm_chunks m) * (2 ^ 32 - 1) \<le> (2 ^ 32 - 1) * (2 ^ 32 - 1)"
    using 1(2) unat_bound[of "tm_chunk_count m"] by (intro mult_right_mono) simp_all
  then have "layout_sizes (tm_chunks m) < 2 ^ 64"
    using layout_sizes_bound[of "tm_chunks m"] by simp
  then show "layout_sizes (tm_chunks m) = unat (tm_file_size m)"
    unfolding e by (subst unat_of_nat_small) simp_all
qed

lemma build_chunk_layout_Ok:
  assumes "build_chunk_layout file_size cs = Ok chunks"
  shows "0 < cs" "cs < 2 ^ 32" "length chunks = div_ceil (unat file_size) cs" "length chunks < 2 ^ 32"
    "\<And>j. j < length chunks \<Longrightarrow> chunks ! j = layout_meta (unat file_size) cs j"
  using assms by (auto simp: build_chunk_layout_def Let_def split: if_splits)

text \<open>The chunk of a layout is the piece of the file at its index.\<close>

lemma layout_meta_fields:
  fixes file_size :: u64
  assumes "0 < cs" "cs < 2 ^ 32" "j < div_ceil (unat file_size) cs"
  shows "unat (cm_offset (layout_meta (unat file_size) cs j)) = j * cs"
    "unat (cm_size (layout_meta (unat file_size) cs j)) = min (unat file_size - j * cs) cs"
proof -
  have "j * cs < unat file_size"
    by (rule div_ceil_less[OF assms(1,3)])
  then have "j * cs < 2 ^ LENGTH(64)"
    using unat_bound[of file_size] by linarith
  then show "unat (cm_offset (layout_meta (unat file_size) cs j)) = j * cs"
    unfolding layout_meta_def by (simp only: chunk_meta.simps unat_of_nat_small)
  have "min (unat file_size - j * cs) cs < 2 ^ LENGTH(32)"
    using assms(2) by simp
  then show "unat (cm_size (layout_meta (unat file_size) cs j)) = min (unat file_size - j * cs) cs"
    unfolding layout_meta_def by (simp only: chunk_meta.simps unat_of_nat_small)
qed

lemma sum_piece_sizes:
  assumes "0 < cs"
  shows "sum_list (map (\<lambda>j. min (n - j * cs) cs) [0..<div_ceil n cs]) = n"
proof -
  let ?content = "replicate n (0 :: u8)"
  have "length (concat (map (piece cs ?content) [0..<div_ceil n cs])) = n"
    using concat_pieces[OF assms, of ?content] by simp
  then show ?thesis
    by (simp add: length_concat length_piece o_def)
qed

lemma layout_sizes_layout:
  fixes file_size :: u64
  assumes "build_chunk_layout file_size cs = Ok chunks"
  shows "layout_sizes chunks = unat file_size"
proof -
  note l = build_chunk_layout_Ok[OF assms]
  have "map (\<lambda>c. unat (cm_size c)) chunks = map (\<lambda>j. min (unat file_size - j * cs) cs) [0..<length chunks]"
    using l by (intro nth_equalityI) (simp_all add: layout_meta_fields)
  then show ?thesis
    using l sum_piece_sizes[OF l(1), of "unat file_size"] by (simp add: layout_sizes_def)
qed

section \<open>Hashing out of order\<close>

text \<open>
  The state after recording the chunks in \<open>S\<close>, each with its data \<open>d\<close>: a prefix has been
  hashed, the rest is pending.
\<close>

definition irh_core :: "(u32 \<Rightarrow> bytes) \<Rightarrow> u32 set \<Rightarrow> incremental_receive_hash \<Rightarrow> bool" where
  "irh_core d S s \<longleftrightarrow>
     bt_inv (irh_pending s)
     \<and> (\<forall>k. map_of (irh_pending s) k = (if k \<in> S \<and> irh_next_index s \<le> k then Some (d k) else None))
     \<and> (\<forall>k<irh_next_index s. k \<in> S)
     \<and> irh_hashed s = concat (map (\<lambda>i. d (of_nat i)) [0..<unat (irh_next_index s)])"

definition irh_ok :: "(u32 \<Rightarrow> bytes) \<Rightarrow> u32 set \<Rightarrow> incremental_receive_hash \<Rightarrow> bool" where
  "irh_ok d S s \<longleftrightarrow> irh_core d S s \<and> irh_next_index s \<notin> S"

lemma irh_core_advance:
  assumes core: "irh_core d S s" and S: "irh_next_index s \<in> S" "- 1 \<notin> S"
  shows "irh_core d S (s\<lparr>irh_pending := bt_remove (irh_next_index s) (irh_pending s),
      irh_hashed := irh_hashed s @ d (irh_next_index s), irh_next_index := saturating_add (irh_next_index s) 1\<rparr>)"
proof -
  let ?n = "irh_next_index s"
  have "?n \<noteq> - 1"
    using S by metis
  then have u: "unat (saturating_add ?n 1) = Suc (unat ?n)"
    using unat_bound[of ?n] unat_max_word[where 'w = 32] by (simp add: unat_saturating_add word_unat_eq_iff)
  have le: "saturating_add ?n 1 \<le> k \<longleftrightarrow> ?n \<le> k \<and> k \<noteq> ?n" for k
    unfolding word_le_nat_alt u word_unat_eq_iff by linarith
  have less: "k < saturating_add ?n 1 \<longleftrightarrow> k < ?n \<or> k = ?n" for k
    unfolding word_less_nat_alt u word_unat_eq_iff by linarith
  show ?thesis
    using core S(1) by (auto simp: irh_core_def bt_inv_remove map_of_bt_remove le less u)
qed

lemma irh_core_algorithm: "irh_algorithm (fst (drain_pending n s b)) = irh_algorithm s"
  by (induction n s b rule: drain_pending.induct) (auto split: option.splits)

lemma drain_pending_ok:
  "irh_core d S s \<Longrightarrow> - 1 \<notin> S \<Longrightarrow> length (irh_pending s) \<le> n \<Longrightarrow> irh_ok d S (fst (drain_pending n s b))"
proof (induction n s b rule: drain_pending.induct)
  case (1 s b)
  then have "map_of (irh_pending s) (irh_next_index s) = None"
    by simp
  then show ?case
    using 1(1) by (auto simp: irh_ok_def irh_core_def split: if_splits)
next
  case (2 n s b)
  show ?case
  proof (cases "map_of (irh_pending s) (irh_next_index s)")
    case None
    then show ?thesis
      using 2(2) by (auto simp: irh_ok_def irh_core_def split: if_splits)
  next
    case (Some data)
    then have S: "irh_next_index s \<in> S" and d: "data = d (irh_next_index s)"
      using 2(2) by (auto simp: irh_core_def split: if_splits)
    have inv: "bt_inv (irh_pending s)"
      using 2(2) by (simp add: irh_core_def)
    have "length (irh_pending s) = Suc (length (bt_remove (irh_next_index s) (irh_pending s)))"
      using btree.length_remove_present[OF inv] Some by simp
    then show ?thesis
      using 2(1)[OF Some] irh_core_advance[OF 2(2) S 2(3)] 2(3,4) Some d by simp
  qed
qed

lemma incremental_record_ok:
  assumes ok: "irh_ok d S s" and S: "- 1 \<notin> S" "index \<noteq> - 1"
  shows "irh_ok d (insert index S) (fst (incremental_record index (d index) s))"
proof (cases "index < irh_next_index s \<or> map_of (irh_pending s) index \<noteq> None")
  case True
  then have "index \<in> S"
    using ok by (auto simp: irh_ok_def irh_core_def split: if_splits)
  then show ?thesis
    using ok True by (simp add: incremental_record_def insert_absorb)
next
  case False
  let ?s = "s\<lparr>irh_pending := bt_insert index (d index) (irh_pending s)\<rparr>"
  have "irh_core d (insert index S) ?s"
    using ok False by (auto simp: irh_ok_def irh_core_def bt_inv_insert map_of_bt_insert)
  then show ?thesis
    using drain_pending_ok[of d "insert index S" ?s "length (irh_pending ?s)" 0] False S
    by (simp add: incremental_record_def Let_def)
qed

lemma incremental_record_algorithm: "irh_algorithm (fst (incremental_record index data s)) = irh_algorithm s"
  by (simp add: incremental_record_def Let_def irh_core_algorithm)

lemma incremental_new_ok: "irh_ok d {} (incremental_new alg)"
  by (simp add: irh_ok_def irh_core_def incremental_new_def bt_inv_def)

text \<open>The hash is ready exactly when every chunk has been recorded.\<close>

lemma irh_ok_complete:
  assumes "irh_ok d S s" "irh_next_index s = n"
  shows "irh_hashed s = concat (map (\<lambda>i. d (of_nat i)) [0..<unat n])"
  using assms by (simp add: irh_ok_def irh_core_def)

lemma irh_ok_all:
  assumes ok: "irh_ok d S s" and S: "S = {i. i < n}"
  shows "irh_next_index s = n" "irh_pending s = []"
proof -
  have a: "irh_next_index s \<le> n"
  proof (rule ccontr)
    assume "\<not> irh_next_index s \<le> n"
    then have "n \<in> S"
      using ok by (simp add: irh_ok_def irh_core_def)
    then show False
      by (simp add: S)
  qed
  moreover have "\<not> irh_next_index s < n"
    using ok by (simp add: irh_ok_def S)
  ultimately show n: "irh_next_index s = n"
    by simp
  have "map_of (irh_pending s) k = None" for k
    using ok n by (simp add: irh_ok_def irh_core_def S not_le)
  then show "irh_pending s = []"
    by (cases "irh_pending s") (auto split: if_splits, metis option.distinct(1))
qed

section \<open>Paths stay below the base\<close>

text \<open>
  What the documentation of \<^verbatim>\<open>canonicalize\<close> says: an absolute path without parent
  components and without symbolic links, naming the same file, so that the same names exist below both.
\<close>

definition canonical_laws :: "fs_env \<Rightarrow> bool" where
  "canonical_laws env \<longleftrightarrow>
     (\<forall>p q. fs_canonicalize env p = Ok q \<longrightarrow>
        ParentDir \<notin> set q \<and> (\<forall>r. prefix r q \<longrightarrow> \<not> fs_is_symlink env r)
        \<and> (\<forall>names. fs_exists env (q @ map Normal names) = fs_exists env (p @ map Normal names)))"

lemma climb_Ok:
  assumes "climb env p missing = Ok (e, m)"
  shows "\<exists>names. m = missing @ rev names \<and> p = e @ map Normal names
    \<and> (\<forall>k<length names. \<not> fs_exists env (e @ map Normal (take (Suc k) names)))"
  using assms
proof (induction env p missing arbitrary: e m rule: climb.induct)
  case (1 env p missing)
  show ?case
  proof (cases "fs_exists env p")
    case True
    then show ?thesis
      using 1(2) by (intro exI[of _ "[]"]) (simp add: climb.simps[of _ p])
  next
    case False
    then obtain name parent where n: "file_name p = Some name" "path_parent p = Some parent"
        and c: "climb env parent (missing @ [name]) = Ok (e, m)"
      using 1(2) by (auto simp: climb.simps[of _ p] split: option.splits)
    have "p \<noteq> []" "last p = Normal name" "parent = butlast p"
      using n by (auto simp: file_name_def path_parent_def split: if_splits component.splits)
    then have p: "p = parent @ [Normal name]"
      by (metis append_butlast_last_id)
    obtain names where names: "m = (missing @ [name]) @ rev names" "parent = e @ map Normal names"
        "\<forall>k<length names. \<not> fs_exists env (e @ map Normal (take (Suc k) names))"
      using 1(1)[OF False n c] by blast
    have "\<not> fs_exists env (e @ map Normal (take (Suc k) (names @ [name])))" if "k < length (names @ [name])" for k
      using names(2,3) that False p by (cases "k < length names") (auto simp: less_Suc_eq)
    then show ?thesis
      using names(1,2) p by (intro exI[of _ "names @ [name]"]) simp
  qed
qed

lemma path_join_parent: "ParentDir \<notin> set p \<Longrightarrow> ParentDir \<notin> set q \<Longrightarrow> ParentDir \<notin> set (path_join p q)"
  by (simp add: path_join_def)

lemma first_symlink_None:
  assumes "first_symlink env p = None" "prefix q p" "q \<noteq> []"
  shows "\<not> fs_is_symlink env q"
proof -
  have "q = take (Suc (length q - 1)) p" "length q - 1 < length p"
    using assms(2,3) by (cases q; auto simp: prefix_def)+
  then have "q \<in> set (map (\<lambda>n. take (Suc n) p) [0..<length p])"
    unfolding set_map set_upt by (intro image_eqI[of _ _ "length q - 1"]) simp_all
  then show ?thesis
    using assms(1) by (simp only: first_symlink_def find_None_iff not_False_eq_True) blast
qed

lemma resolve_symlink_Ok:
  assumes laws: "canonical_laws env" and r: "resolve_symlink env p = Ok r"
  shows "ParentDir \<notin> set r" "prefix q r \<Longrightarrow> fs_exists env q \<Longrightarrow> \<not> fs_is_symlink env q"
proof -
  obtain e m c where c: "climb env p [] = Ok (e, m)" and can: "fs_canonicalize env e = Ok c"
      and rr: "r = c @ map Normal (rev m)"
    using r by (auto simp: resolve_symlink_def and_then_eq_Ok)
  obtain names where names: "rev m = names"
      "\<forall>k<length names. \<not> fs_exists env (e @ map Normal (take (Suc k) names))"
    using climb_Ok[OF c] by auto
  have can': "ParentDir \<notin> set c" "\<And>r. prefix r c \<Longrightarrow> \<not> fs_is_symlink env r"
      "\<And>ns. fs_exists env (c @ map Normal ns) = fs_exists env (e @ map Normal ns)"
    using laws can unfolding canonical_laws_def by blast+
  show "ParentDir \<notin> set r"
    using can'(1) by (auto simp: rr)
  show "\<not> fs_is_symlink env q" if q: "prefix q r" "fs_exists env q"
  proof (cases "prefix q c")
    case True
    then show ?thesis
      by (rule can'(2))
  next
    case False
    then obtain n where n: "q = c @ map Normal n" "prefix n names" "n \<noteq> []"
      using q(1) by (auto simp: rr names(1) prefix_append prefix_map_rightE dest: prefix_map_rightE)
    then have "n = take (Suc (length n - 1)) names" "length n - 1 < length names"
      by (cases n; auto simp: prefix_def)+
    then have "\<not> fs_exists env (c @ map Normal n)"
      using names(2) by (metis can'(3))
    then show ?thesis
      using q(2) n(1) by simp
  qed
qed

lemma resolve_without_Ok:
  assumes laws: "canonical_laws env" and v: "v = path_validator_new env base follow"
    and p: "ParentDir \<notin> set p" "candidate = (if is_absolute p then p else path_join (pv_base_path v) p)"
    and r: "resolve_without_following_symlinks env v candidate = Ok r"
    and b: "prefix (pv_base_path v) r"
  shows "ParentDir \<notin> set (drop (length (pv_base_path v)) r)" "prefix q r \<Longrightarrow> q \<noteq> [] \<Longrightarrow> \<not> fs_is_symlink env q"
proof -
  let ?b = "pv_base_path v"
  obtain rest where rest: "strip_prefix candidate base = Some rest \<or>
        strip_prefix candidate base = None \<and> strip_prefix candidate ?b = Some rest"
      and rr: "r = path_join ?b rest" and s: "first_symlink env r = None"
    using r by (auto simp: resolve_without_following_symlinks_def v path_validator_new_def and_then_eq_Ok ok_or_eq_Ok
        reject_symlink_components_def Let_def split: option.splits)
  show "\<not> fs_is_symlink env q" if "prefix q r" "q \<noteq> []"
    using first_symlink_None[OF s that] .
  have sub: "set rest \<subseteq> set candidate"
    using rest by (auto simp: strip_prefix_def split: if_splits dest: in_set_dropD)
  show "ParentDir \<notin> set (drop (length ?b) r)"
  proof (cases "fs_canonicalize env base")
    case (Inr c)
    then have "ParentDir \<notin> set ?b"
      using laws by (auto simp: v path_validator_new_def canonical_laws_def)
    then have "ParentDir \<notin> set r"
      using sub p path_join_parent[of ?b p] path_join_parent[of ?b rest] by (auto simp: rr split: if_splits)
    then show ?thesis
      by (meson in_set_dropD)
  next
    case (Inl e)
    then have bb: "?b = base"
      by (simp add: v path_validator_new_def)
    have "ParentDir \<notin> set rest"
      using rest p by (auto simp: bb strip_prefix_def path_join_def prefix_def split: if_splits dest: in_set_dropD)
    then show ?thesis
      using b by (auto simp: rr path_join_def prefix_def split: if_splits dest: in_set_dropD)
  qed
qed

text \<open>
  The path validator (C0).  A path it accepts lies below the canonical base directory and, below the base, has no parent
  component.  When symbolic links are not followed, no component of the result is a symbolic link;
  when they are, no existing prefix of the result is one, so the check was made on the file that the path
  names.
\<close>

theorem validated_path_is_contained:
  assumes "canonical_laws env"
    and "validate_path env (path_validator_new env base follow) p = Ok r"
  defines "b \<equiv> pv_base_path (path_validator_new env base follow)"
  shows "prefix b r \<and> ParentDir \<notin> set (drop (length b) r)
    \<and> (\<forall>q. prefix q r \<and> q \<noteq> [] \<and> (follow \<longrightarrow> fs_exists env q) \<longrightarrow> \<not> fs_is_symlink env q)"
proof -
  let ?v = "path_validator_new env base follow"
  define candidate where "candidate = (if is_absolute p then p else path_join (pv_base_path ?v) p)"
  have p: "ParentDir \<notin> set p"
    using assms(2) by (auto simp: validate_path_def contains_parent_dir_def list_ex_iff split: if_splits)
  have pf: "pv_follow_symlinks ?v = follow"
    by (simp add: path_validator_new_def)
  have r: "prefix b r" "if follow then resolve_symlink env candidate = Ok r
      else resolve_without_following_symlinks env ?v candidate = Ok r"
    using assms(2) pf unfolding b_def validate_path_def candidate_def[symmetric] Let_def
    by (auto simp: and_then_eq_Ok is_within_base_def starts_with_def split: if_splits sum.splits)
  show ?thesis
  proof (cases follow)
    case True
    then have "resolve_symlink env candidate = Ok r"
      using r(2) by simp
    then show ?thesis
      using resolve_symlink_Ok[OF assms(1)] r(1) True by (meson in_set_dropD)
  next
    case False
    then have w: "resolve_without_following_symlinks env ?v candidate = Ok r"
      using r(2) by simp
    show ?thesis
      using resolve_without_Ok[OF assms(1) refl p candidate_def w r(1)[unfolded b_def]] r(1) False
      unfolding b_def by blast
  qed
qed

definition demo_fs :: fs_env where
  "demo_fs =
     (let srv = [RootDir, Normal ''srv'']; link = srv @ [Normal ''link'']; real = srv @ [Normal ''real''];
          known = [[RootDir], srv, real, link]
      in \<lparr>fs_exists = (\<lambda>p. p \<in> set known),
          fs_canonicalize = (\<lambda>p. if p = link then Ok real else if p \<in> set known then Ok p else Err IoNotFound),
          fs_is_symlink = (\<lambda>p. p = link)\<rparr>)"

lemma demo_fs_laws: "canonical_laws demo_fs"
  unfolding canonical_laws_def
proof (intro allI impI)
  fix p q
  assume "fs_canonicalize demo_fs p = Ok q"
  then consider "p = [RootDir]" "q = p" | "p = [RootDir, Normal ''srv'']" "q = p"
    | "q = [RootDir, Normal ''srv'', Normal ''real'']" "p = q \<or> p = [RootDir, Normal ''srv'', Normal ''link'']"
    by (auto simp: demo_fs_def Let_def split: if_splits)
  then show "ParentDir \<notin> set q \<and> (\<forall>r. prefix r q \<longrightarrow> \<not> fs_is_symlink demo_fs r)
      \<and> (\<forall>names. fs_exists demo_fs (q @ map Normal names) = fs_exists demo_fs (p @ map Normal names))"
    by cases (auto simp: demo_fs_def Let_def prefix_def Cons_eq_append_conv)
qed

theorem validated_path_is_contained_witness:
  "validate_path demo_fs (path_validator_new demo_fs [RootDir, Normal ''srv''] True) (components ''link/x'') =
     Ok [RootDir, Normal ''srv'', Normal ''real'', Normal ''x'']
   \<and> prefix [RootDir, Normal ''srv''] [RootDir, Normal ''srv'', Normal ''real'', Normal ''x'']"
proof -
  have v: "validate_path demo_fs (path_validator_new demo_fs [RootDir, Normal ''srv''] True) (components ''link/x'') =
     Ok [RootDir, Normal ''srv'', Normal ''real'', Normal ''x'']"
    by code_simp
  have "prefix (pv_base_path (path_validator_new demo_fs [RootDir, Normal ''srv''] True))
      [RootDir, Normal ''srv'', Normal ''real'', Normal ''x'']"
    using validated_path_is_contained[OF demo_fs_laws v] by (rule conjunct1)
  then show ?thesis
    using v by (simp add: path_validator_new_def demo_fs_def Let_def)
qed

lemma batch_bytes_small:
  assumes "cs < 2 ^ 32"
  shows "cs * max (SOURCE_SCAN_BATCH_BYTES div cs) 1 < 2 ^ 64"
proof -
  have "cs * (SOURCE_SCAN_BATCH_BYTES div cs) \<le> SOURCE_SCAN_BATCH_BYTES"
    by simp
  moreover have "SOURCE_SCAN_BATCH_BYTES < 2 ^ 64"
    by (simp add: SOURCE_SCAN_BATCH_BYTES_def)
  ultimately have "cs * (SOURCE_SCAN_BATCH_BYTES div cs) < 2 ^ 64"
    by (rule le_less_trans)
  moreover have "cs * 1 < 2 ^ 64"
    using assms by simp
  ultimately show ?thesis
    unfolding max_def by (cases "SOURCE_SCAN_BATCH_BYTES div cs \<le> 1") (simp_all only: if_True if_False)
qed

lemma piece_meta_fields:
  assumes "0 < cs" "cs < 2 ^ 32" "length content < 2 ^ 64" "i < div_ceil (length content) cs"
  shows "unat (cm_offset (piece_meta xxh cs 0 content 0 i)) = i * cs"
    "unat (cm_size (piece_meta xxh cs 0 content 0 i)) = min (length content - i * cs) cs"
proof -
  have "i * cs < 2 ^ LENGTH(64)"
    using div_ceil_less[OF assms(1,4)] assms(3) by simp
  then show "unat (cm_offset (piece_meta xxh cs 0 content 0 i)) = i * cs"
    unfolding piece_meta_def by (simp only: chunk_meta.simps unat_of_nat_small add_0)
  have "length (piece cs content i) < 2 ^ LENGTH(32)"
    using assms(2) by (simp add: length_piece)
  then show "unat (cm_size (piece_meta xxh cs 0 content 0 i)) = min (length content - i * cs) cs"
    unfolding piece_meta_def by (simp only: chunk_meta.simps unat_of_nat_small length_piece)
qed

text \<open>
  The single scan of a source file (C0).  The batched scan returns the digest of the whole file and exactly
  the chunk metadata that reading the file chunk by chunk returns, whatever the chunk size is relative to
  the batch; the chunks it describes concatenate to the file.
\<close>

theorem single_scan_matches_chunk_reads:
  assumes "length content < 2 ^ 64" "div_ceil (length content) (cmg_chunk_size (chunk_manager_new n)) < 2 ^ 32"
  shows "\<exists>metas. compute_file_hash_and_chunk_metas xxh digest content algorithm (cmg_chunk_size (chunk_manager_new n)) =
      Ok (compute_file_hash digest algorithm content, metas)
    \<and> generate_chunk_metas xxh (chunk_manager_new n) content (of_nat (length content)) = Ok metas
    \<and> concat (map (\<lambda>c. take (unat (cm_size c)) (drop (unat (cm_offset c)) content)) metas) = content"
proof -
  define m where "m = chunk_manager_new n"
  let ?cs = "cmg_chunk_size m" and ?N = "div_ceil (length content) (cmg_chunk_size m)"
  let ?metas = "map (piece_meta xxh ?cs 0 content 0) [0..<?N]"
  have cs: "0 < ?cs" "?cs < 2 ^ 32"
    by (auto simp: m_def chunk_manager_new_def MIN_CHUNK_SIZE_def MAX_CHUNK_SIZE_def)
  have batch: "\<not> ?cs * max (SOURCE_SCAN_BATCH_BYTES div ?cs) 1 \<ge> 2 ^ 64"
    using batch_bytes_small[OF cs(2)] by simp
  have "scan_loop xxh ?cs (max (SOURCE_SCAN_BATCH_BYTES div ?cs) 1 * ?cs) content (0 * ?cs) (of_nat 0) =
      (drop (0 * ?cs) content, ?metas)"
    using cs(1) assms(2) by (intro scan_loop_eq) (auto simp: m_def)
  then have "compute_file_hash_and_chunk_metas xxh digest content algorithm ?cs = Ok (digest algorithm content, ?metas)"
    using cs(1) batch by (simp add: compute_file_hash_and_chunk_metas_def mult.commute)
  moreover have "generate_chunk_metas xxh m content (of_nat (length content)) = Ok ?metas"
  proof -
    have "unat (calculate_chunk_count m (of_nat (length content))) = ?N"
      using assms unat_of_nat_small[where 'w = 64, of "length content"] unat_of_nat_small[where 'w = 32, of ?N]
      by (simp add: calculate_chunk_count_def m_def)
    then show ?thesis
      unfolding generate_chunk_metas_def by (simp only:) (rule generate_metas_eq[OF cs(1) assms(1)], simp)
  qed
  moreover have "take (unat (cm_size (piece_meta xxh ?cs 0 content 0 i)))
      (drop (unat (cm_offset (piece_meta xxh ?cs 0 content 0 i))) content) = piece ?cs content i" if "i < ?N" for i
    using piece_meta_fields[OF cs assms(1) that, of xxh] by (simp only: take_min_piece)
  then have "concat (map (\<lambda>c. take (unat (cm_size c)) (drop (unat (cm_offset c)) content)) ?metas) =
      concat (map (piece ?cs content) [0..<?N])"
    by (intro arg_cong[of _ _ concat]) simp
  ultimately show ?thesis
    using concat_pieces[OF cs(1), of content] unfolding m_def[symmetric] by (simp add: compute_file_hash_def)
qed

theorem single_scan_matches_chunk_reads_witness:
  "\<exists>metas. compute_file_hash_and_chunk_metas (\<lambda>bs. of_nat (length bs)) (\<lambda>_ bs. bs) [1, 2, 3] Blake3
       (cmg_chunk_size (chunk_manager_new 0)) =
     Ok (compute_file_hash (\<lambda>_ bs. bs) Blake3 [1, 2, 3], metas)"
  using single_scan_matches_chunk_reads[of "[1, 2, 3]" 0 "\<lambda>bs. of_nat (length bs)" "\<lambda>_ bs. bs" Blake3]
  by (auto simp: div_ceil_def chunk_manager_new_def MIN_CHUNK_SIZE_def MAX_CHUNK_SIZE_def)

text \<open>
  The layout a sender announces (C0).  For every file the layout, once built, passes the validation of the
  receiver as part of any current manifest with that file size, and the chunks at its offsets concatenate to the file.
\<close>

theorem announced_layout_is_valid:
  fixes content :: bytes
  assumes "build_chunk_layout (of_nat (length content)) cs = Ok chunks" "length content < 2 ^ 64"
    and "tm_version m = CURRENT_VERSION" "tm_file_size m = of_nat (length content)"
    and "tm_chunk_count m = of_nat (length chunks)" "tm_chunks m = chunks"
  shows "validate_transfer_manifest m = Ok ()
    \<and> concat (map (\<lambda>c. take (unat (cm_size c)) (drop (unat (cm_offset c)) content)) chunks) = content"
proof -
  have fs: "unat (of_nat (length content) :: u64) = length content"
    using assms(2) by (intro unat_of_nat_small) simp
  note l = build_chunk_layout_Ok[OF assms(1), unfolded fs]
  have count: "unat (tm_chunk_count m) = length chunks"
    unfolding assms(5) using l(4) by (intro unat_of_nat_small) simp
  have "sum_chunk_sizes 0 0 chunks = Ok (0 + of_nat (layout_sizes chunks))"
    using sum_chunk_sizes_eq[of chunks 0 0] l(5) by (simp add: layout_meta_def layout_sizes_def)
  then have "sum_chunk_sizes 0 0 chunks = Ok (tm_file_size m)"
    using layout_sizes_layout[OF assms(1)] by (simp add: fs assms(4))
  then have v: "validate_transfer_manifest m = Ok ()"
    using count by (simp add: validate_transfer_manifest_def assms(3,6))
  have "take (unat (cm_size (chunks ! j))) (drop (unat (cm_offset (chunks ! j))) content) = piece cs content j"
    if j: "j < length chunks" for j
    using layout_meta_fields[of cs j "of_nat (length content)", unfolded fs] l(1-3) j
    by (simp only: l(5)[OF j] take_min_piece)
  then have "map (\<lambda>c. take (unat (cm_size c)) (drop (unat (cm_offset c)) content)) chunks =
      map (piece cs content) [0..<length chunks]"
    by (intro nth_equalityI) simp_all
  then show ?thesis
    using v concat_pieces[OF l(1), of content] l(3) by simp
qed

definition demo_layout_manifest :: transfer_manifest where
  "demo_layout_manifest =
     \<lparr>tm_version = CURRENT_VERSION, tm_session_id = TransferSessionId (replicate 16 7), tm_source_path = ''src.bin'',
      tm_dest_path = ''dst.bin'', tm_file_size = 3, tm_file_hash = [], tm_hash_algorithm = Sha256, tm_chunk_size = 2,
      tm_chunk_count = 2, tm_chunks = map (layout_meta 3 2) [0, 1], tm_metadata = None,
      tm_options = transfer_options_default, tm_created_at = 0\<rparr>"

theorem announced_layout_is_valid_witness:
  "validate_transfer_manifest demo_layout_manifest = Ok ()
   \<and> concat (map (\<lambda>c. take (unat (cm_size c)) (drop (unat (cm_offset c)) [1, 2, 3 :: u8])) (tm_chunks demo_layout_manifest)) = [1, 2, 3]"
proof -
  have b: "build_chunk_layout (of_nat (length [1, 2, 3 :: u8])) 2 = Ok (map (layout_meta 3 2) [0, 1])"
    by (simp add: build_chunk_layout_def div_ceil_def upt_rec)
  show ?thesis
    using announced_layout_is_valid[OF b, of demo_layout_manifest] by (simp add: demo_layout_manifest_def)
qed

text \<open>
  Hashing chunks that arrive out of order (C0).  Recording every chunk of a transfer at least once, in any
  order and with any repetitions, leaves nothing pending and gives the digest of the chunks in file order.
\<close>

theorem incremental_hash_is_order_independent:
  fixes d :: "u32 \<Rightarrow> bytes" and algorithm :: hash_algorithm
  assumes "set arrivals = {i. i < n}"
  defines "s \<equiv> fold (\<lambda>i s. fst (incremental_record i (d i) s)) arrivals (incremental_new algorithm)"
  shows "irh_next_index s = n \<and> irh_pending s = []
    \<and> incremental_finalize digest s = digest algorithm (concat (map (\<lambda>i. d (of_nat i)) [0..<unat n]))"
proof -
  have step: "irh_ok d (S \<union> set is) (fold (\<lambda>i s. fst (incremental_record i (d i) s)) is s0)
      \<and> irh_algorithm (fold (\<lambda>i s. fst (incremental_record i (d i) s)) is s0) = irh_algorithm s0"
    if "irh_ok d S s0" "S \<subseteq> {i. i < n}" "set is \<subseteq> {i. i < n}" for S s0 "is"
    using that
  proof (induction "is" arbitrary: S s0)
    case (Cons i "is")
    have "- 1 \<notin> S" "i \<noteq> - 1"
      using Cons.prems(2,3) word_not_simps(3)[of n] by auto
    then have "irh_ok d (insert i S) (fst (incremental_record i (d i) s0))"
      using incremental_record_ok[OF Cons.prems(1)] by simp
    then show ?case
      using Cons.IH[of "insert i S" "fst (incremental_record i (d i) s0)"] Cons.prems(2,3)
      by (simp add: incremental_record_algorithm)
  qed simp
  have ok: "irh_ok d {i. i < n} s" "irh_algorithm s = algorithm"
    using step[OF incremental_new_ok, of arrivals] assms(1) by (simp_all add: s_def incremental_new_def)
  show ?thesis
    using irh_ok_all[OF ok(1) refl] irh_ok_complete[OF ok(1), of n] ok(2) by (simp add: incremental_finalize_def)
qed

theorem incremental_hash_is_order_independent_witness:
  "let d = (\<lambda>i. [ucast i, 9]); s = fold (\<lambda>i s. fst (incremental_record i (d i) s)) [2, 0, 2, 1] (incremental_new Blake3)
   in irh_next_index s = 3 \<and> incremental_finalize (\<lambda>_ bs. bs) s = [0, 9, 1, 9, 2, 9]"
proof -
  have "set [2, 0, 2, 1] = {i :: u32. i < 3}"
  proof -
    have "i = 0 \<or> i = 1 \<or> i = 2" if "i < 3" for i :: u32
      using that by (auto simp: word_less_nat_alt word_unat_eq_iff)
    moreover have "(0 :: u32) < 3" "(1 :: u32) < 3" "(2 :: u32) < 3"
      by simp_all
    ultimately show ?thesis
      by auto
  qed
  from incremental_hash_is_order_independent[OF this, of "\<lambda>i. [ucast i, 9]" Blake3 "\<lambda>_ bs. bs"]
  show ?thesis
    by (simp add: Let_def upt_rec)
qed

text \<open>
  The chunk stream (C0).  What a sender writes for a chunk of at most the maximal size, the receiver reads
  back, once the transport has taken the magic byte: the session, the index, the payload and the trailing
  checksum, with the rest of the stream left unread.
\<close>

theorem chunk_stream_roundtrip:
  assumes "length (session_id_as_bytes sid) = 16"
    and "encode_with_checksum sid index data checksum = Ok frame"
  shows "hd frame = FILE_CHUNK_STREAM_MAGIC
    \<and> and_then (decode_header (tl frame @ rest)) (\<lambda>(h, stream).
        and_then (decode_payload stream (csh_data_len h)) (\<lambda>(payload, stream).
        and_then (decode_checksum stream) (\<lambda>(c, stream).
          Ok (csh_session_id h, csh_chunk_index h, payload, c, stream)))) =
      Ok (sid, index, data, checksum, rest)"
proof -
  obtain bs where sid: "sid = TransferSessionId bs" "length bs = 16"
    using assms(1) by (cases sid) simp
  have small: "length data \<le> MAX_WIRE_CHUNK_SIZE" "length data < 2 ^ 32"
    and frame: "frame = FILE_CHUNK_STREAM_MAGIC # (bs @ to_le_bytes index @ to_le_bytes (of_nat (length data) :: u32))
      @ data @ to_le_bytes checksum"
    using assms(2)
    by (auto simp: encode_with_checksum_def chunk_encode_def encode_header_def and_then_eq_Ok sid split: if_splits)
  have u: "unat (of_nat (length data) :: u32) = length data"
    using small(2) by (intro unat_of_nat_small) simp
  let ?header = "bs @ to_le_bytes index @ to_le_bytes (of_nat (length data) :: u32)"
  have len: "length ?header = 24"
    by (simp add: sid(2) length_to_bytes)
  have h: "decode_header_bytes (FILE_CHUNK_STREAM_MAGIC # ?header) =
      Ok \<lparr>csh_session_id = sid, csh_chunk_index = index, csh_data_len = length data\<rparr>"
  proof -
    have "slice_range ([FILE_CHUNK_STREAM_MAGIC] @ ?header) 1 17 = bs"
      "slice_range ([FILE_CHUNK_STREAM_MAGIC] @ ?header) 17 21 = to_le_bytes index"
      "slice_range ([FILE_CHUNK_STREAM_MAGIC] @ ?header) 21 25 = to_le_bytes (of_nat (length data) :: u32)"
      by (simp_all add: sid(2) del: append_Cons append_Nil)
    then show ?thesis
      using small(1) by (simp add: decode_header_bytes_def sid u Let_def)
  qed
  have "decode_header (tl frame @ rest) =
      Ok (\<lparr>csh_session_id = sid, csh_chunk_index = index, csh_data_len = length data\<rparr>, data @ to_le_bytes checksum @ rest)"
    using len h by (simp add: decode_header_def read_exact_def frame)
  moreover have "decode_payload (data @ to_le_bytes checksum @ rest) (length data) = Ok (data, to_le_bytes checksum @ rest)"
    using small(1) by (simp add: decode_payload_def read_exact_def)
  moreover have "decode_checksum (to_le_bytes checksum @ rest) = Ok (checksum, rest)"
    by (simp add: decode_checksum_def read_exact_def length_to_bytes)
  ultimately show ?thesis
    by (simp add: frame)
qed

theorem chunk_stream_roundtrip_witness:
  "hd ([FILE_CHUNK_STREAM_MAGIC] @ replicate 16 7 @ to_le_bytes (1 :: u32) @ to_le_bytes (2 :: u32) @ [5, 6] @ to_le_bytes (9 :: u64)) =
     FILE_CHUNK_STREAM_MAGIC"
proof -
  have "encode_with_checksum (TransferSessionId (replicate 16 7)) 1 [5, 6] 9 =
      Ok ([FILE_CHUNK_STREAM_MAGIC] @ replicate 16 7 @ to_le_bytes (1 :: u32) @ to_le_bytes (2 :: u32) @ [5, 6] @ to_le_bytes (9 :: u64))"
    by (simp add: encode_with_checksum_def chunk_encode_def encode_header_def MAX_WIRE_CHUNK_SIZE_def)
  from chunk_stream_roundtrip[OF _ this, of "[]"] show ?thesis
    by simp
qed

section \<open>How long the throttle waits\<close>

lemma saturating_add_0: "saturating_add 0 x = (x :: 'w::len word)"
proof -
  have "unat x \<le> 2 ^ LENGTH('w) - 1"
    using unat_bound[of x] by linarith
  then show ?thesis
    by (simp add: word_unat_eq_iff unat_saturating_add)
qed

lemma tokens_for_seconds:
  assumes "0 < limit" "j * unat limit < 2 ^ 64"
  shows "throttle_tokens_for_elapsed limit (j * 1000000000) = of_nat j * limit"
proof -
  have "j * 1000000000 * unat limit div 1000000000 = j * unat limit"
    by simp
  moreover have "of_nat (j * unat limit) = of_nat j * limit"
    by simp
  moreover have "limit \<noteq> 0"
    using assms(1) by auto
  ultimately show ?thesis
    using assms(2) by (simp add: throttle_tokens_for_elapsed_def min_def)
qed

lemma unat_multiple:
  assumes "j * unat (limit :: u64) < 2 ^ 64"
  shows "unat (of_nat j * limit) = j * unat limit"
proof -
  have "of_nat j * limit = of_nat (j * unat limit)"
    by simp
  then show ?thesis
    using unat_of_nat_small[of "j * unat limit", where 'w = 64] assms by simp
qed

text \<open>
  A round after a sleep of \<open>j\<close> seconds that was computed for \<open>j\<close> times the limit: the bucket holds one
  second's worth only.
\<close>

lemma round_after_sleep:
  assumes l: "0 < limit" "Suc j * unat limit < 2 ^ 64" "Suc j * 1000000000 < 2 ^ 64"
  shows "throttle_round (t + Suc j * 1000000000) (of_nat (Suc j) * limit) \<lparr>bw_limit = limit, bw_tokens = 0, bw_last_refill = t\<rparr> =
    (if j = 0 then (\<lparr>bw_limit = limit, bw_tokens = 0, bw_last_refill = t + 1000000000\<rparr>, Granted)
     else (\<lparr>bw_limit = limit, bw_tokens = 0, bw_last_refill = t + Suc j * 1000000000\<rparr>,
           Lacking (of_nat j * limit) (Some (j * 1000000000))))"
proof -
  let ?add = "of_nat (Suc j) * limit"
  have u: "unat ?add = Suc j * unat limit"
    by (rule unat_multiple[OF l(2)])
  have l0: "0 < unat limit"
    using l(1) by (simp add: word_less_nat_alt)
  have jl: "unat (of_nat j * limit) = j * unat limit"
    using l(2) by (intro unat_multiple) simp
  have le: "limit \<le> ?add"
    unfolding word_le_nat_alt u by simp
  have pos: "0 < ?add"
    unfolding word_less_nat_alt u using l0 by simp
  have add: "throttle_tokens_for_elapsed limit (Suc j * 1000000000) = ?add"
    by (rule tokens_for_seconds[OF l(1,2)])
  have tokens: "min (saturating_add 0 ?add) limit = limit"
    using le by (simp add: saturating_add_0 min_absorb2 del: of_nat_Suc)
  have "?add \<le> limit \<longleftrightarrow> j = 0"
    unfolding word_le_nat_alt u using l0 by simp
  moreover have "saturating_sub ?add limit = of_nat j * limit"
    by (simp only: word_unat_eq_iff unat_saturating_sub u jl) simp
  moreover have "missing_wait limit (of_nat j * limit) = Some (j * 1000000000)" if "j \<noteq> 0"
  proof -
    have "j * unat limit * 1000000000 div unat limit = j * 1000000000"
      using l0 by (simp add: mult.assoc mult.commute[of "unat limit"] mult.left_commute)
    then show ?thesis
      using l(1,3) that unfolding missing_wait_def jl by auto
  qed
  ultimately show ?thesis
    using l(1) pos add tokens unfolding throttle_round_def Let_def by (auto simp: word_gt_0)
qed

lemma acquire_loop_after_sleep:
  assumes "0 < limit" "Suc j * unat limit < 2 ^ 64" "Suc j * 1000000000 < 2 ^ 64"
  shows "acquire_loop (Suc j) (t + Suc j * 1000000000) (of_nat (Suc j) * limit)
      \<lparr>bw_limit = limit, bw_tokens = 0, bw_last_refill = t\<rparr> =
    (let done = t + (\<Sum>i\<le>Suc j. i) * 1000000000 in Some (done, \<lparr>bw_limit = limit, bw_tokens = 0, bw_last_refill = done\<rparr>))"
  using assms(2,3)
proof (induction j arbitrary: t)
  case 0
  have "of_nat (Suc 0) * limit \<noteq> 0"
    using assms(1) by auto
  then show ?case
    using round_after_sleep[OF assms(1) 0, of t] by (simp only: acquire_loop.simps(2)) (simp add: Let_def)
next
  case (Suc j)
  have "unat (of_nat (Suc (Suc j)) * limit) = Suc (Suc j) * unat limit"
    by (rule unat_multiple[OF Suc.prems(1)])
  then have nz: "of_nat (Suc (Suc j)) * limit \<noteq> 0"
    using assms(1) by (metis mult_is_0 nat.distinct(1) unat_0 unat_gt_0 word_less_nat_alt less_numeral_extra(3))
  let ?t = "t + Suc (Suc j) * 1000000000"
  have "acquire_loop (Suc (Suc j)) ?t (of_nat (Suc (Suc j)) * limit) \<lparr>bw_limit = limit, bw_tokens = 0, bw_last_refill = t\<rparr> =
      acquire_loop (Suc j) (?t + Suc j * 1000000000) (of_nat (Suc j) * limit)
        \<lparr>bw_limit = limit, bw_tokens = 0, bw_last_refill = ?t\<rparr>"
    using round_after_sleep[OF assms(1) Suc.prems, of t] nz
    by (simp only: acquire_loop.simps(2)[of "Suc j"]) (simp del: acquire_loop.simps of_nat_Suc)
  also have "\<dots> = (let done = ?t + (\<Sum>i\<le>Suc j. i) * 1000000000
      in Some (done, \<lparr>bw_limit = limit, bw_tokens = 0, bw_last_refill = done\<rparr>))"
    using Suc.prems by (intro Suc.IH) simp_all
  also have "?t + (\<Sum>i\<le>Suc j. i) * 1000000000 = t + (\<Sum>i\<le>Suc (Suc j). i) * 1000000000"
    by (simp add: algebra_simps)
  finally show ?case .
qed

text \<open>
  The throttle and large requests (C0).  On an empty bucket a request of \<open>k\<close> times the limit, a chunk of
  ten mebibytes at one mebibyte per second for instance, returns after \<open>k (k + 1) / 2\<close> seconds although every sleep is
  exact: each sleep is computed for all that is missing, but the bucket never holds more than one
  second's worth, so the rest of the time slept is lost.  The configured rate would take \<open>k\<close> seconds.
\<close>

theorem large_request_waits_quadratically:
  assumes "0 < limit" "0 < k" "k * unat limit < 2 ^ 64" "k * 1000000000 < 2 ^ 64"
  shows "map_option fst (throttle_acquire (Suc k) now (of_nat k * limit)
      \<lparr>bw_limit = limit, bw_tokens = 0, bw_last_refill = now\<rparr>) = Some (now + k * (k + 1) div 2 * 1000000000)"
proof -
  let ?b = "\<lparr>bw_limit = limit, bw_tokens = 0, bw_last_refill = now\<rparr>"
  obtain j where k: "k = Suc j"
    using assms(2) by (cases k) auto
  have u: "unat (of_nat k * limit) = k * unat limit"
    by (rule unat_multiple[OF assms(3)])
  have l0: "0 < unat limit"
    using assms(1) by (simp add: word_less_nat_alt)
  have nz: "0 < of_nat k * limit"
    unfolding word_less_nat_alt u using l0 assms(2) by simp
  have "k * unat limit * 1000000000 div unat limit = k * 1000000000"
    using l0 by (simp add: mult.assoc mult.commute[of "unat limit"] mult.left_commute)
  then have "missing_wait limit (of_nat k * limit) = Some (k * 1000000000)"
    using assms(1,2,4) unfolding missing_wait_def u by (auto simp: k)
  then have "throttle_round now (of_nat k * limit) ?b = (?b, Lacking (of_nat k * limit) (Some (k * 1000000000)))"
    using nz assms(1) by (auto simp: throttle_round_def throttle_tokens_for_elapsed_def not_le Let_def)
  then have "throttle_acquire (Suc k) now (of_nat k * limit) ?b = acquire_loop k (now + k * 1000000000) (of_nat k * limit) ?b"
    using nz assms(1) by (auto simp: throttle_acquire_def)
  also have "\<dots> = (let done = now + (\<Sum>i\<le>k. i) * 1000000000 in Some (done, \<lparr>bw_limit = limit, bw_tokens = 0, bw_last_refill = done\<rparr>))"
    unfolding k by (rule acquire_loop_after_sleep[OF assms(1) assms(3,4)[unfolded k]])
  finally show ?thesis
    by (simp add: Let_def gauss_sum_nat atMost_atLeast0 gauss_sum_nat)
qed

theorem large_request_waits_quadratically_witness:
  "map_option fst (throttle_acquire 11 0 (10 * 1048576) \<lparr>bw_limit = 1048576, bw_tokens = 0, bw_last_refill = 0\<rparr>) =
     Some (55 * 1000000000)"
  using large_request_waits_quadratically[of 1048576 10 0] by simp

end
