(* ===== verification/Spec2Isabelle.thy ===== *)
theory Spec2Isabelle
  imports Hlc Swim Wal_Durability Scheduling Multi_Raft File_Chunks
begin

text \<open>
  \<^bold>\<open>Verification of alopex-chirps.\<close>  The repository is a clustering library: nodes exchange
  frames over QUIC, keep membership with a SWIM gossip engine, replicate state with Raft groups
  whose log lives in a write-ahead log, allocate timestamps from a replicated oracle, buffer
  messages under a memory budget, and transfer snapshots and files in verified chunks.

  The development has one theory per component over the shared theory \<^verbatim>\<open>Chirps_Prelude\<close>
  (machine integers, results, byte encodings).
\<close>

end
